(* ===== verification/Prelude.thy ===== *)
theory Prelude
  imports Main "HOL-Library.Word" "HOL-Library.Multiset" "HOL-Library.Monad_Syntax"
begin

text \<open>
  Shared ground of the development: the machine integer types of the crate, the
  operations of the Rust standard library that several components use
  (\<open>slice::partition_point\<close>, \<open>Iterator::position\<close>, \<open>Vec::swap_remove\<close>, the saturating
  operations on \<open>usize\<close>), and the generic lemmas on lists that the component
  proofs rest on.
\<close>

section \<open>Machine integers\<close>

type_synonym u64 = "64 word"
type_synonym u32 = "32 word"
type_synonym i32 = "32 word" \<comment> \<open>read with \<^const>\<open>sint\<close>\<close>

type_synonym usize = "64 word"

definition usize_saturating_add :: "usize \<Rightarrow> usize \<Rightarrow> usize" where
  "usize_saturating_add a b = (if a + b < a then - 1 else a + b)"

definition usize_saturating_sub :: "usize \<Rightarrow> usize \<Rightarrow> usize" where
  "usize_saturating_sub a b = (if a < b then 0 else a - b)"

section \<open>Named collections\<close>

named_theorems hazard_defs \<open>definitions of the hazard domain's atomic operations\<close>
named_theorems cell_defs \<open>definitions of the snapshot cell's operations\<close>
named_theorems registry_defs \<open>definitions of the registries' operations\<close>

section \<open>Slices and vectors\<close>

text \<open>
  \<open>slice::partition_point\<close> is a bisection: the index is only meaningful when the
  slice is partitioned, which the lemma below takes as its hypothesis. The loop
  keeps a base and a size, halves the size, and looks at the element at
  \<open>base + size / 2\<close>; the last comparison decides between \<open>base\<close> and \<open>base + 1\<close>.
\<close>

function bisect :: "('a \<Rightarrow> bool) \<Rightarrow> 'a list \<Rightarrow> nat \<Rightarrow> nat \<Rightarrow> nat" where
  "bisect P xs base sz =
     (if sz \<le> 1 then base
      else (let half = sz div 2; mid = base + half
            in bisect P xs (if P (xs ! mid) then mid else base) (sz - half)))"
  by pat_completeness auto
termination
  by (relation "measure (\<lambda>(P, xs, base, sz). sz)") auto

declare bisect.simps [simp del]

definition partition_point :: "('a \<Rightarrow> bool) \<Rightarrow> 'a list \<Rightarrow> nat" where
  "partition_point P xs =
     (if xs = [] then 0
      else (let base = bisect P xs 0 (length xs)
            in if P (xs ! base) then base + 1 else base))"

fun position :: "('a \<Rightarrow> bool) \<Rightarrow> 'a list \<Rightarrow> nat option" where
  "position P [] = None"
| "position P (x # xs) = (if P x then Some 0 else map_option Suc (position P xs))"

definition swap_remove :: "'a list \<Rightarrow> nat \<Rightarrow> 'a \<times> 'a list" where
  "swap_remove xs i = (xs ! i, butlast (xs[i := last xs]))"

definition partitioned :: "('a \<Rightarrow> bool) \<Rightarrow> 'a list \<Rightarrow> bool" where
  "partitioned P xs \<longleftrightarrow> sorted_wrt (\<lambda>x y. P y \<longrightarrow> P x) xs"

lemma partitioned_nth:
  assumes "partitioned P xs" "i \<le> j" "j < length xs" "P (xs ! j)"
  shows "P (xs ! i)"
  using assms unfolding partitioned_def sorted_wrt_iff_nth_less
  by (metis le_neq_implies_less)

lemma bisect_bounds:
  assumes "0 < sz" "base + sz \<le> length xs"
    and "\<forall>i<base. P (xs ! i)" "base = 0 \<or> P (xs ! base)"
    and "\<forall>i. base + sz \<le> i \<and> i < length xs \<longrightarrow> \<not> P (xs ! i)"
    and "partitioned P xs"
  shows "let b = bisect P xs base sz in
    b < length xs \<and> (\<forall>i<b. P (xs ! i)) \<and> (\<forall>i. b < i \<and> i < length xs \<longrightarrow> \<not> P (xs ! i))"
  using assms
proof (induction P xs base sz rule: bisect.induct)
  case (1 P xs base sz)
  show ?case
  proof (cases "sz \<le> 1")
    case True
    then have "bisect P xs base sz = base" by (subst bisect.simps) simp
    moreover have "sz = 1" using True "1.prems"(1) by simp
    ultimately show ?thesis using "1.prems"(2,3,5) unfolding Let_def
      by (metis Suc_eq_plus1 Suc_leI less_le_trans lessI)
  next
    case False
    define half where "half = sz div 2"
    define mid where "mid = base + half"
    define b' where "b' = (if P (xs ! mid) then mid else base)"
    have half: "0 < half" "half < sz" using False by (auto simp: half_def)
    have mid: "mid < length xs" using half "1.prems"(2) by (simp add: mid_def)
    have below: "\<forall>i<b'. P (xs ! i)"
    proof (cases "P (xs ! mid)")
      case True
      then have "b' = mid" by (simp add: b'_def)
      then show ?thesis using partitioned_nth [OF "1.prems"(6) _ mid True] by simp
    next
      case False
      then show ?thesis using "1.prems"(3) by (simp add: b'_def)
    qed
    have at: "b' = 0 \<or> P (xs ! b')"
      using "1.prems"(4) unfolding b'_def by (cases "P (xs ! mid)") simp_all
    have above: "\<forall>i. b' + (sz - half) \<le> i \<and> i < length xs \<longrightarrow> \<not> P (xs ! i)"
    proof (intro allI impI notI)
      fix i assume i: "b' + (sz - half) \<le> i \<and> i < length xs" and Pi: "P (xs ! i)"
      show False
      proof (cases "P (xs ! mid)")
        case True
        then have "b' = mid" by (simp add: b'_def)
        then have "base + sz \<le> i" using i half by (simp add: mid_def)
        with i "1.prems"(5) Pi show False by blast
      next
        case False
        then have "b' = base" by (simp add: b'_def)
        then have "mid \<le> i" using i unfolding mid_def half_def by linarith
        with i Pi False "1.prems"(6) show False using partitioned_nth by blast
      qed
    qed
    have "0 < sz - half" "b' + (sz - half) \<le> length xs"
      using half "1.prems"(2) unfolding b'_def mid_def by (cases "P (xs ! mid)"; simp add: mid_def)+
    then have "let b = bisect P xs b' (sz - half) in
      b < length xs \<and> (\<forall>i<b. P (xs ! i)) \<and> (\<forall>i. b < i \<and> i < length xs \<longrightarrow> \<not> P (xs ! i))"
      using "1.IH" [OF False half_def mid_def, folded b'_def] below at above "1.prems"(6) by blast
    moreover have "bisect P xs base sz = bisect P xs b' (sz - half)"
      unfolding b'_def mid_def half_def using False by (subst bisect.simps) (simp add: Let_def)
    ultimately show ?thesis by simp
  qed
qed

lemma partition_point_takeWhile:
  assumes "partitioned P xs"
  shows "partition_point P xs = length (takeWhile P xs)"
proof (cases "xs = []")
  case True
  then show ?thesis by (simp add: partition_point_def)
next
  case False
  define b where "b = bisect P xs 0 (length xs)"
  have "0 < length xs" using False by simp
  from bisect_bounds [OF this, of 0 xs P, folded b_def, unfolded Let_def] assms
  have b: "b < length xs \<and> (\<forall>i<b. P (xs ! i)) \<and> (\<forall>i. b < i \<and> i < length xs \<longrightarrow> \<not> P (xs ! i))"
    by fastforce
  define k where "k = (if P (xs ! b) then b + 1 else b)"
  have k: "k \<le> length xs" "\<forall>i<k. P (xs ! i)" "k < length xs \<longrightarrow> \<not> P (xs ! k)"
    using b unfolding k_def by (cases "P (xs ! b)"; simp add: less_Suc_eq)+
  have "takeWhile P xs = take k xs"
    using k by (intro takeWhile_eq_take_P_nth) auto
  then have "length (takeWhile P xs) = k" using k(1) by simp
  then show ?thesis using False by (simp add: partition_point_def k_def b_def Let_def)
qed

lemma partition_point_le: "partitioned P xs \<Longrightarrow> partition_point P xs \<le> length xs"
  by (simp add: partition_point_takeWhile length_takeWhile_le)

lemma take_partition_point [simp]:
  "partitioned P xs \<Longrightarrow> take (partition_point P xs) xs = takeWhile P xs"
  using partition_point_takeWhile takeWhile_eq_take by metis

lemma drop_partition_point [simp]:
  "partitioned P xs \<Longrightarrow> drop (partition_point P xs) xs = dropWhile P xs"
  using partition_point_takeWhile dropWhile_eq_drop by metis

lemma position_None_iff: "position P xs = None \<longleftrightarrow> (\<forall>x\<in>set xs. \<not> P x)"
  by (induction xs) auto

lemma position_SomeD:
  "position P xs = Some i \<Longrightarrow> i < length xs \<and> P (xs ! i) \<and> (\<forall>j<i. \<not> P (xs ! j))"
proof (induction xs arbitrary: i)
  case Nil
  then show ?case by simp
next
  case (Cons x xs)
  then show ?case by (auto split: if_splits simp: nth_Cons split: nat.splits)
qed

lemma length_swap_remove [simp]:
  "i < length xs \<Longrightarrow> length (snd (swap_remove xs i)) = length xs - 1"
  by (simp add: swap_remove_def)

lemma mset_swap_remove:
  assumes "i < length xs"
  shows "mset xs = add_mset (fst (swap_remove xs i)) (mset (snd (swap_remove xs i)))"
proof -
  let ?ys = "xs[i := last xs]"
  have ne: "xs \<noteq> []" "?ys \<noteq> []" using assms by auto
  then have "last ?ys = last xs" by (subst last_list_update) auto
  then have "?ys = butlast ?ys @ [last xs]" using ne(2) by (metis append_butlast_last_id)
  then have "mset ?ys = mset (butlast ?ys @ [last xs])" by (rule arg_cong)
  then have "add_mset (last xs) (mset (butlast ?ys)) = mset ?ys" by simp
  also have "\<dots> = add_mset (last xs) (mset xs - {#xs ! i#})"
    using assms by (simp add: mset_update)
  finally have "mset (butlast (xs[i := last xs])) = mset xs - {#xs ! i#}" by simp
  then show ?thesis using assms by (simp add: swap_remove_def)
qed

lemma nth_swap_remove: "j < i \<Longrightarrow> i < length xs \<Longrightarrow> snd (swap_remove xs i) ! j = xs ! j"
  by (simp add: swap_remove_def nth_butlast)

text \<open>Updating a list at an index that may be out of range.\<close>

lemma nth_update: "xs[i := x] ! j = (if j = i \<and> i < length xs then x else xs ! j)"
  by (cases "i < length xs") (auto simp: nth_list_update list_update_beyond)

text \<open>Sums over a list of per-thread or per-cell contributions, one of which changes.\<close>

lemma sum_list_update_nat:
  fixes f :: "'a \<Rightarrow> nat"
  assumes "i < length xs"
  shows "(\<Sum>x\<leftarrow>xs[i := y]. f x) + f (xs ! i) = (\<Sum>x\<leftarrow>xs. f x) + f y"
  using assms
proof (induction xs arbitrary: i)
  case Nil
  then show ?case by simp
next
  case (Cons x xs)
  then show ?case by (cases i) (auto simp: algebra_simps)
qed

lemma sum_list_member_le_nat:
  fixes f :: "'a \<Rightarrow> nat"
  shows "x \<in> set xs \<Longrightarrow> f x \<le> (\<Sum>x\<leftarrow>xs. f x)"
  by (induction xs) auto

end
