(* ===== verification/HandlerId.thy ===== *)
theory HandlerId
  imports Prelude
begin

text \<open>
  The opaque handler identifier and its generator (\<^verbatim>\<open>src/src/handler_id.rs\<close>). A
  \<open>HandlerId\<close> wraps a 64-bit word. The generator is one atomic counter, and
  \<open>fetch_add\<close> is one atomic step, so any interleaving of threads is a sequence of
  calls; \<open>issue n\<close> is \<open>n\<close> such calls. Ids are distinct for the first \<open>2 ^ 64\<close> calls and
  no longer (the counter wraps). The \<open>Display\<close> and \<open>Debug\<close> texts are modelled down
  to the decimal digits and are injective.
\<close>

section \<open>The identifier\<close>

datatype HandlerId = HandlerId u64

definition from_raw :: "u64 \<Rightarrow> HandlerId" where
  "from_raw r = HandlerId r"

fun as_u64 :: "HandlerId \<Rightarrow> u64" where
  "as_u64 (HandlerId r) = r"

text \<open>Decimal text of an unsigned integer, as the standard library prints it.\<close>

definition digit :: "nat \<Rightarrow> char" where
  "digit d = char_of (48 + d)"

fun decimal :: "nat \<Rightarrow> string" where
  "decimal n = (if n < 10 then [digit n] else decimal (n div 10) @ [digit (n mod 10)])"

declare decimal.simps [simp del]

definition undecimal :: "string \<Rightarrow> nat" where
  "undecimal s = foldl (\<lambda>acc c. 10 * acc + (of_char c - 48)) 0 s"

definition HandlerId_display :: "HandlerId \<Rightarrow> string" where
  "HandlerId_display hid = decimal (unat (as_u64 hid))"

definition HandlerId_debug :: "HandlerId \<Rightarrow> string" where
  "HandlerId_debug hid = ''HandlerId('' @ decimal (unat (as_u64 hid)) @ '')''"

section \<open>The generator\<close>

record HandlerIdGenerator =
  gen_next :: u64

definition HandlerIdGenerator_new :: HandlerIdGenerator where
  "HandlerIdGenerator_new = \<lparr>gen_next = 1\<rparr>"

definition HandlerIdGenerator_next :: "HandlerIdGenerator \<Rightarrow> HandlerId \<times> HandlerIdGenerator" where
  "HandlerIdGenerator_next g =
     (let r = gen_next g in (from_raw r, g\<lparr>gen_next := r + 1\<rparr>))"

fun issue :: "nat \<Rightarrow> HandlerIdGenerator \<Rightarrow> HandlerId list \<times> HandlerIdGenerator" where
  "issue 0 g = ([], g)"
| "issue (Suc n) g =
     (let (i, g1) = HandlerIdGenerator_next g; (is, g2) = issue n g1 in (i # is, g2))"

section \<open>Lemmas\<close>

lemma of_char_digit: "d < 10 \<Longrightarrow> of_char (digit d) = 48 + d"
  by (simp add: digit_def)

lemma undecimal_snoc: "undecimal (s @ [c]) = 10 * undecimal s + (of_char c - 48)"
  by (simp add: undecimal_def)

lemma undecimal_decimal: "undecimal (decimal n) = n"
proof (induction n rule: decimal.induct)
  case (1 n)
  show ?case
  proof (cases "n < 10")
    case True
    then show ?thesis
      by (subst decimal.simps) (simp add: undecimal_def of_char_digit)
  next
    case False
    then show ?thesis using "1.IH"
      by (subst decimal.simps) (simp add: undecimal_snoc of_char_digit)
  qed
qed

lemma decimal_inj: "decimal m = decimal n \<longleftrightarrow> m = n"
  using undecimal_decimal by metis

lemma HandlerId_eq_iff: "x = y \<longleftrightarrow> as_u64 x = as_u64 y"
  by (cases x; cases y) simp

lemma issue_ids: "fst (issue n g) = map (\<lambda>k. HandlerId (gen_next g + of_nat k)) [0..<n]"
proof (induction n arbitrary: g)
  case 0
  then show ?case by simp
next
  case (Suc n)
  have "fst (issue (Suc n) g) =
      HandlerId (gen_next g) # map (\<lambda>k. HandlerId (gen_next g + 1 + of_nat k)) [0..<n]"
    by (simp add: HandlerIdGenerator_next_def from_raw_def Let_def Suc split_beta)
  also have "\<dots> = map (\<lambda>k. HandlerId (gen_next g + of_nat k)) (0 # map Suc [0..<n])"
    by (simp add: algebra_simps)
  also have "0 # map Suc [0..<n] = [0..<Suc n]"
    by (metis map_Suc_upt upt_conv_Cons zero_less_Suc)
  finally show ?case .
qed

lemma issue_next: "gen_next (snd (issue n g)) = gen_next g + of_nat n"
  by (induction n arbitrary: g)
     (auto simp: HandlerIdGenerator_next_def Let_def split_beta algebra_simps)

lemma distinct_word_range:
  "distinct (map (\<lambda>k. HandlerId (b + of_nat k)) [0..<n]) \<longleftrightarrow> n \<le> 2 ^ 64"
proof
  assume "distinct (map (\<lambda>k. HandlerId (b + of_nat k)) [0..<n])"
  then have inj: "inj_on (\<lambda>k. HandlerId (b + of_nat k)) {0..<n}"
    by (simp add: distinct_map)
  show "n \<le> 2 ^ 64"
  proof (rule ccontr)
    assume "\<not> n \<le> 2 ^ 64"
    then have "0 \<in> {0..<n}" "2 ^ 64 \<in> {0..<n}" by auto
    moreover have "HandlerId (b + of_nat 0) = HandlerId (b + of_nat (2 ^ 64))" by simp
    ultimately have "(0::nat) = 2 ^ 64" using inj by (meson inj_onD)
    then show False by simp
  qed
next
  assume n: "n \<le> 2 ^ 64"
  have "inj_on (\<lambda>k. HandlerId (b + of_nat k)) {0..<n}"
  proof (rule inj_onI)
    fix x y assume xy: "x \<in> {0..<n}" "y \<in> {0..<n}"
      and "HandlerId (b + of_nat x) = HandlerId (b + of_nat y)"
    then have "unat (of_nat x :: u64) = unat (of_nat y :: u64)" by simp
    then show "x = y" using xy n by (simp add: unat_of_nat)
  qed
  then show "distinct (map (\<lambda>k. HandlerId (b + of_nat k)) [0..<n])"
    by (simp add: distinct_map)
qed

section \<open>Properties\<close>

text \<open>C26: The ids that one generator issues in any number of calls are pairwise distinct exactly
  when there are at most \<open>2 ^ 64\<close> of them. The counter wraps, so the next call repeats an id.\<close>

theorem issued_ids_distinct: "distinct (fst (issue n HandlerIdGenerator_new)) \<longleftrightarrow> n \<le> 2 ^ 64"
  by (simp add: issue_ids HandlerIdGenerator_new_def distinct_word_range)

text \<open>C33: The texts of an id determine it: reading back the decimal \<open>Display\<close> text gives the id, and two ids have the same
  \<open>Debug\<close> text only if they are the same.\<close>

theorem handler_id_text_round_trip:
  "from_raw (of_nat (undecimal (HandlerId_display hid))) = hid \<and> (HandlerId_debug hid = HandlerId_debug hid' \<longleftrightarrow> hid = hid')"
  by (cases hid; cases hid') (simp add: HandlerId_display_def HandlerId_debug_def undecimal_decimal decimal_inj from_raw_def word_unat_eq_iff)

end
