(* ===== verification/PanicInfo.thy ===== *)
theory PanicInfo
  imports HandlerId
begin

text \<open>
  Panic payloads, the \<open>PanicInfo\<close> a panic callback receives, and the callback holder
  (\<^verbatim>\<open>src/src/panic.rs\<close>). A payload is a \<open>Box<dyn Any + Send>\<close>: a string literal, an owned
  string, or a value of some other type. Dropping a boxed value of another type runs
  that type's destructor, which is user code and may itself panic; the destructor's
  outcome is part of the payload here, because the registries drop payloads outside
  every unwind boundary.
\<close>

section \<open>Payloads and outcomes\<close>

datatype payload =
    PStr string            \<comment> \<open>\<open>&'static str\<close>\<close>
  | PString string         \<comment> \<open>\<open>String\<close>\<close>
  | POther nat "payload option"
      \<comment> \<open>any other type: an opaque value, and the panic its destructor raises, if any\<close>

text \<open>
  How a piece of code leaves: it returns, it unwinds with a payload, or the process
  aborts (a destructor panics while another panic is already unwinding).
\<close>

datatype 'a outcome = Ret 'a | Unwind payload | Abort

fun drop_payload :: "payload \<Rightarrow> unit outcome" where
  "drop_payload (POther v (Some p)) = Unwind p"
| "drop_payload _ = Ret ()"

definition quiet :: "payload \<Rightarrow> bool" where
  "quiet p \<longleftrightarrow> drop_payload p = Ret ()"

section \<open>PanicInfo\<close>

record PanicInfo =
  pi_handler_id :: HandlerId
  pi_payload :: payload

definition PanicInfo_new :: "HandlerId \<Rightarrow> payload \<Rightarrow> PanicInfo" where
  "PanicInfo_new hid p = \<lparr>pi_handler_id = hid, pi_payload = p\<rparr>"

definition PanicInfo_handler_id :: "PanicInfo \<Rightarrow> HandlerId" where
  "PanicInfo_handler_id info = pi_handler_id info"

definition PanicInfo_payload :: "PanicInfo \<Rightarrow> payload" where
  "PanicInfo_payload info = pi_payload info"

text \<open>\<open>downcast_ref\<close> at the two types \<open>message\<close> asks for.\<close>

fun downcast_str :: "payload \<Rightarrow> string option" where
  "downcast_str (PStr s) = Some s"
| "downcast_str _ = None"

fun downcast_String :: "payload \<Rightarrow> string option" where
  "downcast_String (PString s) = Some s"
| "downcast_String _ = None"

definition PanicInfo_message :: "PanicInfo \<Rightarrow> string option" where
  "PanicInfo_message info =
     (case downcast_str (pi_payload info) of
        Some s \<Rightarrow> Some s
      | None \<Rightarrow> (case downcast_String (pi_payload info) of Some s \<Rightarrow> Some s | None \<Rightarrow> None))"

section \<open>The callback holder\<close>

text \<open>The callback is a closure; \<open>'cb\<close> is the type of its code.\<close>

record 'cb PanicCallbackHolder =
  holder_inner :: "PanicInfo \<Rightarrow> 'cb"

definition PanicCallbackHolder_new :: "(PanicInfo \<Rightarrow> 'cb) \<Rightarrow> 'cb PanicCallbackHolder" where
  "PanicCallbackHolder_new callback = \<lparr>holder_inner = callback\<rparr>"

definition PanicCallbackHolder_invoke :: "'cb PanicCallbackHolder \<Rightarrow> PanicInfo \<Rightarrow> 'cb" where
  "PanicCallbackHolder_invoke h info = holder_inner h info"

section \<open>Lemmas\<close>

lemma drop_payload_not_Abort [simp]: "drop_payload p \<noteq> Abort"
  by (cases p rule: drop_payload.cases) auto

lemma quiet_simps [simp]:
  "quiet (PStr s)" "quiet (PString s)" "quiet (POther v None)" "\<not> quiet (POther v (Some p))"
  by (simp_all add: quiet_def)

lemma PanicInfo_new_sel [simp]:
  "pi_handler_id (PanicInfo_new hid p) = hid" "pi_payload (PanicInfo_new hid p) = p"
  by (simp_all add: PanicInfo_new_def)

lemma invoke_new [simp]:
  "PanicCallbackHolder_invoke (PanicCallbackHolder_new cb) info = cb info"
  by (simp add: PanicCallbackHolder_invoke_def PanicCallbackHolder_new_def)

lemma message_cases:
  "PanicInfo_message (PanicInfo_new hid p) =
     (case p of PStr s \<Rightarrow> Some s | PString s \<Rightarrow> Some s | POther _ _ \<Rightarrow> None)"
  by (cases p) (simp_all add: PanicInfo_message_def)

end
