(* ===== verification/HandlerList.thy ===== *)
theory HandlerList
  imports PanicInfo
begin

text \<open>
  The handler list: the entries of \<^verbatim>\<open>src/src/sync/mod.rs\<close> and the three closures the
  registry hands to \<open>SnapCell::update\<close> (insert, remove by id, remove all). The stored
  closure type is the parameter \<open>'h\<close>, so the lemmas serve the synchronous and the
  asynchronous registry.

  The specification of the list is \<open>dispatch_order\<close>: the live entries in insertion order,
  stably sorted by descending priority. Each closure is shown to compute exactly
  that: inserting appends to the insertion order, removing filters it.
\<close>

section \<open>Entries and closures\<close>

record 'h HandlerEntry =
  entry_id :: HandlerId
  entry_priority :: i32
  entry_handler :: 'h

definition HandlerEntry_clone :: "'h HandlerEntry \<Rightarrow> 'h HandlerEntry" where
  "HandlerEntry_clone e =
     \<lparr>entry_id = entry_id e, entry_priority = entry_priority e, entry_handler = entry_handler e\<rparr>"

text \<open>\<open>Vec::extend_from_slice\<close> clones every element of the slice.\<close>

definition extend_from_slice :: "'h HandlerEntry list \<Rightarrow> 'h HandlerEntry list \<Rightarrow> 'h HandlerEntry list" where
  "extend_from_slice next xs = next @ map HandlerEntry_clone xs"

definition insert_closure ::
  "'h HandlerEntry \<Rightarrow> 'h HandlerEntry list \<Rightarrow> ('h HandlerEntry list \<times> unit) option" where
  "insert_closure entry current =
     (let pos = partition_point (\<lambda>e. sint (entry_priority entry) \<le> sint (entry_priority e)) current;
          next1 = extend_from_slice [] (take pos current);
          next2 = next1 @ [entry];
          next3 = extend_from_slice next2 (drop pos current)
      in Some (next3, ()))"

definition remove_id_closure ::
  "HandlerId \<Rightarrow> 'h HandlerEntry list \<Rightarrow> ('h HandlerEntry list \<times> unit) option" where
  "remove_id_closure hid current =
     (case position (\<lambda>e. entry_id e = hid) current of
        None \<Rightarrow> None
      | Some pos \<Rightarrow>
          let next1 = extend_from_slice [] (take pos current);
              next2 = extend_from_slice next1 (drop (pos + 1) current)
          in Some (next2, ()))"

definition remove_all_closure ::
  "'h HandlerEntry list \<Rightarrow> ('h HandlerEntry list \<times> unit) option" where
  "remove_all_closure current = (case current of [] \<Rightarrow> None | _ # _ \<Rightarrow> Some ([], ()))"

definition contains_closure :: "HandlerId \<Rightarrow> 'h HandlerEntry list \<Rightarrow> bool" where
  "contains_closure hid list = list_ex (\<lambda>e. entry_id e = hid) list"

section \<open>Specification\<close>

abbreviation prio_key :: "'h HandlerEntry \<Rightarrow> int" where
  "prio_key e \<equiv> - sint (entry_priority e)"

definition dispatch_order :: "'h HandlerEntry list \<Rightarrow> 'h HandlerEntry list" where
  "dispatch_order hist = sort_key prio_key hist"

definition ids :: "'h HandlerEntry list \<Rightarrow> HandlerId list" where
  "ids es = map entry_id es"

definition by_priority :: "'h HandlerEntry list \<Rightarrow> bool" where
  "by_priority es \<longleftrightarrow> sorted (map prio_key es)"

section \<open>Lemmas\<close>

lemma HandlerEntry_clone_id [simp]: "HandlerEntry_clone e = e"
  by (simp add: HandlerEntry_clone_def)

lemma extend_from_slice_append [simp]: "extend_from_slice next xs = next @ xs"
  by (simp add: extend_from_slice_def map_idI)

lemma by_priority_partitioned:
  "by_priority es \<Longrightarrow> partitioned (\<lambda>e. k \<le> sint (entry_priority e)) es"
  by (auto simp: by_priority_def partitioned_def sorted_map elim!: sorted_wrt_mono_rel [rotated])

lemma insert_closure_eq:
  assumes "by_priority es"
  shows "insert_closure e es =
    Some (takeWhile (\<lambda>x. prio_key x \<le> prio_key e) es @ e # dropWhile (\<lambda>x. prio_key x \<le> prio_key e) es, ())"
  using assms by (simp add: insert_closure_def Let_def by_priority_partitioned)

lemma sorted_dropWhile_above:
  fixes f :: "'a \<Rightarrow> int"
  assumes "sorted (map f xs)" "y \<in> set (dropWhile (\<lambda>x. f x \<le> k) xs)"
  shows "k < f y"
  using assms by (induction xs) (auto split: if_splits)

lemma filter_key_insert:
  fixes f :: "'a \<Rightarrow> int"
  assumes "sorted (map f xs)"
  shows "filter (\<lambda>x. f x = k) (takeWhile (\<lambda>x. f x \<le> f e) xs @ e # dropWhile (\<lambda>x. f x \<le> f e) xs) =
    filter (\<lambda>x. f x = k) (xs @ [e])"
proof (cases "f e = k")
  case True
  have "filter (\<lambda>x. f x = k) (dropWhile (\<lambda>x. f x \<le> f e) xs) = []"
    using sorted_dropWhile_above [OF assms] True by (fastforce simp: filter_empty_conv)
  moreover have "filter (\<lambda>x. f x = k) xs = filter (\<lambda>x. f x = k) (takeWhile (\<lambda>x. f x \<le> f e) xs)
      @ filter (\<lambda>x. f x = k) (dropWhile (\<lambda>x. f x \<le> f e) xs)"
    by (metis filter_append takeWhile_dropWhile_id)
  ultimately show ?thesis using True by simp
next
  case False
  have "filter (\<lambda>x. f x = k) xs = filter (\<lambda>x. f x = k) (takeWhile (\<lambda>x. f x \<le> f e) xs)
      @ filter (\<lambda>x. f x = k) (dropWhile (\<lambda>x. f x \<le> f e) xs)"
    by (metis filter_append takeWhile_dropWhile_id)
  then show ?thesis using False by simp
qed

lemma sorted_insert_after:
  fixes f :: "'a \<Rightarrow> int"
  assumes "sorted (map f xs)"
  shows "sorted (map f (takeWhile (\<lambda>x. f x \<le> f e) xs @ e # dropWhile (\<lambda>x. f x \<le> f e) xs))"
proof -
  let ?t = "takeWhile (\<lambda>x. f x \<le> f e) xs" and ?d = "dropWhile (\<lambda>x. f x \<le> f e) xs"
  have "sorted (map f (?t @ ?d))" using assms by simp
  then have parts: "sorted (map f ?t)" "sorted (map f ?d)"
    by (simp_all only: map_append sorted_append)
  have t: "\<forall>y\<in>set ?t. f y \<le> f e" by (auto dest: set_takeWhileD)
  have d: "\<forall>y\<in>set ?d. f e \<le> f y" using sorted_dropWhile_above [OF assms] by (auto intro: less_imp_le)
  show ?thesis using parts t d by (auto simp: sorted_append intro: order_trans)
qed

lemma by_priority_dispatch_order [simp]: "by_priority (dispatch_order hist)"
  by (simp add: by_priority_def dispatch_order_def)

lemma set_dispatch_order [simp]: "set (dispatch_order hist) = set hist"
  by (simp add: dispatch_order_def)

lemma length_dispatch_order [simp]: "length (dispatch_order hist) = length hist"
  by (simp add: dispatch_order_def)

lemma dispatch_order_Nil_iff [simp]: "dispatch_order hist = [] \<longleftrightarrow> hist = []"
  by (metis length_0_conv length_dispatch_order)

lemma mset_ids_dispatch_order: "mset (ids (dispatch_order hist)) = mset (ids hist)"
  by (simp add: ids_def dispatch_order_def)

lemma distinct_ids_dispatch_order [simp]:
  "distinct (ids (dispatch_order hist)) \<longleftrightarrow> distinct (ids hist)"
  using mset_ids_dispatch_order mset_eq_imp_distinct_iff by blast

text \<open>Insertion after every entry of equal or higher priority is stable insertion.\<close>

lemma insert_closure_dispatch_order:
  "insert_closure e (dispatch_order hist) = Some (dispatch_order (hist @ [e]), ())"
proof -
  let ?xs = "dispatch_order hist"
  let ?ys = "takeWhile (\<lambda>x. prio_key x \<le> prio_key e) ?xs @ e # dropWhile (\<lambda>x. prio_key x \<le> prio_key e) ?xs"
  have s: "sorted (map prio_key ?xs)" using by_priority_dispatch_order by (simp add: by_priority_def)
  have "mset ?ys = add_mset e (mset (takeWhile (\<lambda>x. prio_key x \<le> prio_key e) ?xs
      @ dropWhile (\<lambda>x. prio_key x \<le> prio_key e) ?xs))"
    by (simp del: takeWhile_dropWhile_id)
  then have m: "mset ?ys = mset (hist @ [e])" by (simp add: dispatch_order_def)
  have st: "filter (\<lambda>x. prio_key k = prio_key x) ?ys = filter (\<lambda>x. prio_key k = prio_key x) (hist @ [e])" for k
  proof -
    have "filter (\<lambda>x. prio_key x = prio_key k) ?ys = filter (\<lambda>x. prio_key x = prio_key k) (?xs @ [e])"
      by (rule filter_key_insert [OF s])
    moreover have "filter (\<lambda>x. prio_key x = prio_key k) ?xs = filter (\<lambda>x. prio_key x = prio_key k) hist"
      unfolding dispatch_order_def by (rule sort_key_stable)
    moreover have "filter (\<lambda>x. prio_key k = prio_key x) zs = filter (\<lambda>x. prio_key x = prio_key k) zs"
      for zs :: "'a HandlerEntry list" by (rule filter_cong) auto
    ultimately show ?thesis by (simp only: filter_append)
  qed
  have "sort_key prio_key (hist @ [e]) = ?ys"
    by (rule properties_for_sort_key [OF m st sorted_insert_after [OF s]])
  then have "dispatch_order (hist @ [e]) = ?ys" by (simp only: dispatch_order_def [of "hist @ [e]"])
  then show ?thesis by (simp only: insert_closure_eq [OF by_priority_dispatch_order])
qed

lemma remove_at_position:
  assumes "distinct (map f xs)" "position (\<lambda>x. f x = k) xs = Some i"
  shows "take i xs @ drop (Suc i) xs = filter (\<lambda>x. f x \<noteq> k) xs"
  using assms
proof (induction xs arbitrary: i)
  case Nil
  then show ?case by simp
next
  case (Cons x xs)
  show ?case
  proof (cases "f x = k")
    case True
    with Cons.prems have "\<forall>y\<in>set xs. f y \<noteq> k" by (fastforce simp: image_iff)
    with True Cons.prems show ?thesis by (simp add: filter_id_conv)
  next
    case False
    with Cons.prems obtain j where "i = Suc j" "position (\<lambda>x. f x = k) xs = Some j" by auto
    with False Cons show ?thesis by simp
  qed
qed

lemma remove_id_closure_eq:
  assumes "distinct (ids es)"
  shows "remove_id_closure hid es =
    (if hid \<in> set (ids es) then Some (filter (\<lambda>e. entry_id e \<noteq> hid) es, ()) else None)"
proof (cases "position (\<lambda>e. entry_id e = hid) es")
  case None
  then have "hid \<notin> set (ids es)" by (auto simp: position_None_iff ids_def)
  with None show ?thesis by (simp add: remove_id_closure_def)
next
  case (Some i)
  then have "hid \<in> set (ids es)"
    using position_None_iff [of "\<lambda>e. entry_id e = hid" es] by (auto simp: ids_def)
  with Some assms show ?thesis
    by (simp add: remove_id_closure_def Let_def ids_def remove_at_position)
qed

lemma remove_id_closure_dispatch_order:
  assumes "distinct (ids hist)"
  shows "remove_id_closure hid (dispatch_order hist) =
    (if hid \<in> set (ids hist)
     then Some (dispatch_order (filter (\<lambda>e. entry_id e \<noteq> hid) hist), ()) else None)"
proof -
  have "set (ids (dispatch_order hist)) = set (ids hist)" by (simp add: ids_def)
  moreover have "filter (\<lambda>e. entry_id e \<noteq> hid) (dispatch_order hist) =
      dispatch_order (filter (\<lambda>e. entry_id e \<noteq> hid) hist)"
    by (simp add: dispatch_order_def filter_sort)
  ultimately show ?thesis using assms by (simp add: remove_id_closure_eq)
qed

lemma remove_all_closure_dispatch_order:
  "remove_all_closure (dispatch_order hist) = (if hist = [] then None else Some (dispatch_order [], ()))"
proof (cases hist)
  case (Cons e es)
  then have "dispatch_order hist \<noteq> []" by (simp add: dispatch_order_def)
  then show ?thesis using Cons by (cases "dispatch_order hist") (simp_all add: remove_all_closure_def dispatch_order_def)
qed (simp add: remove_all_closure_def dispatch_order_def)

lemma contains_closure_iff: "contains_closure hid es \<longleftrightarrow> hid \<in> set (ids es)"
  by (auto simp: contains_closure_def ids_def list_ex_iff)

end
