(* ===== verification/Hazard.thy ===== *)
theory Hazard
  imports Prelude
begin

text \<open>
  The process-wide hazard-pointer domain (\<^verbatim>\<open>src/src/hazard.rs\<close>). Records are leaked
  boxes: a record pointer is a positive number, \<open>0\<close> is the null pointer, and the record
  at a pointer is never freed. \<open>HEAD\<close> and the \<open>next\<close> fields form the append-only list.
  Object addresses are numbers too, with \<open>0\<close> for null.

  The first group of definitions is the state and its atomic accesses, which the
  interleaving model of \<^verbatim>\<open>SnapMachine\<close> uses as well. The second group is the functions of
  the module as one thread runs them. \<open>for_each_record\<close> follows the \<open>next\<close> pointers; its fuel
  is the number of records, which \<open>for_each_record_fold\<close> shows to be enough.
\<close>

section \<open>State\<close>

type_synonym addr = nat
type_synonym rptr = nat
type_synonym slot_ref = "rptr \<times> nat"

abbreviation (input) null :: nat where "null \<equiv> 0"

definition SLOTS :: nat where
  "SLOTS = 8"

record Record =
  slots :: "nat \<Rightarrow> addr"
  in_use :: bool
  next_rec :: rptr

record hazard_domain =
  HEAD :: rptr
  record_at :: "rptr \<Rightarrow> Record"
  n_records :: nat

text \<open>The thread-local state: whether \<open>LOCAL\<close> is still accessible, and its record.\<close>

record Local =
  local_alive :: bool
  local_record :: rptr

definition empty_domain :: hazard_domain where
  "empty_domain = \<lparr>HEAD = null, record_at = (\<lambda>_. \<lparr>slots = (\<lambda>_. null), in_use = False, next_rec = null\<rparr>),
     n_records = 0\<rparr>"

definition new_local :: Local where
  "new_local = \<lparr>local_alive = True, local_record = null\<rparr>"

section \<open>Atomic accesses\<close>

definition load_slot :: "hazard_domain \<Rightarrow> slot_ref \<Rightarrow> addr" where
  "load_slot h = (\<lambda>(r, i). slots (record_at h r) i)"

definition store_slot :: "slot_ref \<Rightarrow> addr \<Rightarrow> hazard_domain \<Rightarrow> hazard_domain" where
  "store_slot = (\<lambda>(r, i) p h. h\<lparr>record_at := (record_at h)(r := (record_at h r)
     \<lparr>slots := (slots (record_at h r))(i := p)\<rparr>)\<rparr>)"

definition set_in_use :: "rptr \<Rightarrow> bool \<Rightarrow> hazard_domain \<Rightarrow> hazard_domain" where
  "set_in_use r b h = h\<lparr>record_at := (record_at h)(r := (record_at h r)\<lparr>in_use := b\<rparr>)\<rparr>"

definition set_next :: "rptr \<Rightarrow> rptr \<Rightarrow> hazard_domain \<Rightarrow> hazard_domain" where
  "set_next r q h = h\<lparr>record_at := (record_at h)(r := (record_at h r)\<lparr>next_rec := q\<rparr>)\<rparr>"

text \<open>\<open>Box::leak(Box::new(Record { .. }))\<close>: a fresh record, in use, all slots null.\<close>

definition leak_record :: "hazard_domain \<Rightarrow> rptr \<times> hazard_domain" where
  "leak_record h =
     (let r = Suc (n_records h)
      in (r, h\<lparr>record_at := (record_at h)(r := \<lparr>slots = (\<lambda>_. null), in_use = True, next_rec = null\<rparr>),
               n_records := r\<rparr>))"

definition clear_slots :: "rptr \<Rightarrow> hazard_domain \<Rightarrow> hazard_domain" where
  "clear_slots r h = fold (\<lambda>i. store_slot (r, i) null) [0..<SLOTS] h"

lemmas [hazard_defs] =
  load_slot_def store_slot_def set_in_use_def set_next_def leak_record_def

section \<open>The functions of the module\<close>

fun for_each_from ::
  "nat \<Rightarrow> (rptr \<Rightarrow> hazard_domain \<times> 'a \<Rightarrow> hazard_domain \<times> 'a) \<Rightarrow> rptr \<Rightarrow>
   hazard_domain \<times> 'a \<Rightarrow> hazard_domain \<times> 'a" where
  "for_each_from 0 f cursor s = s"
| "for_each_from (Suc n) f cursor s =
     (if cursor = null then s
      else let s' = f cursor s
           in for_each_from n f (next_rec (record_at (fst s') cursor)) s')"

definition for_each_record ::
  "(rptr \<Rightarrow> hazard_domain \<times> 'a \<Rightarrow> hazard_domain \<times> 'a) \<Rightarrow> hazard_domain \<Rightarrow> 'a \<Rightarrow> hazard_domain \<times> 'a" where
  "for_each_record f h a = for_each_from (n_records h) f (HEAD h) (h, a)"

text \<open>
  The reuse scan: the first record whose \<open>in_use\<close> the compare-exchange flips. Then the
  push of a fresh record: one thread running alone succeeds at the first
  compare-exchange on \<open>HEAD\<close>.
\<close>

definition try_reuse :: "rptr \<Rightarrow> hazard_domain \<times> rptr \<Rightarrow> hazard_domain \<times> rptr" where
  "try_reuse r = (\<lambda>(h, reused).
     if reused = null \<and> \<not> in_use (record_at h r) then (set_in_use r True h, r) else (h, reused))"

definition push_record :: "rptr \<Rightarrow> hazard_domain \<Rightarrow> hazard_domain" where
  "push_record raw h = (set_next raw (HEAD h) h)\<lparr>HEAD := raw\<rparr>"

definition acquire_record :: "hazard_domain \<Rightarrow> rptr \<times> hazard_domain" where
  "acquire_record h =
     (let (h1, reused) = for_each_record try_reuse h null
      in if reused \<noteq> null then (reused, h1)
         else let (raw, h2) = leak_record h1 in (raw, push_record raw h2))"

definition free_slot :: "rptr \<Rightarrow> hazard_domain \<Rightarrow> nat option" where
  "free_slot r h = find (\<lambda>i. load_slot h (r, i) = null) [0..<SLOTS]"

definition Pin_protect :: "slot_ref \<Rightarrow> addr \<Rightarrow> hazard_domain \<Rightarrow> hazard_domain" where
  "Pin_protect pin p h = store_slot pin p h"

definition Pin_drop :: "slot_ref \<Rightarrow> hazard_domain \<Rightarrow> hazard_domain" where
  "Pin_drop pin h = store_slot pin null h"

definition pin :: "addr \<Rightarrow> Local \<Rightarrow> hazard_domain \<Rightarrow> slot_ref option \<times> Local \<times> hazard_domain" where
  "pin p l h =
     (if \<not> local_alive l then (None, l, h)
      else
        let (r, l1, h1) =
              (if local_record l = null
               then let (r, h') = acquire_record h in (r, l\<lparr>local_record := r\<rparr>, h')
               else (local_record l, l, h))
        in case free_slot r h1 of
             None \<Rightarrow> (None, l1, h1)
           | Some i \<Rightarrow> (Some (r, i), l1, Pin_protect (r, i) p h1))"

definition Local_drop :: "Local \<Rightarrow> hazard_domain \<Rightarrow> Local \<times> hazard_domain" where
  "Local_drop l h =
     (l\<lparr>local_alive := False\<rparr>,
      if local_record l \<noteq> null
      then set_in_use (local_record l) False (clear_slots (local_record l) h) else h)"

definition record_announces :: "hazard_domain \<Rightarrow> addr \<Rightarrow> rptr \<Rightarrow> bool" where
  "record_announces h p r = list_ex (\<lambda>i. load_slot h (r, i) = p) [0..<SLOTS]"

definition this_thread_protects :: "addr \<Rightarrow> Local \<Rightarrow> hazard_domain \<Rightarrow> bool" where
  "this_thread_protects p l h =
     (if \<not> local_alive l then False
      else if local_record l = null then False
      else record_announces h p (local_record l))"

definition others_protect :: "addr \<Rightarrow> Local \<Rightarrow> hazard_domain \<Rightarrow> bool" where
  "others_protect p l h =
     (let own = (if local_alive l then local_record l else null)
      in snd (for_each_record (\<lambda>r (h, found).
           if r = own then (h, found)
           else if record_announces h p r then (h, True) else (h, found)) h False))"

definition announced :: "hazard_domain \<Rightarrow> addr list" where
  "announced h =
     snd (for_each_record (\<lambda>r (h, out).
       (h, out @ filter (\<lambda>p. p \<noteq> null) (map (\<lambda>i. load_slot h (r, i)) [0..<SLOTS]))) h [])"

section \<open>The record list\<close>

text \<open>\<open>path R p xs\<close>: following \<open>next\<close> from \<open>p\<close> visits exactly \<open>xs\<close> and ends at null.\<close>

fun path :: "(rptr \<Rightarrow> Record) \<Rightarrow> rptr \<Rightarrow> rptr list \<Rightarrow> bool" where
  "path R p [] \<longleftrightarrow> p = null"
| "path R p (x # xs) \<longleftrightarrow> p = x \<and> x \<noteq> null \<and> path R (next_rec (R x)) xs"

definition after :: "hazard_domain \<Rightarrow> rptr \<Rightarrow> rptr set" where
  "after h r = {x. \<exists>xs. path (record_at h) r xs \<and> x \<in> set xs}"

definition published :: "hazard_domain \<Rightarrow> rptr set" where
  "published h = after h (HEAD h)"

definition chain_ok :: "hazard_domain \<Rightarrow> bool" where
  "chain_ok h \<longleftrightarrow> (\<exists>xs. path (record_at h) (HEAD h) xs \<and> set xs \<subseteq> {1..n_records h})"

lemma path_unique: "path R p xs \<Longrightarrow> path R p ys \<Longrightarrow> xs = ys"
proof (induction xs arbitrary: p ys)
  case Nil
  then show ?case by (cases ys) auto
next
  case (Cons x xs)
  then show ?case by (cases ys) auto
qed

lemma path_suffix: "path R p (xs @ y # ys) \<Longrightarrow> path R y (y # ys)"
  by (induction xs arbitrary: p) auto

lemma path_distinct: "path R p xs \<Longrightarrow> distinct xs"
proof (induction xs arbitrary: p)
  case Nil
  then show ?case by simp
next
  case (Cons x xs)
  have "x \<notin> set xs"
  proof
    assume "x \<in> set xs"
    then obtain us vs where "xs = us @ x # vs" by (auto simp: in_set_conv_decomp)
    with Cons.prems have "path R x (x # us @ x # vs)" "path R x (x # vs)"
      using path_suffix [of R p "x # us" x vs] by auto
    from path_unique [OF this] show False by simp
  qed
  with Cons show ?case by auto
qed

lemma path_null_free: "path R p xs \<Longrightarrow> null \<notin> set xs"
  by (induction xs arbitrary: p) auto

lemma path_cong: "(\<And>x. x \<in> set xs \<Longrightarrow> next_rec (R' x) = next_rec (R x)) \<Longrightarrow> path R' p xs = path R p xs"
  by (induction xs arbitrary: p) auto

lemma path_mem:
  assumes "path R p xs" "x \<in> set xs"
  shows "\<exists>ys. path R x (x # ys) \<and> set (x # ys) \<subseteq> set xs"
proof -
  from assms(2) obtain us ys where xs: "xs = us @ x # ys" by (meson split_list)
  with assms(1) have "path R x (x # ys)" by (blast dest: path_suffix)
  with xs show ?thesis by auto
qed

lemma after_null [simp]: "after h null = {}"
proof -
  have "xs = []" if "path (record_at h) null xs" for xs using that by (cases xs) auto
  then show ?thesis unfolding after_def by fastforce
qed

lemma after_eq: "path (record_at h) r xs \<Longrightarrow> after h r = set xs"
  unfolding after_def using path_unique by blast

lemma chain_pathE:
  assumes "chain_ok h"
  obtains xs where "path (record_at h) (HEAD h) xs" "published h = set xs" "set xs \<subseteq> {1..n_records h}"
  using assms unfolding chain_ok_def published_def using after_eq by blast

lemma published_path:
  assumes "chain_ok h" "r \<in> insert null (published h)"
  obtains xs where "path (record_at h) r xs" "set xs \<subseteq> published h" "after h r = set xs"
proof (cases "r = null")
  case True
  then show ?thesis using that [of "[]"] by simp
next
  case False
  with assms obtain xs where "path (record_at h) (HEAD h) xs" "published h = set xs" "r \<in> set xs"
    by (auto elim: chain_pathE)
  then show ?thesis using path_mem that after_eq by metis
qed

lemma after_step:
  assumes "chain_ok h" "r \<in> published h"
  shows "after h r = insert r (after h (next_rec (record_at h r)))"
    and "next_rec (record_at h r) \<in> insert null (published h)"
    and "r \<noteq> null"
proof -
  from assms obtain xs where xs: "path (record_at h) r xs" "set xs \<subseteq> published h" "after h r = set xs"
    by (auto elim: published_path)
  show r: "r \<noteq> null"
    using assms by (auto elim!: chain_pathE dest: path_null_free)
  with xs(1) obtain ys where ys: "xs = r # ys" "path (record_at h) (next_rec (record_at h r)) ys"
    by (cases xs) auto
  from after_eq [OF ys(2)] xs(3) ys(1)
  show "after h r = insert r (after h (next_rec (record_at h r)))" by simp
  show "next_rec (record_at h r) \<in> insert null (published h)"
    using ys xs(2) by (cases ys) auto
qed

lemma published_bounds: "chain_ok h \<Longrightarrow> r \<in> published h \<Longrightarrow> 0 < r \<and> r \<le> n_records h"
  by (elim chain_pathE) auto

lemma HEAD_published: "chain_ok h \<Longrightarrow> HEAD h \<in> insert null (published h)"
proof (elim chain_pathE)
  fix xs assume "path (record_at h) (HEAD h) xs" "published h = set xs"
  then show ?thesis by (cases xs) auto
qed

text \<open>Writes that keep the \<open>next\<close> fields of the published records keep the list.\<close>

lemma chain_keep:
  assumes "chain_ok h" "HEAD h' = HEAD h" "n_records h \<le> n_records h'"
    and "\<And>x. x \<in> published h \<Longrightarrow> next_rec (record_at h' x) = next_rec (record_at h x)"
  shows "chain_ok h'" "published h' = published h"
    and "r \<in> insert null (published h) \<Longrightarrow> after h' r = after h r"
proof -
  from assms(1) obtain xs where xs: "path (record_at h) (HEAD h) xs" "published h = set xs"
    "set xs \<subseteq> {1..n_records h}" by (rule chain_pathE)
  have "path (record_at h') (HEAD h) xs = path (record_at h) (HEAD h) xs"
    by (rule path_cong) (use assms(4) xs(2) in blast)
  with xs(1) assms(2) have *: "path (record_at h') (HEAD h') xs" by simp
  moreover have "set xs \<subseteq> {1..n_records h'}" using xs(3) assms(3) by fastforce
  ultimately show "chain_ok h'" unfolding chain_ok_def by blast
  show "published h' = published h" using * xs(2) by (simp add: published_def after_eq)
  assume "r \<in> insert null (published h)"
  then obtain ys where ys: "path (record_at h) r ys" "set ys \<subseteq> published h" "after h r = set ys"
    using assms(1) by (auto elim: published_path)
  have "path (record_at h') r ys = path (record_at h) r ys"
    by (rule path_cong) (use assms(4) ys(2) in blast)
  with ys(1) have "path (record_at h') r ys" by simp
  then show "after h' r = after h r" using ys(3) by (simp add: after_eq)
qed

text \<open>Publishing a record at the head of the list.\<close>

lemma chain_push:
  assumes "chain_ok h" "raw \<notin> published h" "0 < raw" "raw \<le> n_records h"
    and h': "h' = (set_next raw (HEAD h) h)\<lparr>HEAD := raw\<rparr>"
  shows "chain_ok h'" "published h' = insert raw (published h)"
    and "r \<in> insert null (published h) \<Longrightarrow> after h' r = after h r"
proof -
  from assms(1) obtain xs where xs: "path (record_at h) (HEAD h) xs" "published h = set xs"
    "set xs \<subseteq> {1..n_records h}" by (rule chain_pathE)
  have keep: "next_rec (record_at h' x) = next_rec (record_at h x)" if "x \<in> published h" for x
    using that assms(2) by (auto simp: h' set_next_def)
  have "path (record_at h') (HEAD h) xs = path (record_at h) (HEAD h) xs"
    by (rule path_cong) (use keep xs(2) in blast)
  with xs(1) have *: "path (record_at h') (HEAD h') (raw # xs)"
    using assms(3) by (simp add: h' set_next_def)
  then show "chain_ok h'" using xs(3) assms(3,4) unfolding chain_ok_def
    by (intro exI [of _ "raw # xs"]) (simp add: h' set_next_def)
  show "published h' = insert raw (published h)"
    using after_eq [OF *] xs(2) by (simp add: published_def)
  assume "r \<in> insert null (published h)"
  then obtain ys where ys: "path (record_at h) r ys" "set ys \<subseteq> published h" "after h r = set ys"
    using assms(1) by (auto elim: published_path)
  have "path (record_at h') r ys = path (record_at h) r ys"
    by (rule path_cong) (use keep ys(2) in blast)
  with ys(1) have "path (record_at h') r ys" by simp
  then show "after h' r = after h r" using ys(3) by (simp add: after_eq)
qed

lemma slot_write_simps [simp]:
  "HEAD (store_slot pn p h) = HEAD h" "n_records (store_slot pn p h) = n_records h"
  "next_rec (record_at (store_slot pn p h) r) = next_rec (record_at h r)"
  "in_use (record_at (store_slot pn p h) r) = in_use (record_at h r)"
  "HEAD (set_in_use r' b h) = HEAD h" "n_records (set_in_use r' b h) = n_records h"
  "next_rec (record_at (set_in_use r' b h) r) = next_rec (record_at h r)"
  "slots (record_at (set_in_use r' b h) r) = slots (record_at h r)"
  "in_use (record_at (set_in_use r' b h) r) = (if r = r' then b else in_use (record_at h r))"
  by (auto simp: store_slot_def set_in_use_def split: prod.splits)

lemma set_next_simps [simp]:
  "HEAD (set_next r' q h) = HEAD h" "n_records (set_next r' q h) = n_records h"
  "slots (record_at (set_next r' q h) r) = slots (record_at h r)"
  "in_use (record_at (set_next r' q h) r) = in_use (record_at h r)"
  "next_rec (record_at (set_next r' q h) r) = (if r = r' then q else next_rec (record_at h r))"
  by (auto simp: set_next_def)

lemma slots_store_slot:
  "slots (record_at (store_slot (r', i) p h) r) j = (if r = r' \<and> j = i then p else slots (record_at h r) j)"
  by (simp add: store_slot_def)

lemma load_store_slot [simp]: "load_slot (store_slot pn p h) qn = (if qn = pn then p else load_slot h qn)"
  by (cases pn; cases qn) (auto simp: load_slot_def slots_store_slot)

lemma clear_slots_simps [simp]:
  "HEAD (clear_slots r h) = HEAD h" "n_records (clear_slots r h) = n_records h"
  "next_rec (record_at (clear_slots r h) x) = next_rec (record_at h x)"
  "in_use (record_at (clear_slots r h) x) = in_use (record_at h x)"
proof -
  have "HEAD (fold (\<lambda>i. store_slot (r, i) null) is h) = HEAD h \<and>
    n_records (fold (\<lambda>i. store_slot (r, i) null) is h) = n_records h \<and>
    next_rec (record_at (fold (\<lambda>i. store_slot (r, i) null) is h) x) = next_rec (record_at h x) \<and>
    in_use (record_at (fold (\<lambda>i. store_slot (r, i) null) is h) x) = in_use (record_at h x)" for "is"
    by (induction "is" arbitrary: h) auto
  then show "HEAD (clear_slots r h) = HEAD h" "n_records (clear_slots r h) = n_records h"
    "next_rec (record_at (clear_slots r h) x) = next_rec (record_at h x)"
    "in_use (record_at (clear_slots r h) x) = in_use (record_at h x)"
    by (simp_all add: clear_slots_def)
qed

lemma slots_clear_slots:
  "slots (record_at (clear_slots r h) x) j =
    (if x = r \<and> j < SLOTS then null else slots (record_at h x) j)"
proof -
  have "slots (record_at (fold (\<lambda>i. store_slot (r, i) null) is h) x) j =
      (if x = r \<and> j \<in> set is then null else slots (record_at h x) j)" for "is"
    by (induction "is" arbitrary: h) (auto simp: slots_store_slot)
  then show ?thesis by (simp add: clear_slots_def)
qed

lemma free_slot_Some: "free_slot r h = Some j \<Longrightarrow> j < SLOTS \<and> slots (record_at h r) j = null"
  by (auto simp: free_slot_def find_Some_iff load_slot_def)

lemma free_slot_None: "free_slot r h = None \<longleftrightarrow> (\<forall>j<SLOTS. slots (record_at h r) j \<noteq> null)"
  by (auto simp: free_slot_def find_None_iff load_slot_def)

section \<open>What the functions of the module compute\<close>

text \<open>
  The number of records is enough fuel: \<open>for_each_record\<close> visits every published record once, in
  list order, provided the visitor leaves the \<open>next\<close> fields alone.
\<close>

lemma for_each_from_fold:
  assumes "path (record_at (fst s)) p xs" "length xs \<le> n"
    and "\<And>r s x. next_rec (record_at (fst (f r s)) x) = next_rec (record_at (fst s) x)"
  shows "for_each_from n f p s = fold f xs s"
  using assms
proof (induction n f p s arbitrary: xs rule: for_each_from.induct)
  case (2 n f cursor s)
  show ?case
  proof (cases xs)
    case (Cons x ys)
    have "path (record_at (fst (f cursor s))) q ys = path (record_at (fst s)) q ys" for q
      by (rule path_cong) (rule "2.prems"(3))
    then have "path (record_at (fst (f cursor s))) (next_rec (record_at (fst s) cursor)) ys"
      using "2.prems"(1) Cons by simp
    then show ?thesis using 2 Cons by (simp add: Let_def)
  qed (use "2.prems" in simp)
qed simp

lemma chain_length:
  assumes "path (record_at h) (HEAD h) xs" "set xs \<subseteq> {1..n_records h}"
  shows "length xs \<le> n_records h"
  using card_mono [OF _ assms(2)] path_distinct [OF assms(1)] by (simp add: distinct_card)

lemma for_each_record_fold:
  assumes "path (record_at h) (HEAD h) xs" "set xs \<subseteq> {1..n_records h}"
    and "\<And>r s x. next_rec (record_at (fst (f r s)) x) = next_rec (record_at (fst s) x)"
  shows "for_each_record f h a = fold f xs (h, a)"
  unfolding for_each_record_def using for_each_from_fold [of "(h, a)" "HEAD h" xs "n_records h" f] assms chain_length [OF assms(1,2)]
  by simp

definition record_pins :: "hazard_domain \<Rightarrow> rptr \<Rightarrow> addr list" where
  "record_pins h r = filter (\<lambda>p. p \<noteq> null) (map (\<lambda>i. load_slot h (r, i)) [0..<SLOTS])"

lemma announced_eq:
  assumes "path (record_at h) (HEAD h) xs" "set xs \<subseteq> {1..n_records h}"
  shows "announced h = concat (map (record_pins h) xs)"
proof -
  have "fold (\<lambda>r (h, out). (h, out @ record_pins h r)) ys (h, acc) = (h, acc @ concat (map (record_pins h) ys))" for ys acc
    by (induction ys arbitrary: acc) auto
  then show ?thesis unfolding announced_def record_pins_def [symmetric]
    by (subst for_each_record_fold [OF assms]) (auto simp: split_beta)
qed

lemma others_protect_eq:
  assumes "path (record_at h) (HEAD h) xs" "set xs \<subseteq> {1..n_records h}"
  shows "others_protect p l h \<longleftrightarrow>
    (\<exists>r\<in>set xs. r \<noteq> (if local_alive l then local_record l else null) \<and> record_announces h p r)"
proof -
  let ?own = "if local_alive l then local_record l else null"
  let ?f = "\<lambda>r (h, found). if r = ?own then (h, found) else if record_announces h p r then (h, True) else (h, found)"
  have "fold ?f ys (h, b) = (h, b \<or> (\<exists>r\<in>set ys. r \<noteq> ?own \<and> record_announces h p r))" for ys b
    by (induction ys arbitrary: b) auto
  then show ?thesis unfolding others_protect_def Let_def
    by (subst for_each_record_fold [OF assms]) (auto simp: split_beta)
qed

lemma next_try_reuse: "next_rec (record_at (fst (try_reuse r s)) x) = next_rec (record_at (fst s) x)"
  by (simp add: try_reuse_def split_beta)

lemma try_reuse_fold:
  assumes "null \<notin> set xs"
  shows "fold try_reuse xs (h, null) = (case find (\<lambda>r. \<not> in_use (record_at h r)) xs of
    None \<Rightarrow> (h, null) | Some r \<Rightarrow> (set_in_use r True h, r))"
proof -
  have keep: "fold try_reuse ys (h', r) = (h', r)" if "r \<noteq> null" for ys h' r
    using that by (induction ys) (auto simp: try_reuse_def)
  show ?thesis using assms by (induction xs) (auto simp: try_reuse_def keep)
qed

lemma acquire_record_eq:
  assumes "path (record_at h) (HEAD h) xs" "set xs \<subseteq> {1..n_records h}"
  shows "acquire_record h = (case find (\<lambda>r. \<not> in_use (record_at h r)) xs of
    Some r \<Rightarrow> (r, set_in_use r True h)
  | None \<Rightarrow> (Suc (n_records h), push_record (Suc (n_records h)) (snd (leak_record h))))"
proof -
  have n: "null \<notin> set xs" using assms(2) by auto
  have r: "r \<noteq> null" if "find (\<lambda>r. \<not> in_use (record_at h r)) xs = Some r" for r
    using that n by (metis find_Some_iff nth_mem)
  show ?thesis unfolding acquire_record_def for_each_record_fold [OF assms next_try_reuse] try_reuse_fold [OF n]
    by (auto simp: leak_record_def Let_def split: option.splits dest: r)
qed

end
