(* ===== verification/SnapCell.thy ===== *)
theory SnapCell
  imports Hazard PanicInfo
begin

text \<open>
  The hazard-protected shared value \<open>SnapCell<T>\<close> (\<^verbatim>\<open>src/src/snapshot.rs\<close>). The memory is explicit:
  a heap of reference-counted allocations (\<open>Arc<T>\<close>), addressed by number and reused
  after they are freed, the hazard domain, and the cells. A mutex is the thread that
  holds it, if any, beside the data it guards.

  This theory holds the state, the operations on \<open>Arc\<close> and the functions of the module as
  one thread runs them. The state of the running thread extends the shared state, and
  a client (a registry) extends it again, so the closures passed to \<open>read\<close> may call back
  into the cell. \<open>None\<close> is "does not return": an access to freed memory, a lock that is
  already held, or a loop that never ends. \<^verbatim>\<open>SnapMachine\<close> interleaves the same atomic
  steps among many threads.
\<close>

section \<open>State\<close>

record 'v arc =
  strong :: nat
  arc_val :: 'v

record cell =
  current :: addr
  retired_len :: nat
  fallback_readers :: nat
  writer_lock :: "nat option"
  retired :: "addr list"

record 'v shared =
  haz :: hazard_domain
  heap :: "addr \<Rightarrow> 'v arc option"
  heap_brk :: addr
  cells :: "cell list"

record 'v sys = "'v shared" +
  me :: nat
  local_state :: Local
  fallback_depth :: usize

abbreviation the_cell :: "nat \<Rightarrow> ('v, 'm) shared_scheme \<Rightarrow> cell" where
  "the_cell c s \<equiv> cells s ! c"

abbreviation put_cell :: "nat \<Rightarrow> cell \<Rightarrow> ('v, 'm) shared_scheme \<Rightarrow> ('v, 'm) shared_scheme" where
  "put_cell c x s \<equiv> s\<lparr>cells := (cells s)[c := x]\<rparr>"

section \<open>Reference-counted allocations\<close>

text \<open>The allocator hands out the lowest free address, so freed addresses are reused.\<close>

definition alloc_addr :: "('v, 'm) shared_scheme \<Rightarrow> addr" where
  "alloc_addr s =
     (case filter (\<lambda>a. heap s a = None) [1..<heap_brk s] of
        [] \<Rightarrow> max 1 (heap_brk s) | a # _ \<Rightarrow> a)"

definition arc_new_at :: "addr \<Rightarrow> 'v \<Rightarrow> ('v, 'm) shared_scheme \<Rightarrow> ('v, 'm) shared_scheme" where
  "arc_new_at a v s = s\<lparr>heap := (heap s)(a \<mapsto> \<lparr>strong = 1, arc_val = v\<rparr>),
     heap_brk := max (heap_brk s) (Suc a)\<rparr>"

definition arc_new :: "'v \<Rightarrow> ('v, 'm) shared_scheme \<Rightarrow> addr \<times> ('v, 'm) shared_scheme" where
  "arc_new v s = (let a = alloc_addr s in (a, arc_new_at a v s))"

definition deref :: "addr \<Rightarrow> ('v, 'm) shared_scheme \<Rightarrow> 'v option" where
  "deref a s = map_option arc_val (heap s a)"

definition arc_clone :: "addr \<Rightarrow> ('v, 'm) shared_scheme \<Rightarrow> ('v, 'm) shared_scheme option" where
  "arc_clone a s =
     (case heap s a of
        None \<Rightarrow> None
      | Some x \<Rightarrow> Some (s\<lparr>heap := (heap s)(a \<mapsto> x\<lparr>strong := strong x + 1\<rparr>)\<rparr>))"

definition arc_drop :: "addr \<Rightarrow> ('v, 'm) shared_scheme \<Rightarrow> ('v, 'm) shared_scheme option" where
  "arc_drop a s =
     (case heap s a of
        None \<Rightarrow> None
      | Some x \<Rightarrow> Some (s\<lparr>heap := (heap s)(a := (if strong x \<le> 1 then None
                                              else Some (x\<lparr>strong := strong x - 1\<rparr>)))\<rparr>))"

fun arc_drop_all :: "addr list \<Rightarrow> ('v, 'm) shared_scheme \<Rightarrow> ('v, 'm) shared_scheme option" where
  "arc_drop_all [] s = Some s"
| "arc_drop_all (a # as) s = do { s' \<leftarrow> arc_drop a s; arc_drop_all as s' }"

section \<open>The cell\<close>

definition SnapCell_new :: "'v \<Rightarrow> ('v, 'm) shared_scheme \<Rightarrow> nat \<times> ('v, 'm) shared_scheme" where
  "SnapCell_new v s =
     (let (a, s1) = arc_new v s
      in (length (cells s1),
          s1\<lparr>cells := cells s1 @ [\<lparr>current = a, retired_len = 0, fallback_readers = 0,
                                 writer_lock = None, retired = []\<rparr>]\<rparr>))"

text \<open>The writer mutex: locking a mutex that is held blocks.\<close>

definition lock :: "nat \<Rightarrow> ('v, 'm) sys_scheme \<Rightarrow> ('v, 'm) sys_scheme option" where
  "lock c s =
     (case writer_lock (the_cell c s) of
        None \<Rightarrow> Some (put_cell c ((the_cell c s)\<lparr>writer_lock := Some (me s)\<rparr>) s)
      | Some _ \<Rightarrow> None)"

definition unlock :: "nat \<Rightarrow> ('v, 'm) sys_scheme \<Rightarrow> ('v, 'm) sys_scheme" where
  "unlock c s = put_cell c ((the_cell c s)\<lparr>writer_lock := None\<rparr>) s"

text \<open>
  The sweep of \<open>collect_unprotected\<close>: the \<open>while\<close> loop with \<open>swap_remove\<close>, on the list of
  retired pointers and the list of announced ones. It returns what stays and what is freed.
\<close>

function collect_loop ::
  "addr list \<Rightarrow> addr list \<Rightarrow> nat \<Rightarrow> addr list \<Rightarrow> addr list \<times> addr list" where
  "collect_loop ann ret i freed =
     (if i < length ret then
        if ret ! i \<in> set ann then collect_loop ann ret (i + 1) freed
        else collect_loop ann (snd (swap_remove ret i)) i (freed @ [fst (swap_remove ret i)])
      else (ret, freed))"
  by pat_completeness auto
termination
  by (relation "measure (\<lambda>(ann, ret, i, freed). length ret - i)") auto

declare collect_loop.simps [simp del]

definition collect_unprotected :: "addr list \<Rightarrow> ('v, 'm) shared_scheme \<Rightarrow> addr list \<times> addr list" where
  "collect_unprotected ret s =
     (if ret = [] then ([], []) else collect_loop (announced (haz s)) ret 0 [])"

text \<open>\<open>let freed = collect; retired_len.store(writer.len()); drop(writer); drop(freed)\<close>.\<close>

definition sweep :: "nat \<Rightarrow> ('v, 'm) sys_scheme \<Rightarrow> ('v, 'm) sys_scheme option" where
  "sweep c s =
     (let (kept, freed) = collect_unprotected (retired (the_cell c s)) s;
          s1 = put_cell c ((the_cell c s)\<lparr>retired := kept, retired_len := length kept\<rparr>) s;
          s2 = unlock c s1
      in arc_drop_all freed s2)"

definition try_reclaim :: "nat \<Rightarrow> ('v, 'm) sys_scheme \<Rightarrow> ('v, 'm) sys_scheme option" where
  "try_reclaim c s =
     (case writer_lock (the_cell c s) of
        Some _ \<Rightarrow> Some s
      | None \<Rightarrow> do { s1 \<leftarrow> lock c s; sweep c s1 })"

text \<open>The validation loop of \<open>protect\<close>.\<close>

partial_function (option) protect_loop ::
  "nat \<Rightarrow> slot_ref \<Rightarrow> addr \<Rightarrow> ('v, 'm) sys_scheme \<Rightarrow> (addr \<times> ('v, 'm) sys_scheme) option" where
  "protect_loop c pn p s =
     (let q = current (the_cell c s)
      in if q = p then Some (p, s)
         else protect_loop c pn q (s\<lparr>haz := Pin_protect pn q (haz s)\<rparr>))"

declare protect_loop.simps [code]

definition protect ::
  "nat \<Rightarrow> ('v, 'm) sys_scheme \<Rightarrow> ((slot_ref \<times> addr) option \<times> ('v, 'm) sys_scheme) option" where
  "protect c s =
     (let p = current (the_cell c s);
          (pn, l, h) = pin p (local_state s) (haz s);
          s1 = s\<lparr>local_state := l, haz := h\<rparr>
      in case pn of
           None \<Rightarrow> Some (None, s1)
         | Some pn \<Rightarrow> do { (p', s2) \<leftarrow> protect_loop c pn p s1; Some (Some (pn, p'), s2) })"

definition release :: "nat \<Rightarrow> slot_ref \<Rightarrow> ('v, 'm) sys_scheme \<Rightarrow> ('v, 'm) sys_scheme option" where
  "release c pn s =
     (let s1 = s\<lparr>haz := Pin_drop pn (haz s)\<rparr>
      in if retired_len (the_cell c s1) \<noteq> 0 then try_reclaim c s1 else Some s1)"

definition load_arc_locked :: "nat \<Rightarrow> ('v, 'm) sys_scheme \<Rightarrow> (addr \<times> ('v, 'm) sys_scheme) option" where
  "load_arc_locked c s = do {
     s1 \<leftarrow> lock c s;
     let raw = current (the_cell c s1);
     s2 \<leftarrow> arc_clone raw s1;
     Some (raw, unlock c s2) }"

definition load_arc_if ::
  "nat \<Rightarrow> ('v \<Rightarrow> bool) \<Rightarrow> ('v, 'm) sys_scheme \<Rightarrow> (addr option \<times> ('v, 'm) sys_scheme) option" where
  "load_arc_if c keep s = do {
     (pp, s1) \<leftarrow> protect c s;
     case pp of
       None \<Rightarrow> do {
         (a, s2) \<leftarrow> load_arc_locked c s1;
         v \<leftarrow> deref a s2;
         if keep v then Some (Some a, s2)
         else do { s3 \<leftarrow> arc_drop a s2; Some (None, s3) } }
     | Some (pn, p) \<Rightarrow> do {
         v \<leftarrow> deref p s1;
         if \<not> keep v then do { s2 \<leftarrow> release c pn s1; Some (None, s2) }
         else do {
           s2 \<leftarrow> arc_clone p s1;
           s3 \<leftarrow> release c pn s2;
           Some (Some p, s3) } } }"

text \<open>
  A closure passed to \<open>read\<close> is code of the client: it runs in the client's state and
  returns, unwinds or aborts.
\<close>

type_synonym ('s, 'a) prog = "'s \<Rightarrow> ('a outcome \<times> 's) option"

definition fallback_enter :: "nat \<Rightarrow> ('v, 'm) sys_scheme \<Rightarrow> ('v, 'm) sys_scheme" where
  "fallback_enter c s =
     (put_cell c ((the_cell c s)\<lparr>fallback_readers := fallback_readers (the_cell c s) + 1\<rparr>) s)
       \<lparr>fallback_depth := usize_saturating_add (fallback_depth s) 1\<rparr>"

definition Active_drop :: "nat \<Rightarrow> ('v, 'm) sys_scheme \<Rightarrow> ('v, 'm) sys_scheme" where
  "Active_drop c s =
     (put_cell c ((the_cell c s)\<lparr>fallback_readers := fallback_readers (the_cell c s) - 1\<rparr>) s)
       \<lparr>fallback_depth := usize_saturating_sub (fallback_depth s) 1\<rparr>"

definition read_fallback ::
  "nat \<Rightarrow> ('v \<Rightarrow> (('v, 'm) sys_scheme, 'a) prog) \<Rightarrow> (('v, 'm) sys_scheme, 'a) prog" where
  "read_fallback c f s = do {
     (a, s1) \<leftarrow> load_arc_locked c (fallback_enter c s);
     v \<leftarrow> deref a s1;
     (out, s2) \<leftarrow> f v s1;
     case out of
       Abort \<Rightarrow> Some (Abort, s2)
     | _ \<Rightarrow> do { s3 \<leftarrow> arc_drop a s2; Some (out, Active_drop c s3) } }"

definition read ::
  "nat \<Rightarrow> ('v \<Rightarrow> (('v, 'm) sys_scheme, 'a) prog) \<Rightarrow> (('v, 'm) sys_scheme, 'a) prog" where
  "read c f s = do {
     (pp, s1) \<leftarrow> protect c s;
     case pp of
       None \<Rightarrow> read_fallback c f s1
     | Some (pn, p) \<Rightarrow> do {
         v \<leftarrow> deref p s1;
         (out, s2) \<leftarrow> f v s1;
         case out of
           Ret x \<Rightarrow> do { s3 \<leftarrow> release c pn s2; Some (Ret x, s3) }
         | Unwind pl \<Rightarrow> Some (Unwind pl, s2\<lparr>haz := Pin_drop pn (haz s2)\<rparr>)
         | Abort \<Rightarrow> Some (Abort, s2) } }"

definition update ::
  "nat \<Rightarrow> ('v \<Rightarrow> ('v \<times> 'r) option) \<Rightarrow> ('v, 'm) sys_scheme \<Rightarrow> ('r option \<times> ('v, 'm) sys_scheme) option" where
  "update c f s = do {
     s1 \<leftarrow> lock c s;
     let raw = current (the_cell c s1);
     v \<leftarrow> deref raw s1;
     case f v of
       None \<Rightarrow> Some (None, unlock c s1)
     | Some (new, result) \<Rightarrow> do {
         let (a, s2) = arc_new new s1;
         let s3 = put_cell c ((the_cell c s2)\<lparr>current := a\<rparr>) s2;
         let s4 = put_cell c ((the_cell c s3)\<lparr>retired := retired (the_cell c s3) @ [raw]\<rparr>) s3;
         s5 \<leftarrow> sweep c s4;
         Some (Some result, s5) } }"

definition SnapCell_drop :: "nat \<Rightarrow> ('v, 'm) shared_scheme \<Rightarrow> ('v, 'm) shared_scheme option" where
  "SnapCell_drop c s = do {
     s1 \<leftarrow> arc_drop (current (the_cell c s)) s;
     arc_drop_all (retired (the_cell c s)) s1 }"

section \<open>Waiting\<close>

datatype pause = SpinLoop | YieldNow | SleepMicros nat

definition backoff :: "u32 \<Rightarrow> u32 \<times> pause" where
  "backoff round =
     (let r = (if round = 2 ^ 32 - 1 then round else round + 1)
      in (r, if r < 64 then SpinLoop else if r < 128 then YieldNow
             else SleepMicros (unat (min (r - 127) 1000))))"

definition retired_clear :: "nat \<Rightarrow> ('v, 'm) sys_scheme \<Rightarrow> bool option" where
  "retired_clear c s = do {
     s1 \<leftarrow> lock c s;
     let ps = retired (the_cell c s1);
     let s2 = unlock c s1;
     Some (list_all (\<lambda>p. \<not> others_protect p (local_state s2) (haz s2)) ps) }"

partial_function (option) wait_loop ::
  "nat \<Rightarrow> bool \<Rightarrow> u32 \<Rightarrow> ('v, 'm) sys_scheme \<Rightarrow> ('v, 'm) sys_scheme option" where
  "wait_loop c caller_on_fallback round s = do {
     let fallback_clear = (caller_on_fallback \<or> fallback_readers (the_cell c s) = 0);
     done \<leftarrow> (if fallback_clear then retired_clear c s else Some False);
     if done then Some s else wait_loop c caller_on_fallback (fst (backoff round)) s }"

declare wait_loop.simps [code]

definition wait_for_retired_readers :: "nat \<Rightarrow> ('v, 'm) sys_scheme \<Rightarrow> ('v, 'm) sys_scheme option" where
  "wait_for_retired_readers c s = wait_loop c (0 < fallback_depth s) 0 s"

section \<open>The sweep\<close>

text \<open>The sweep keeps the announced values and frees the others, each as often as it was retired.\<close>

lemma collect_loop_mset:
  assumes "\<forall>j<i. ret ! j \<in> set ann" "i \<le> length ret" "collect_loop ann ret i freed = (kept, out)"
  shows "mset kept = filter_mset (\<lambda>p. p \<in> set ann) (mset ret) \<and>
    mset out = mset freed + filter_mset (\<lambda>p. p \<notin> set ann) (mset ret)"
  using assms
proof (induction ann ret i freed rule: collect_loop.induct)
  case (1 ann ret i freed)
  show ?case
  proof (cases "i < length ret")
    case False
    then have "\<forall>p\<in>set ret. p \<in> set ann" using "1.prems" by (metis in_set_conv_nth le_neq_implies_less not_less)
    then have "filter_mset (\<lambda>p. p \<in> set ann) (mset ret) = mset ret" "filter_mset (\<lambda>p. p \<notin> set ann) (mset ret) = {#}"
      by (simp_all add: filter_mset_eq_conv)
    then show ?thesis using False "1.prems"(3) by (subst (asm) collect_loop.simps) auto
  next
    case i: True
    show ?thesis
    proof (cases "ret ! i \<in> set ann")
      case True
      then have "\<forall>j<i + 1. ret ! j \<in> set ann" using "1.prems"(1) less_Suc_eq by auto
      then show ?thesis using "1.IH"(1) [OF i True] "1.prems"(3) i True
        by (subst (asm) (2) collect_loop.simps) auto
    next
      case False
      define ret' where "ret' = snd (swap_remove ret i)"
      have f: "fst (swap_remove ret i) = ret ! i" by (simp add: swap_remove_def)
      have m: "mset ret = add_mset (ret ! i) (mset ret')" using mset_swap_remove [OF i] f by (simp add: ret'_def)
      have "\<forall>j<i. ret' ! j \<in> set ann" using "1.prems"(1) i by (simp add: ret'_def nth_swap_remove)
      moreover have "i \<le> length ret'" using i by (simp add: ret'_def)
      moreover have "collect_loop ann ret' i (freed @ [ret ! i]) = (kept, out)"
        using "1.prems"(3) i False f by (subst (asm) collect_loop.simps) (simp add: ret'_def)
      ultimately show ?thesis using "1.IH"(2) [OF i False] False m f by (simp add: ret'_def)
    qed
  qed
qed

lemma collect_loop_spec:
  assumes "collect_loop ann ret 0 [] = (kept, freed)"
  shows "mset kept = filter_mset (\<lambda>p. p \<in> set ann) (mset ret)" "mset freed = filter_mset (\<lambda>p. p \<notin> set ann) (mset ret)"
    and "mset ret = mset kept + mset freed"
  using collect_loop_mset [OF _ _ assms] by auto

lemma collect_loop_set:
  assumes "collect_loop ann ret 0 [] = (kept, freed)"
  shows "set kept = {p \<in> set ret. p \<in> set ann}"
  using arg_cong [OF collect_loop_spec(1) [OF assms], of set_mset] by auto

end
