(* ===== verification/Program.thy ===== *)
theory Program
  imports HandlerList SnapCell
begin

text \<open>
  The code that uses the library, and the world it runs in. Closures and futures are user code:
  the Rust compiler turns each into a struct of its captured values, and a value of type
  \<open>'n\<close> is such a struct. Its body is given by a \<open>code\<close>: what a handler does with an event,
  what a panic callback does, how an asynchronous handler builds its future, and what a future does
  when it is polled. A body is an \<open>act\<close>: it looks at or changes the state \<open>'u\<close> the
  closures share, calls the library, panics, or ends with a result. An \<open>act\<close> may be infinite.
\<close>

section \<open>Objects of the library that user code holds\<close>

record HandlerGuard =
  guard_id :: HandlerId
  guard_registry :: "nat option"  \<comment> \<open>\<open>Weak\<close>: the registry, or \<open>Weak::new()\<close>\<close>

text \<open>
  One handler's progress inside a concurrent dispatch, and the future of
  \<open>AsyncRegistry::notify\<close> and \<open>notify_sequential\<close> between two polls: not polled yet, waiting for
  the one handler of a list of one, joining several, at one handler of a sequential dispatch,
  or finished. A dispatch in progress owns an \<open>Arc\<close> on its list; the number in these futures is the place
  of that handle in the world's table of owned handles.
\<close>

datatype 'n Slot = Running 'n | SlotDone | Panicked payload

record 'n CatchUnwind =
  inner :: "'n option"

text \<open>
  A stored handler. The synchronous registry stores closures and the wrapper that
  \<open>register_once\<close> builds, the asynchronous one the wrapper that boxes the future. The entry types
  of the two registries are different in the source; here one heap holds both lists.
\<close>

datatype 'n stored =
    Plain 'n
  | OnceClosure nat nat HandlerId
      \<comment> \<open>the closure of \<open>register_once\<close>: its slot, its registry (weak), its id\<close>
  | AsyncClosure 'n

type_synonym 'n entry = "'n stored HandlerEntry"

datatype ('n, 'e) notify_future =
    NotifyStart nat 'e
  | NotifyOne nat nat "'n entry" "'n CatchUnwind"
  | NotifyJoin nat nat "'n entry list" "'n Slot list" nat
  | SequentialStart nat 'e
  | SequentialAt nat nat 'e "'n entry" "'n CatchUnwind" "'n entry list"
  | NotifyFinished

section \<open>Calls and answers\<close>

datatype ('n, 'e) op =
    SyncNew usize
  | Register nat i32 'n
  | RegisterOnce nat 'n
  | RegisterGuard nat i32 'n
  | GuardDrop HandlerGuard
  | GuardForget HandlerGuard
  | Unregister nat HandlerId
  | UnregisterAndWait nat HandlerId
  | Clear nat
  | ClearAndWait nat
  | Contains nat HandlerId
  | HandlerCount nat
  | IsEmpty nat
  | PanicCount nat
  | OnPanic nat 'n
  | ClearPanicCallback nat
  | Notify nat 'e
  | AsyncNew usize
  | AsyncRegister nat i32 'n
  | AsyncRegisterGuard nat i32 'n
  | AsyncGuardDrop HandlerGuard
  | AsyncUnregister nat HandlerId
  | AsyncClear nat
  | AsyncContains nat HandlerId
  | AsyncHandlerCount nat
  | AsyncIsEmpty nat
  | AsyncOnPanic nat 'n
  | AsyncClearPanicCallback nat
  | AsyncPoll "('n, 'e) notify_future"
  | AsyncCancel "('n, 'e) notify_future"

datatype ('n, 'e) answer =
    AUnit
  | ARegistry nat
  | AId HandlerId
  | AGuard HandlerGuard
  | ABool bool
  | ACount usize
  | APanics u64
  | APoll "('n, 'e) notify_future"

codatatype ('n, 'e, 'u, 'r) act =
    Done 'r
  | Panic payload
  | Ask "'u \<Rightarrow> ('n, 'e, 'u, 'r) act"
  | Change "'u \<Rightarrow> 'u" "('n, 'e, 'u, 'r) act"
  | Call "('n, 'e) op" "('n, 'e) answer \<Rightarrow> ('n, 'e, 'u, 'r) act"

text \<open>The result of polling a future: ready, or pending in a new state.\<close>

datatype 'f poll = Ready | Pending 'f

record ('n, 'e, 'u) code =
  handler_code :: "'n \<Rightarrow> 'e \<Rightarrow> ('n, 'e, 'u, unit) act"
  callback_code :: "'n \<Rightarrow> PanicInfo \<Rightarrow> ('n, 'e, 'u, unit) act"
  build_code :: "'n \<Rightarrow> 'e \<Rightarrow> ('n, 'e, 'u, 'n) act"
  poll_code :: "'n \<Rightarrow> ('n, 'e, 'u, 'n poll) act"

section \<open>The world\<close>

text \<open>
  The registries, the slots of \<open>register_once\<close> (\<open>Mutex<Option<F>>\<close>) and the state of the closures
  are the client state of the cells. A panic callback is a closure, applied to its \<open>PanicInfo\<close>.
\<close>

record 'n SyncRegistry =
  handlers :: nat
  id_generator :: HandlerIdGenerator
  panic_callback :: "('n \<times> PanicInfo) PanicCallbackHolder option"
  panics :: u64
  reg_alive :: bool  \<comment> \<open>whether an \<open>Arc\<close> on it is left, for \<open>Weak::upgrade\<close>\<close>

record 'n AsyncRegistry =
  a_handlers :: nat
  a_id_generator :: HandlerIdGenerator
  a_panic_callback :: "('n \<times> PanicInfo) PanicCallbackHolder option"
  a_reg_alive :: bool

record ('n, 'u) client =
  regs :: "'n SyncRegistry list"
  aregs :: "'n AsyncRegistry list"
  once_slots :: "'n option list"
  user_state :: 'u

record ('n, 'u) world = "'n entry list sys" +
  client_state :: "('n, 'u) client"
  arcs :: "addr option list"  \<comment> \<open>the handles on lists that dispatches own\<close>

abbreviation the_reg :: "nat \<Rightarrow> ('n, 'u) world \<Rightarrow> 'n SyncRegistry" where
  "the_reg rid w \<equiv> regs (client_state w) ! rid"

abbreviation the_areg :: "nat \<Rightarrow> ('n, 'u) world \<Rightarrow> 'n AsyncRegistry" where
  "the_areg rid w \<equiv> aregs (client_state w) ! rid"

definition with_client :: "(('n, 'u) client \<Rightarrow> ('n, 'u) client) \<Rightarrow> ('n, 'u) world \<Rightarrow> ('n, 'u) world" where
  "with_client f w = w\<lparr>client_state := f (client_state w)\<rparr>"

definition set_reg :: "nat \<Rightarrow> 'n SyncRegistry \<Rightarrow> ('n, 'u) client \<Rightarrow> ('n, 'u) client" where
  "set_reg rid x k = k\<lparr>regs := (regs k)[rid := x]\<rparr>"

definition set_areg :: "nat \<Rightarrow> 'n AsyncRegistry \<Rightarrow> ('n, 'u) client \<Rightarrow> ('n, 'u) client" where
  "set_areg rid x k = k\<lparr>aregs := (aregs k)[rid := x]\<rparr>"

type_synonym ('n, 'u, 'a) wprog = "('n, 'u) world \<Rightarrow> ('a outcome \<times> ('n, 'u) world) option"

text \<open>How user code runs in a world of type \<open>'w\<close>: the three kinds of bodies.\<close>

record ('n, 'e, 'u, 'w) runner =
  run_unit :: "('n, 'e, 'u, unit) act \<Rightarrow> ('w, unit) prog"
  run_build :: "('n, 'e, 'u, 'n) act \<Rightarrow> ('w, 'n) prog"
  run_poll :: "('n, 'e, 'u, 'n poll) act \<Rightarrow> ('w, 'n poll) prog"

text \<open>
  Running one thing after another: an unwind or an abort ends the sequence. \<open>calmly\<close> is code
  that cannot unwind; \<open>catch_unwind\<close> turns an unwind into a value.
\<close>

definition and_then :: "('a outcome \<times> 's) option \<Rightarrow> ('a \<Rightarrow> ('s, 'b) prog) \<Rightarrow> ('b outcome \<times> 's) option" where
  "and_then r f = (case r of
     None \<Rightarrow> None
   | Some (Ret x, s) \<Rightarrow> f x s
   | Some (Unwind p, s) \<Rightarrow> Some (Unwind p, s)
   | Some (Abort, s) \<Rightarrow> Some (Abort, s))"

definition calmly :: "'s option \<Rightarrow> (unit outcome \<times> 's) option" where
  "calmly r = map_option (\<lambda>s. (Ret (), s)) r"

definition returning :: "('a \<times> 's) option \<Rightarrow> ('a outcome \<times> 's) option" where
  "returning r = map_option (\<lambda>(x, s). (Ret x, s)) r"

definition catch_unwind :: "('a outcome \<times> 's) option \<Rightarrow> ((payload + 'a) outcome \<times> 's) option" where
  "catch_unwind r = (case r of
     None \<Rightarrow> None
   | Some (Ret x, s) \<Rightarrow> Some (Ret (Inr x), s)
   | Some (Unwind p, s) \<Rightarrow> Some (Ret (Inl p), s)
   | Some (Abort, s) \<Rightarrow> Some (Abort, s))"

text \<open>
  \<open>then_drop r f\<close>: leaving a scope runs the destructor \<open>f\<close>, on return and while unwinding. A
  destructor that unwinds while another panic is unwinding aborts the process.
\<close>

definition then_drop :: "('a outcome \<times> 's) option \<Rightarrow> ('s, unit) prog \<Rightarrow> ('a outcome \<times> 's) option" where
  "then_drop r f = (case r of
     None \<Rightarrow> None
   | Some (Ret x, s) \<Rightarrow> and_then (f s) (\<lambda>_ s'. Some (Ret x, s'))
   | Some (Unwind p, s) \<Rightarrow>
       (case f s of
          None \<Rightarrow> None
        | Some (Ret _, s') \<Rightarrow> Some (Unwind p, s')
        | Some (_, s') \<Rightarrow> Some (Abort, s'))
   | Some (Abort, s) \<Rightarrow> Some (Abort, s))"

section \<open>Handlers and callbacks\<close>

text \<open>
  The parts of the two dispatch loops that touch only user code, in a world of any type: the invocation of a panic
  callback, and what \<open>handle_panic\<close> does once it has the callback. \<open>drop(catch_unwind(..))\<close> catches the
  callback's own panic and drops its payload right there, outside the boundary. The payload of
  the handler's panic is owned by the function, so it is dropped at the end, or while a panic of
  that first drop unwinds.
\<close>

definition invoke_callback ::
  "('n, 'e, 'u) code \<Rightarrow> ('n, 'e, 'u, 'w) runner \<Rightarrow> ('n \<times> PanicInfo) PanicCallbackHolder \<Rightarrow> PanicInfo \<Rightarrow> ('w, unit) prog" where
  "invoke_callback code R holder info w =
     (case PanicCallbackHolder_invoke holder info of (n, i) \<Rightarrow> run_unit R (callback_code code n i) w)"

definition drop_caught :: "payload + unit \<Rightarrow> ('s, unit) prog" where
  "drop_caught r s = (case r of Inr _ \<Rightarrow> Some (Ret (), s) | Inl p \<Rightarrow> Some (drop_payload p, s))"

definition report_panic ::
  "('n, 'e, 'u) code \<Rightarrow> ('n, 'e, 'u, 'w) runner \<Rightarrow> ('n \<times> PanicInfo) PanicCallbackHolder option \<Rightarrow>
   HandlerId \<Rightarrow> payload \<Rightarrow> ('w, unit) prog" where
  "report_panic code R holder handler_id payload w =
     then_drop
       (case holder of
          None \<Rightarrow> Some (Ret (), w)
        | Some holder \<Rightarrow>
            and_then (catch_unwind (invoke_callback code R holder (PanicInfo_new handler_id payload) w)) drop_caught)
       (\<lambda>w'. Some (drop_payload payload, w'))"

text \<open>
  The loop of \<open>SyncRegistry::notify\<close>: one unwind boundary per handler. \<open>call\<close> runs a stored handler on the
  event, \<open>handle_panic\<close> is the registry's.
\<close>

fun dispatch ::
  "('n stored \<Rightarrow> ('w, unit) prog) \<Rightarrow> (HandlerId \<Rightarrow> payload \<Rightarrow> ('w, unit) prog) \<Rightarrow> 'n entry list \<Rightarrow> ('w, unit) prog" where
  "dispatch call handle_panic [] w = Some (Ret (), w)"
| "dispatch call handle_panic (entry # rest) w =
     and_then
       (and_then (catch_unwind (call (entry_handler entry) w))
          (\<lambda>r w1. case r of
              Inr _ \<Rightarrow> Some (Ret (), w1)
            | Inl payload \<Rightarrow> handle_panic (entry_id entry) payload w1))
       (\<lambda>_. dispatch call handle_panic rest)"

end
