(* ===== verification/SyncRegistry.thy ===== *)
theory SyncRegistry
  imports Program
begin

text \<open>
  The synchronous registry and its guard (\<^verbatim>\<open>src/src/sync/mod.rs\<close>, \<^verbatim>\<open>src/src/sync/guard.rs\<close>), one
  definition per method, on the cells of \<^verbatim>\<open>SnapCell\<close>. Methods that run user code take the
  \<open>runner\<close> that runs it, so a handler may call back into any registry.
\<close>

section \<open>Construction\<close>

definition SyncRegistry_with_capacity :: "usize \<Rightarrow> ('n, 'u) world \<Rightarrow> nat \<times> ('n, 'u) world" where
  "SyncRegistry_with_capacity capacity w =
     (let (c, w1) = SnapCell_new [] w;
          reg = \<lparr>handlers = c, id_generator = HandlerIdGenerator_new, panic_callback = None, panics = 0,
                 reg_alive = True\<rparr>
      in (length (regs (client_state w1)), with_client (\<lambda>k. k\<lparr>regs := regs k @ [reg]\<rparr>) w1))"

definition SyncRegistry_new :: "('n, 'u) world \<Rightarrow> nat \<times> ('n, 'u) world" where
  "SyncRegistry_new w = SyncRegistry_with_capacity 0 w"

definition SyncRegistry_default :: "('n, 'u) world \<Rightarrow> nat \<times> ('n, 'u) world" where
  "SyncRegistry_default w = SyncRegistry_new w"

section \<open>Registration\<close>

definition SyncRegistry_insert :: "nat \<Rightarrow> 'n entry \<Rightarrow> ('n, 'u) world \<Rightarrow> ('n, 'u) world option" where
  "SyncRegistry_insert rid entry w = do {
     (_, w') \<leftarrow> update (handlers (the_reg rid w)) (insert_closure entry) w;
     Some w' }"

definition next_id :: "nat \<Rightarrow> ('n, 'u) world \<Rightarrow> HandlerId \<times> ('n, 'u) world" where
  "next_id rid w =
     (let (hid, g) = HandlerIdGenerator_next (id_generator (the_reg rid w))
      in (hid, with_client (set_reg rid ((the_reg rid w)\<lparr>id_generator := g\<rparr>)) w))"

definition SyncRegistry_register_with_priority ::
  "nat \<Rightarrow> i32 \<Rightarrow> 'n \<Rightarrow> ('n, 'u) world \<Rightarrow> (HandlerId \<times> ('n, 'u) world) option" where
  "SyncRegistry_register_with_priority rid priority handler w = do {
     let (hid, w1) = next_id rid w;
     w2 \<leftarrow> SyncRegistry_insert rid
       \<lparr>entry_id = hid, entry_priority = priority, entry_handler = Plain handler\<rparr> w1;
     Some (hid, w2) }"

definition SyncRegistry_register :: "nat \<Rightarrow> 'n \<Rightarrow> ('n, 'u) world \<Rightarrow> (HandlerId \<times> ('n, 'u) world) option" where
  "SyncRegistry_register rid handler w = SyncRegistry_register_with_priority rid 0 handler w"

definition SyncRegistry_register_once ::
  "nat \<Rightarrow> 'n \<Rightarrow> ('n, 'u) world \<Rightarrow> (HandlerId \<times> ('n, 'u) world) option" where
  "SyncRegistry_register_once rid handler w = do {
     let (hid, w1) = next_id rid w;
     let slot = length (once_slots (client_state w1));
     let w2 = with_client (\<lambda>k. k\<lparr>once_slots := once_slots k @ [Some handler]\<rparr>) w1;
     w3 \<leftarrow> SyncRegistry_insert rid
       \<lparr>entry_id = hid, entry_priority = 0, entry_handler = OnceClosure slot rid hid\<rparr> w2;
     Some (hid, w3) }"

section \<open>Removal\<close>

definition SyncRegistry_remove_id :: "nat \<Rightarrow> HandlerId \<Rightarrow> ('n, 'u) world \<Rightarrow> (bool \<times> ('n, 'u) world) option" where
  "SyncRegistry_remove_id rid hid w = do {
     (r, w') \<leftarrow> update (handlers (the_reg rid w)) (remove_id_closure hid) w;
     Some (r \<noteq> None, w') }"

definition SyncRegistry_remove_all :: "nat \<Rightarrow> ('n, 'u) world \<Rightarrow> (bool \<times> ('n, 'u) world) option" where
  "SyncRegistry_remove_all rid w = do {
     (r, w') \<leftarrow> update (handlers (the_reg rid w)) remove_all_closure w;
     Some (r \<noteq> None, w') }"

definition SyncRegistry_unregister :: "nat \<Rightarrow> HandlerId \<Rightarrow> ('n, 'u) world \<Rightarrow> (bool \<times> ('n, 'u) world) option" where
  "SyncRegistry_unregister rid hid w = SyncRegistry_remove_id rid hid w"

definition SyncRegistry_unregister_and_wait ::
  "nat \<Rightarrow> HandlerId \<Rightarrow> ('n, 'u) world \<Rightarrow> (bool \<times> ('n, 'u) world) option" where
  "SyncRegistry_unregister_and_wait rid hid w = do {
     (removed, w1) \<leftarrow> SyncRegistry_remove_id rid hid w;
     w2 \<leftarrow> (if removed then wait_for_retired_readers (handlers (the_reg rid w1)) w1 else Some w1);
     Some (removed, w2) }"

definition SyncRegistry_clear :: "nat \<Rightarrow> ('n, 'u) world \<Rightarrow> ('n, 'u) world option" where
  "SyncRegistry_clear rid w = do { (_, w') \<leftarrow> SyncRegistry_remove_all rid w; Some w' }"

definition SyncRegistry_clear_and_wait :: "nat \<Rightarrow> ('n, 'u) world \<Rightarrow> ('n, 'u) world option" where
  "SyncRegistry_clear_and_wait rid w = do {
     (removed, w1) \<leftarrow> SyncRegistry_remove_all rid w;
     if removed then wait_for_retired_readers (handlers (the_reg rid w1)) w1 else Some w1 }"

section \<open>Queries\<close>

text \<open>A closure that only looks at the list.\<close>

definition look :: "('v \<Rightarrow> 'a) \<Rightarrow> 'v \<Rightarrow> ('s, 'a) prog" where
  "look f v s = Some (Ret (f v), s)"

definition SyncRegistry_panic_count :: "nat \<Rightarrow> ('n, 'u) world \<Rightarrow> u64" where
  "SyncRegistry_panic_count rid w = panics (the_reg rid w)"

definition SyncRegistry_handler_count :: "nat \<Rightarrow> ('n, 'u, usize) wprog" where
  "SyncRegistry_handler_count rid w = read (handlers (the_reg rid w)) (look (\<lambda>list. of_nat (length list))) w"

definition SyncRegistry_is_empty :: "nat \<Rightarrow> ('n, 'u, bool) wprog" where
  "SyncRegistry_is_empty rid w = read (handlers (the_reg rid w)) (look (\<lambda>list. case list of [] \<Rightarrow> True | _ # _ \<Rightarrow> False)) w"

definition SyncRegistry_contains :: "nat \<Rightarrow> HandlerId \<Rightarrow> ('n, 'u, bool) wprog" where
  "SyncRegistry_contains rid hid w = read (handlers (the_reg rid w)) (look (contains_closure hid)) w"

section \<open>The panic callback\<close>

definition SyncRegistry_on_panic :: "nat \<Rightarrow> 'n \<Rightarrow> ('n, 'u) world \<Rightarrow> ('n, 'u) world" where
  "SyncRegistry_on_panic rid callback w =
     (let holder = PanicCallbackHolder_new (\<lambda>info. (callback, info))
      in with_client (set_reg rid ((the_reg rid w)\<lparr>panic_callback := Some holder\<rparr>)) w)"

definition SyncRegistry_clear_panic_callback :: "nat \<Rightarrow> ('n, 'u) world \<Rightarrow> ('n, 'u) world" where
  "SyncRegistry_clear_panic_callback rid w =
     with_client (set_reg rid ((the_reg rid w)\<lparr>panic_callback := None\<rparr>)) w"

section \<open>Dispatch\<close>

text \<open>\<open>Weak::upgrade\<close>, and the destructors that unregister.\<close>

definition upgrade :: "nat option \<Rightarrow> ('n, 'u) world \<Rightarrow> nat option" where
  "upgrade r w = (case r of None \<Rightarrow> None | Some rid \<Rightarrow> 
     if rid < length (regs (client_state w)) \<and> reg_alive (the_reg rid w) then Some rid else None)"

definition RemoveOnDrop_drop :: "nat \<Rightarrow> HandlerId \<Rightarrow> ('n, 'u, unit) wprog" where
  "RemoveOnDrop_drop rid hid w =
     (case upgrade (Some rid) w of
        None \<Rightarrow> Some (Ret (), w)
      | Some r \<Rightarrow> do { (_, w') \<leftarrow> SyncRegistry_unregister r hid w; Some (Ret (), w') })"

text \<open>The closure of \<open>register_once\<close>: take the handler under the lock, call it outside.\<close>

definition once_call ::
  "('n, 'e, 'u) code \<Rightarrow> ('n, 'e, 'u, ('n, 'u) world) runner \<Rightarrow> nat \<Rightarrow> nat \<Rightarrow> HandlerId \<Rightarrow> 'e \<Rightarrow> ('n, 'u, unit) wprog" where
  "once_call code R slot rid hid event w =
     (let taken = once_slots (client_state w) ! slot;
          w1 = with_client (\<lambda>k. k\<lparr>once_slots := (once_slots k)[slot := None]\<rparr>) w
      in case taken of
           None \<Rightarrow> Some (Ret (), w1)
         | Some handler \<Rightarrow> then_drop (run_unit R (handler_code code handler event) w1) (RemoveOnDrop_drop rid hid))"

definition call_stored ::
  "('n, 'e, 'u) code \<Rightarrow> ('n, 'e, 'u, ('n, 'u) world) runner \<Rightarrow> 'n stored \<Rightarrow> 'e \<Rightarrow> ('n, 'u, unit) wprog" where
  "call_stored code R h event w =
     (case h of
        Plain n \<Rightarrow> run_unit R (handler_code code n event) w
      | OnceClosure slot rid hid \<Rightarrow> once_call code R slot rid hid event w
      | AsyncClosure n \<Rightarrow> None)"

definition SyncRegistry_handle_panic ::
  "('n, 'e, 'u) code \<Rightarrow> ('n, 'e, 'u, ('n, 'u) world) runner \<Rightarrow> nat \<Rightarrow> HandlerId \<Rightarrow> payload \<Rightarrow> ('n, 'u, unit) wprog" where
  "SyncRegistry_handle_panic code R rid handler_id payload w =
     (let w1 = with_client (set_reg rid ((the_reg rid w)\<lparr>panics := panics (the_reg rid w) + 1\<rparr>)) w;
          holder = panic_callback (the_reg rid w1)
      in report_panic code R holder handler_id payload w1)"

definition SyncRegistry_notify ::
  "('n, 'e, 'u) code \<Rightarrow> ('n, 'e, 'u, ('n, 'u) world) runner \<Rightarrow> nat \<Rightarrow> 'e \<Rightarrow> ('n, 'u, unit) wprog" where
  "SyncRegistry_notify code R rid event w = read (handlers (the_reg rid w)) 
       (dispatch (\<lambda>h. call_stored code R h event) (SyncRegistry_handle_panic code R rid)) w"

section \<open>The guard\<close>

definition HandlerGuard_new :: "HandlerId \<Rightarrow> nat option \<Rightarrow> HandlerGuard" where
  "HandlerGuard_new hid registry = \<lparr>guard_id = hid, guard_registry = registry\<rparr>"

definition HandlerGuard_id :: "HandlerGuard \<Rightarrow> HandlerId" where
  "HandlerGuard_id g = guard_id g"

text \<open>\<open>ManuallyDrop\<close>: the guard is not dropped; its weak reference is replaced as well.\<close>

definition HandlerGuard_forget :: "HandlerGuard \<Rightarrow> HandlerGuard" where
  "HandlerGuard_forget g = g\<lparr>guard_registry := None\<rparr>"

definition HandlerGuard_drop :: "HandlerGuard \<Rightarrow> ('n, 'u) world \<Rightarrow> ('n, 'u) world option" where
  "HandlerGuard_drop g w =
     (case upgrade (guard_registry g) w of
        None \<Rightarrow> Some w
      | Some rid \<Rightarrow> do { (_, w') \<leftarrow> SyncRegistry_unregister rid (guard_id g) w; Some w' })"

definition SyncRegistry_register_guard_with_priority ::
  "nat \<Rightarrow> i32 \<Rightarrow> 'n \<Rightarrow> ('n, 'u) world \<Rightarrow> (HandlerGuard \<times> ('n, 'u) world) option" where
  "SyncRegistry_register_guard_with_priority rid priority handler w = do {
     (hid, w1) \<leftarrow> SyncRegistry_register_with_priority rid priority handler w;
     Some (HandlerGuard_new hid (Some rid), w1) }"

definition SyncRegistry_register_guard ::
  "nat \<Rightarrow> 'n \<Rightarrow> ('n, 'u) world \<Rightarrow> (HandlerGuard \<times> ('n, 'u) world) option" where
  "SyncRegistry_register_guard rid handler w = do {
     (hid, w1) \<leftarrow> SyncRegistry_register rid handler w;
     Some (HandlerGuard_new hid (Some rid), w1) }"

text \<open>Dropping the last \<open>Arc\<close> of a registry drops its cell; weak references no longer upgrade.\<close>

definition SyncRegistry_drop :: "nat \<Rightarrow> ('n, 'u) world \<Rightarrow> ('n, 'u) world option" where
  "SyncRegistry_drop rid w = do {
     let w1 = with_client (set_reg rid ((the_reg rid w)\<lparr>reg_alive := False\<rparr>)) w;
     SnapCell_drop (handlers (the_reg rid w1)) w1 }"

section \<open>Debug output\<close>

definition debug_bool :: "bool \<Rightarrow> string" where
  "debug_bool b = (if b then ''true'' else ''false'')"

definition debug_i32 :: "i32 \<Rightarrow> string" where
  "debug_i32 p = (if sint p < 0 then ''-'' @ decimal (nat (- sint p)) else decimal (nat (sint p)))"

definition HandlerEntry_debug :: "'h HandlerEntry \<Rightarrow> string" where
  "HandlerEntry_debug e =
     ''HandlerEntry { id: '' @ HandlerId_debug (entry_id e) @ '', priority: '' @ debug_i32 (entry_priority e) @ '', .. }''"

definition HandlerGuard_debug :: "HandlerGuard \<Rightarrow> ('n, 'u) world \<Rightarrow> string" where
  "HandlerGuard_debug g w =
     ''HandlerGuard { id: '' @ HandlerId_debug (guard_id g) @
     '', registry_alive: '' @ debug_bool (upgrade (guard_registry g) w \<noteq> None) @ '' }''"

definition SyncRegistry_debug :: "nat \<Rightarrow> ('n, 'u, string) wprog" where
  "SyncRegistry_debug rid w =
     and_then (SyncRegistry_handler_count rid w) (\<lambda>n w1. Some (Ret (
       ''SyncRegistry { handler_count: '' @ decimal (unat n) @
       '', has_panic_callback: '' @ debug_bool (\<not> Option.is_none (panic_callback (the_reg rid w1))) @ '', .. }''), w1))"

end
