(* ===== verification/FutureExt.thy ===== *)
theory FutureExt
  imports Program
begin

text \<open>
  The panic-isolating helpers (\<^verbatim>\<open>src/src/future_ext.rs\<close>) and the loops of the two asynchronous dispatches
  (\<open>notify\<close> and \<open>notify_sequential\<close> of \<^verbatim>\<open>src/src/async_registry/mod.rs\<close>) over the list they loaded. A future
  is polled by whoever owns it, whenever they like; polling it mutates it in place, so the model's
  poll functions return its new state, and between two polls any other code may run. These functions
  touch only user code, so they are written for a world of any type; \<open>handle_panic\<close> is the registry's.
\<close>

section \<open>Panic-isolating helpers\<close>

datatype 'f caught = CaughtReady "payload + unit" | CaughtPending 'f

definition start_future :: "('n, 'e, 'u, 'w) runner \<Rightarrow> ('n, 'e, 'u, 'n) act \<Rightarrow> ('w, payload + 'n) prog" where
  "start_future R mk w = catch_unwind (run_build R mk w)"

definition poll_caught :: "('n, 'e, 'u) code \<Rightarrow> ('n, 'e, 'u, 'w) runner \<Rightarrow> 'n \<Rightarrow> ('w, 'n caught) prog" where
  "poll_caught code R fut w =
     and_then (catch_unwind (run_poll R (poll_code code fut) w))
       (\<lambda>r w1. Some (Ret (case r of
            Inr Ready \<Rightarrow> CaughtReady (Inr ())
          | Inr (Pending fut') \<Rightarrow> CaughtPending fut'
          | Inl payload \<Rightarrow> CaughtReady (Inl payload)), w1))"

definition CatchUnwind_new :: "'n \<Rightarrow> 'n CatchUnwind" where
  "CatchUnwind_new future = \<lparr>inner = Some future\<rparr>"

text \<open>\<open>None\<close> is \<open>Poll::Pending\<close>.\<close>

definition CatchUnwind_poll ::
  "('n, 'e, 'u) code \<Rightarrow> ('n, 'e, 'u, 'w) runner \<Rightarrow> 'n CatchUnwind \<Rightarrow>
   ('w, (payload + unit) option \<times> 'n CatchUnwind) prog" where
  "CatchUnwind_poll code R self w =
     (case inner self of
        None \<Rightarrow> Some (Ret (None, self), w)
      | Some fut \<Rightarrow>
          and_then (poll_caught code R fut w)
            (\<lambda>outcome w1. Some (Ret (case outcome of
                 CaughtReady r \<Rightarrow> (Some r, self\<lparr>inner := None\<rparr>)
               | CaughtPending fut' \<Rightarrow> (None, self\<lparr>inner := Some fut'\<rparr>)), w1)))"

definition Slot_new :: "payload + 'n \<Rightarrow> 'n Slot" where
  "Slot_new started = (case started of Inr fut \<Rightarrow> Running fut | Inl payload \<Rightarrow> Panicked payload)"

definition Slot_poll ::
  "('n, 'e, 'u) code \<Rightarrow> ('n, 'e, 'u, 'w) runner \<Rightarrow> 'n Slot \<Rightarrow> ('w, bool \<times> 'n Slot) prog" where
  "Slot_poll code R self w =
     (case self of
        Running fut \<Rightarrow>
          and_then (poll_caught code R fut w)
            (\<lambda>outcome w1. Some (Ret (case outcome of
                 CaughtPending fut' \<Rightarrow> (False, Running fut')
               | CaughtReady (Inr _) \<Rightarrow> (True, SlotDone)
               | CaughtReady (Inl payload) \<Rightarrow> (True, Panicked payload)), w1))
      | _ \<Rightarrow> Some (Ret (True, self), w))"

section \<open>The dispatch loops\<close>

text \<open>\<open>start(|| (entry.handler)(event))\<close>.\<close>

definition start_entry ::
  "('n, 'e, 'u) code \<Rightarrow> ('n, 'e, 'u, 'w) runner \<Rightarrow> 'e \<Rightarrow> 'n entry \<Rightarrow> ('w, payload + 'n) prog" where
  "start_entry code R event entry w =
     (case entry_handler entry of AsyncClosure n \<Rightarrow> start_future R (build_code code n event) w | _ \<Rightarrow> None)"

text \<open>The end of one handler: report its panic, if any.\<close>

definition finish_entry ::
  "(HandlerId \<Rightarrow> payload \<Rightarrow> ('w, unit) prog) \<Rightarrow> 'n entry \<Rightarrow> payload + unit \<Rightarrow> ('w, unit) prog" where
  "finish_entry handle_panic entry outcome w =
     (case outcome of Inr _ \<Rightarrow> Some (Ret (), w) | Inl payload \<Rightarrow> handle_panic (entry_id entry) payload w)"

definition finished :: "(unit outcome \<times> 'w) option \<Rightarrow> (('n, 'e) notify_future outcome \<times> 'w) option" where
  "finished r = and_then r (\<lambda>_ w. Some (Ret NotifyFinished, w))"

text \<open>A list of one: await its future, then report.\<close>

definition poll_one ::
  "('n, 'e, 'u) code \<Rightarrow> ('n, 'e, 'u, 'w) runner \<Rightarrow> (HandlerId \<Rightarrow> payload \<Rightarrow> ('w, unit) prog) \<Rightarrow>
   nat \<Rightarrow> nat \<Rightarrow> 'n entry \<Rightarrow> 'n CatchUnwind \<Rightarrow> ('w, ('n, 'e) notify_future) prog" where
  "poll_one code R handle_panic rid h only cu w =
     and_then (CatchUnwind_poll code R cu w)
       (\<lambda>(r, cu') w1. case r of
            None \<Rightarrow> Some (Ret (NotifyOne rid h only cu'), w1)
          | Some outcome \<Rightarrow> finished (finish_entry handle_panic only outcome w1))"

text \<open>Several handlers: build every future, then poll every running slot on each poll.\<close>

fun start_slots ::
  "('n, 'e, 'u) code \<Rightarrow> ('n, 'e, 'u, 'w) runner \<Rightarrow> 'e \<Rightarrow> 'n entry list \<Rightarrow> ('w, 'n Slot list) prog" where
  "start_slots code R event [] w = Some (Ret [], w)"
| "start_slots code R event (entry # rest) w =
     and_then (start_entry code R event entry w)
       (\<lambda>started w1. and_then (start_slots code R event rest w1) (\<lambda>sl w2. Some (Ret (Slot_new started # sl), w2)))"

fun is_running :: "'n Slot \<Rightarrow> bool" where
  "is_running (Running f) = True"
| "is_running SlotDone = False"
| "is_running (Panicked p) = False"

fun poll_slots ::
  "('n, 'e, 'u) code \<Rightarrow> ('n, 'e, 'u, 'w) runner \<Rightarrow> 'n Slot list \<Rightarrow> nat \<Rightarrow> ('w, 'n Slot list \<times> nat) prog" where
  "poll_slots code R [] running w = Some (Ret ([], running), w)"
| "poll_slots code R (slot # rest) running w =
     (if is_running slot
      then and_then (Slot_poll code R slot w)
             (\<lambda>(done, slot') w1. and_then (poll_slots code R rest (if done then running - 1 else running) w1)
                (\<lambda>(rest', running') w2. Some (Ret (slot' # rest', running'), w2)))
      else and_then (poll_slots code R rest running w) (\<lambda>(rest', running') w2. Some (Ret (slot # rest', running'), w2)))"

text \<open>Dropping slots that are left over drops the payloads in them.\<close>

fun drop_slots :: "'n Slot list \<Rightarrow> unit outcome" where
  "drop_slots [] = Ret ()"
| "drop_slots (Panicked p # rest) =
     (case drop_payload p of
        Ret _ \<Rightarrow> drop_slots rest
      | Unwind q \<Rightarrow> (case drop_slots rest of Ret _ \<Rightarrow> Unwind q | _ \<Rightarrow> Abort)
      | Abort \<Rightarrow> Abort)"
| "drop_slots (_ # rest) = drop_slots rest"

definition unwind_drop :: "'n Slot list \<Rightarrow> (unit outcome \<times> 's) option \<Rightarrow> (unit outcome \<times> 's) option" where
  "unwind_drop sl r =
     (case r of
        Some (Unwind p, s) \<Rightarrow> Some (case drop_slots sl of Ret _ \<Rightarrow> Unwind p | _ \<Rightarrow> Abort, s)
      | _ \<Rightarrow> r)"

fun finish_slots ::
  "(HandlerId \<Rightarrow> payload \<Rightarrow> ('w, unit) prog) \<Rightarrow> ('n entry \<times> 'n Slot) list \<Rightarrow> ('w, unit) prog" where
  "finish_slots handle_panic [] w = Some (Ret (), w)"
| "finish_slots handle_panic ((entry, slot) # rest) w =
     (case slot of
        Panicked payload \<Rightarrow>
          and_then (unwind_drop (map snd rest) (handle_panic (entry_id entry) payload w))
            (\<lambda>_. finish_slots handle_panic rest)
      | _ \<Rightarrow> finish_slots handle_panic rest w)"

definition poll_join ::
  "('n, 'e, 'u) code \<Rightarrow> ('n, 'e, 'u, 'w) runner \<Rightarrow> (HandlerId \<Rightarrow> payload \<Rightarrow> ('w, unit) prog) \<Rightarrow>
   nat \<Rightarrow> nat \<Rightarrow> 'n entry list \<Rightarrow> 'n Slot list \<Rightarrow> nat \<Rightarrow> ('w, ('n, 'e) notify_future) prog" where
  "poll_join code R handle_panic rid h many sl running w =
     and_then (poll_slots code R sl running w)
       (\<lambda>(sl', running') w1.
          if running' = 0 then finished (finish_slots handle_panic (zip many sl') w1)
          else Some (Ret (NotifyJoin rid h many sl' running'), w1))"

text \<open>The body of \<open>notify\<close> once the list is loaded.\<close>

definition notify_list ::
  "('n, 'e, 'u) code \<Rightarrow> ('n, 'e, 'u, 'w) runner \<Rightarrow> (HandlerId \<Rightarrow> payload \<Rightarrow> ('w, unit) prog) \<Rightarrow>
   nat \<Rightarrow> nat \<Rightarrow> 'e \<Rightarrow> 'n entry list \<Rightarrow> ('w, ('n, 'e) notify_future) prog" where
  "notify_list code R handle_panic rid h event list w =
     (case list of
        [] \<Rightarrow> Some (Ret NotifyFinished, w)
      | [only] \<Rightarrow>
          and_then (start_entry code R event only w)
            (\<lambda>started w1. case started of
                 Inr fut \<Rightarrow> poll_one code R handle_panic rid h only (CatchUnwind_new fut) w1
               | Inl payload \<Rightarrow> finished (finish_entry handle_panic only (Inl payload) w1))
      | many \<Rightarrow>
          and_then (start_slots code R event many w)
            (\<lambda>sl. poll_join code R handle_panic rid h many sl (length (filter is_running sl))))"

text \<open>The loop of \<open>notify_sequential\<close>, and its continuation after an \<open>await\<close> that was pending.\<close>

fun sequential_from ::
  "('n, 'e, 'u) code \<Rightarrow> ('n, 'e, 'u, 'w) runner \<Rightarrow> (HandlerId \<Rightarrow> payload \<Rightarrow> ('w, unit) prog) \<Rightarrow>
   nat \<Rightarrow> nat \<Rightarrow> 'e \<Rightarrow> 'n entry list \<Rightarrow> ('w, ('n, 'e) notify_future) prog" where
  "sequential_from code R handle_panic rid h event [] w = Some (Ret NotifyFinished, w)"
| "sequential_from code R handle_panic rid h event (entry # rest) w =
     and_then (start_entry code R event entry w)
       (\<lambda>started w1. and_then
          (case started of
             Inr fut \<Rightarrow> CatchUnwind_poll code R (CatchUnwind_new fut) w1
           | Inl payload \<Rightarrow> Some (Ret (Some (Inl payload), \<lparr>inner = None\<rparr>), w1))
          (\<lambda>(r, cu) w2. case r of
               None \<Rightarrow> Some (Ret (SequentialAt rid h event entry cu rest), w2)
             | Some outcome \<Rightarrow>
                 and_then (finish_entry handle_panic entry outcome w2)
                   (\<lambda>_. sequential_from code R handle_panic rid h event rest)))"

definition sequential_resume ::
  "('n, 'e, 'u) code \<Rightarrow> ('n, 'e, 'u, 'w) runner \<Rightarrow> (HandlerId \<Rightarrow> payload \<Rightarrow> ('w, unit) prog) \<Rightarrow>
   nat \<Rightarrow> nat \<Rightarrow> 'e \<Rightarrow> 'n entry \<Rightarrow> 'n CatchUnwind \<Rightarrow> 'n entry list \<Rightarrow> ('w, ('n, 'e) notify_future) prog" where
  "sequential_resume code R handle_panic rid h event entry cu rest w =
     and_then (CatchUnwind_poll code R cu w)
       (\<lambda>(r, cu') w1. case r of
            None \<Rightarrow> Some (Ret (SequentialAt rid h event entry cu' rest), w1)
          | Some outcome \<Rightarrow>
              and_then (finish_entry handle_panic entry outcome w1)
                (\<lambda>_. sequential_from code R handle_panic rid h event rest))"

text \<open>
  The handle on the list is dropped when the \<open>async fn\<close> returns or unwinds, and kept while it is pending.
\<close>

definition list_scope ::
  "('w \<Rightarrow> 'w option) \<Rightarrow> (('n, 'e) notify_future outcome \<times> 'w) option \<Rightarrow> (('n, 'e) notify_future outcome \<times> 'w) option" where
  "list_scope drop_handle r =
     (case r of
        Some (Ret NotifyFinished, w) \<Rightarrow> map_option (\<lambda>w'. (Ret NotifyFinished, w')) (drop_handle w)
      | Some (Unwind p, w) \<Rightarrow> map_option (\<lambda>w'. (Unwind p, w')) (drop_handle w)
      | _ \<Rightarrow> r)"

end
