(* ===== verification/AsyncRegistry.thy ===== *)
theory AsyncRegistry
  imports SyncRegistry FutureExt
begin

text \<open>
  The asynchronous registry and its guard (\<^verbatim>\<open>src/src/async_registry/mod.rs\<close>, \<^verbatim>\<open>src/src/async_registry/guard.rs\<close>),
  one definition per method. The two \<open>async fn\<close>s are futures of the library's own (\<open>notify_future\<close>): they
  are built without running anything, \<open>notify_poll\<close> advances one, and \<open>notify_cancel\<close> drops one before it is
  finished.
\<close>

section \<open>Registration and queries\<close>

definition AsyncRegistry_with_capacity :: "usize \<Rightarrow> ('n, 'u) world \<Rightarrow> nat \<times> ('n, 'u) world" where
  "AsyncRegistry_with_capacity capacity w =
     (let (c, w1) = SnapCell_new [] w;
          reg = \<lparr>a_handlers = c, a_id_generator = HandlerIdGenerator_new, a_panic_callback = None, a_reg_alive = True\<rparr>
      in (length (aregs (client_state w1)), with_client (\<lambda>k. k\<lparr>aregs := aregs k @ [reg]\<rparr>) w1))"

definition AsyncRegistry_new :: "('n, 'u) world \<Rightarrow> nat \<times> ('n, 'u) world" where
  "AsyncRegistry_new w = AsyncRegistry_with_capacity 0 w"

definition AsyncRegistry_default :: "('n, 'u) world \<Rightarrow> nat \<times> ('n, 'u) world" where
  "AsyncRegistry_default w = AsyncRegistry_new w"

definition AsyncRegistry_register_with_priority ::
  "nat \<Rightarrow> i32 \<Rightarrow> 'n \<Rightarrow> ('n, 'u) world \<Rightarrow> (HandlerId \<times> ('n, 'u) world) option" where
  "AsyncRegistry_register_with_priority rid priority handler w = do {
     let (hid, g) = HandlerIdGenerator_next (a_id_generator (the_areg rid w));
     let w1 = with_client (set_areg rid ((the_areg rid w)\<lparr>a_id_generator := g\<rparr>)) w;
     let entry = \<lparr>entry_id = hid, entry_priority = priority, entry_handler = AsyncClosure handler\<rparr>;
     (_, w2) \<leftarrow> update (a_handlers (the_areg rid w1)) (insert_closure entry) w1;
     Some (hid, w2) }"

definition AsyncRegistry_register :: "nat \<Rightarrow> 'n \<Rightarrow> ('n, 'u) world \<Rightarrow> (HandlerId \<times> ('n, 'u) world) option" where
  "AsyncRegistry_register rid handler w = AsyncRegistry_register_with_priority rid 0 handler w"

definition AsyncRegistry_remove_id :: "nat \<Rightarrow> HandlerId \<Rightarrow> ('n, 'u) world \<Rightarrow> (bool \<times> ('n, 'u) world) option" where
  "AsyncRegistry_remove_id rid hid w = do {
     (r, w') \<leftarrow> update (a_handlers (the_areg rid w)) (remove_id_closure hid) w;
     Some (r \<noteq> None, w') }"

definition AsyncRegistry_remove_all :: "nat \<Rightarrow> ('n, 'u) world \<Rightarrow> (bool \<times> ('n, 'u) world) option" where
  "AsyncRegistry_remove_all rid w = do {
     (r, w') \<leftarrow> update (a_handlers (the_areg rid w)) remove_all_closure w;
     Some (r \<noteq> None, w') }"

definition AsyncRegistry_unregister :: "nat \<Rightarrow> HandlerId \<Rightarrow> ('n, 'u) world \<Rightarrow> (bool \<times> ('n, 'u) world) option" where
  "AsyncRegistry_unregister rid hid w = AsyncRegistry_remove_id rid hid w"

definition AsyncRegistry_clear :: "nat \<Rightarrow> ('n, 'u) world \<Rightarrow> ('n, 'u) world option" where
  "AsyncRegistry_clear rid w = do { (_, w') \<leftarrow> AsyncRegistry_remove_all rid w; Some w' }"

definition AsyncRegistry_handler_count :: "nat \<Rightarrow> ('n, 'u, usize) wprog" where
  "AsyncRegistry_handler_count rid w = read (a_handlers (the_areg rid w)) (look (\<lambda>list. of_nat (length list))) w"

definition AsyncRegistry_is_empty :: "nat \<Rightarrow> ('n, 'u, bool) wprog" where
  "AsyncRegistry_is_empty rid w =
     read (a_handlers (the_areg rid w)) (look (\<lambda>list. case list of [] \<Rightarrow> True | _ # _ \<Rightarrow> False)) w"

definition AsyncRegistry_contains :: "nat \<Rightarrow> HandlerId \<Rightarrow> ('n, 'u, bool) wprog" where
  "AsyncRegistry_contains rid hid w = read (a_handlers (the_areg rid w)) (look (contains_closure hid)) w"

definition AsyncRegistry_on_panic :: "nat \<Rightarrow> 'n \<Rightarrow> ('n, 'u) world \<Rightarrow> ('n, 'u) world" where
  "AsyncRegistry_on_panic rid callback w =
     (let holder = PanicCallbackHolder_new (\<lambda>info. (callback, info))
      in with_client (set_areg rid ((the_areg rid w)\<lparr>a_panic_callback := Some holder\<rparr>)) w)"

definition AsyncRegistry_clear_panic_callback :: "nat \<Rightarrow> ('n, 'u) world \<Rightarrow> ('n, 'u) world" where
  "AsyncRegistry_clear_panic_callback rid w =
     with_client (set_areg rid ((the_areg rid w)\<lparr>a_panic_callback := None\<rparr>)) w"

definition AsyncRegistry_handle_panic ::
  "('n, 'e, 'u) code \<Rightarrow> ('n, 'e, 'u, ('n, 'u) world) runner \<Rightarrow> nat \<Rightarrow> HandlerId \<Rightarrow> payload \<Rightarrow> ('n, 'u, unit) wprog" where
  "AsyncRegistry_handle_panic code R rid handler_id payload w =
     report_panic code R (a_panic_callback (the_areg rid w)) handler_id payload w"

section \<open>Dispatch\<close>

text \<open>A dispatch in progress owns an \<open>Arc\<close> on its list.\<close>

definition keep_handle :: "addr \<Rightarrow> ('n, 'u) world \<Rightarrow> nat \<times> ('n, 'u) world" where
  "keep_handle a w = (length (arcs w), w\<lparr>arcs := arcs w @ [Some a]\<rparr>)"

definition drop_handle :: "nat \<Rightarrow> ('n, 'u) world \<Rightarrow> ('n, 'u) world option" where
  "drop_handle h w =
     (if h < length (arcs w) then
        (case arcs w ! h of
           None \<Rightarrow> None
         | Some a \<Rightarrow> do { w' \<leftarrow> arc_drop a w; Some (w'\<lparr>arcs := (arcs w')[h := None]\<rparr>) })
      else None)"

definition not_empty :: "'h list \<Rightarrow> bool" where
  "not_empty l = (case l of [] \<Rightarrow> False | _ # _ \<Rightarrow> True)"

definition AsyncRegistry_notify ::
  "('n, 'e, 'u) code \<Rightarrow> ('n, 'e, 'u, ('n, 'u) world) runner \<Rightarrow> nat \<Rightarrow> 'e \<Rightarrow> ('n, 'u, ('n, 'e) notify_future) wprog" where
  "AsyncRegistry_notify code R rid event w = do {
     (r, w1) \<leftarrow> load_arc_if (a_handlers (the_areg rid w)) not_empty w;
     case r of
       None \<Rightarrow> Some (Ret NotifyFinished, w1)
     | Some a \<Rightarrow> do {
         let (h, w2) = keep_handle a w1;
         list \<leftarrow> deref a w2;
         list_scope (drop_handle h)
           (notify_list code R (AsyncRegistry_handle_panic code R rid) rid h event list w2) } }"

definition AsyncRegistry_notify_sequential ::
  "('n, 'e, 'u) code \<Rightarrow> ('n, 'e, 'u, ('n, 'u) world) runner \<Rightarrow> nat \<Rightarrow> 'e \<Rightarrow> ('n, 'u, ('n, 'e) notify_future) wprog" where
  "AsyncRegistry_notify_sequential code R rid event w = do {
     (r, w1) \<leftarrow> load_arc_if (a_handlers (the_areg rid w)) not_empty w;
     case r of
       None \<Rightarrow> Some (Ret NotifyFinished, w1)
     | Some a \<Rightarrow> do {
         let (h, w2) = keep_handle a w1;
         list \<leftarrow> deref a w2;
         list_scope (drop_handle h)
           (sequential_from code R (AsyncRegistry_handle_panic code R rid) rid h event list w2) } }"

text \<open>Polling the future of a dispatch; the language panics when a finished one is polled again.\<close>

definition notify_poll ::
  "('n, 'e, 'u) code \<Rightarrow> ('n, 'e, 'u, ('n, 'u) world) runner \<Rightarrow> ('n, 'e) notify_future \<Rightarrow> ('n, 'u, ('n, 'e) notify_future) wprog" where
  "notify_poll code R fut w =
     (case fut of
        NotifyStart rid event \<Rightarrow> AsyncRegistry_notify code R rid event w
      | NotifyOne rid h only cu \<Rightarrow>
          list_scope (drop_handle h) (poll_one code R (AsyncRegistry_handle_panic code R rid) rid h only cu w)
      | NotifyJoin rid h many sl running \<Rightarrow>
          list_scope (drop_handle h) (poll_join code R (AsyncRegistry_handle_panic code R rid) rid h many sl running w)
      | SequentialStart rid event \<Rightarrow> AsyncRegistry_notify_sequential code R rid event w
      | SequentialAt rid h event entry cu rest \<Rightarrow>
          list_scope (drop_handle h)
            (sequential_resume code R (AsyncRegistry_handle_panic code R rid) rid h event entry cu rest w)
      | NotifyFinished \<Rightarrow> Some (Unwind (PStr ''`async fn` resumed after completion''), w))"

text \<open>Dropping the future of a dispatch: the slots, then the handle on the list.\<close>

definition notify_cancel :: "('n, 'e) notify_future \<Rightarrow> ('n, 'u, unit) wprog" where
  "notify_cancel fut w =
     (case fut of
        NotifyOne rid h only cu \<Rightarrow> calmly (drop_handle h w)
      | NotifyJoin rid h many sl running \<Rightarrow>
          (case drop_slots sl of
             Abort \<Rightarrow> Some (Abort, w)
           | out \<Rightarrow> map_option (\<lambda>w'. (out, w')) (drop_handle h w))
      | SequentialAt rid h event entry cu rest \<Rightarrow> calmly (drop_handle h w)
      | _ \<Rightarrow> Some (Ret (), w))"

section \<open>The guard\<close>

definition a_upgrade :: "nat option \<Rightarrow> ('n, 'u) world \<Rightarrow> nat option" where
  "a_upgrade r w = (case r of None \<Rightarrow> None | Some rid \<Rightarrow> 
     if rid < length (aregs (client_state w)) \<and> a_reg_alive (the_areg rid w) then Some rid else None)"

definition AsyncHandlerGuard_new :: "HandlerId \<Rightarrow> nat option \<Rightarrow> HandlerGuard" where
  "AsyncHandlerGuard_new hid registry = \<lparr>guard_id = hid, guard_registry = registry\<rparr>"

definition AsyncHandlerGuard_id :: "HandlerGuard \<Rightarrow> HandlerId" where
  "AsyncHandlerGuard_id g = guard_id g"

definition AsyncHandlerGuard_forget :: "HandlerGuard \<Rightarrow> HandlerGuard" where
  "AsyncHandlerGuard_forget g = g\<lparr>guard_registry := None\<rparr>"

definition AsyncHandlerGuard_drop :: "HandlerGuard \<Rightarrow> ('n, 'u) world \<Rightarrow> ('n, 'u) world option" where
  "AsyncHandlerGuard_drop g w =
     (case a_upgrade (guard_registry g) w of
        None \<Rightarrow> Some w
      | Some rid \<Rightarrow> do { (_, w') \<leftarrow> AsyncRegistry_unregister rid (guard_id g) w; Some w' })"

definition AsyncRegistry_register_guard_with_priority ::
  "nat \<Rightarrow> i32 \<Rightarrow> 'n \<Rightarrow> ('n, 'u) world \<Rightarrow> (HandlerGuard \<times> ('n, 'u) world) option" where
  "AsyncRegistry_register_guard_with_priority rid priority handler w = do {
     (hid, w1) \<leftarrow> AsyncRegistry_register_with_priority rid priority handler w;
     Some (AsyncHandlerGuard_new hid (Some rid), w1) }"

definition AsyncRegistry_register_guard ::
  "nat \<Rightarrow> 'n \<Rightarrow> ('n, 'u) world \<Rightarrow> (HandlerGuard \<times> ('n, 'u) world) option" where
  "AsyncRegistry_register_guard rid handler w = do {
     (hid, w1) \<leftarrow> AsyncRegistry_register rid handler w;
     Some (AsyncHandlerGuard_new hid (Some rid), w1) }"

section \<open>Debug output\<close>

definition AsyncHandlerEntry_debug :: "'h HandlerEntry \<Rightarrow> string" where
  "AsyncHandlerEntry_debug e =
     ''AsyncHandlerEntry { id: '' @ HandlerId_debug (entry_id e) @ '', priority: '' @ debug_i32 (entry_priority e) @ '', .. }''"

definition AsyncHandlerGuard_debug :: "HandlerGuard \<Rightarrow> ('n, 'u) world \<Rightarrow> string" where
  "AsyncHandlerGuard_debug g w =
     ''AsyncHandlerGuard { id: '' @ HandlerId_debug (guard_id g) @
     '', registry_alive: '' @ debug_bool (a_upgrade (guard_registry g) w \<noteq> None) @ '' }''"

definition AsyncRegistry_debug :: "nat \<Rightarrow> ('n, 'u, string) wprog" where
  "AsyncRegistry_debug rid w =
     and_then (AsyncRegistry_handler_count rid w) (\<lambda>n w1. Some (Ret (
       ''AsyncRegistry { handler_count: '' @ decimal (unat n) @
       '', has_panic_callback: '' @ debug_bool (\<not> Option.is_none (a_panic_callback (the_areg rid w1))) @ '', .. }''), w1))"

end
