(* ===== verification/Exec.thy ===== *)
theory Exec
  imports AsyncRegistry
begin

text \<open>
  Running programs that use the library. \<open>do_op\<close> performs one call, \<open>act_step\<close> one node of an
  \<open>act\<close>, and \<open>exec code n\<close> is the runner that gives up after \<open>n\<close> nodes on any path: it counts down
  along a body and into the bodies a dispatch calls, so re-entrant dispatch of any depth is covered,
  and a program that never ends has no result at any \<open>n\<close>.
\<close>

definition answer_with :: "('a \<Rightarrow> 'b) \<Rightarrow> ('a outcome \<times> 's) option \<Rightarrow> ('b outcome \<times> 's) option" where
  "answer_with f r = and_then r (\<lambda>x s. Some (Ret (f x), s))"

text \<open>A program only holds registries that exist.\<close>

definition on_sync :: "nat \<Rightarrow> ('n, 'u, 'a) wprog \<Rightarrow> ('n, 'u, 'a) wprog" where
  "on_sync rid f w = (if rid < length (regs (client_state w)) then f w else None)"

definition on_async :: "nat \<Rightarrow> ('n, 'u, 'a) wprog \<Rightarrow> ('n, 'u, 'a) wprog" where
  "on_async rid f w = (if rid < length (aregs (client_state w)) then f w else None)"

fun future_registry :: "('n, 'e) notify_future \<Rightarrow> nat option" where
  "future_registry (NotifyStart rid e) = Some rid"
| "future_registry (NotifyOne rid h only cu) = Some rid"
| "future_registry (NotifyJoin rid h many sl k) = Some rid"
| "future_registry (SequentialStart rid e) = Some rid"
| "future_registry (SequentialAt rid h e entry cu rest) = Some rid"
| "future_registry NotifyFinished = None"

definition sync_op ::
  "('n, 'e, 'u) code \<Rightarrow> ('n, 'e, 'u, ('n, 'u) world) runner \<Rightarrow> ('n, 'e) op \<Rightarrow> ('n, 'u, ('n, 'e) answer) wprog" where
  "sync_op code R c w =
     (case c of
        SyncNew k \<Rightarrow> answer_with ARegistry (returning (Some (SyncRegistry_with_capacity k w)))
      | Register rid p n \<Rightarrow> on_sync rid (\<lambda>w. answer_with AId (returning (SyncRegistry_register_with_priority rid p n w))) w
      | RegisterOnce rid n \<Rightarrow> on_sync rid (\<lambda>w. answer_with AId (returning (SyncRegistry_register_once rid n w))) w
      | RegisterGuard rid p n \<Rightarrow>
          on_sync rid (\<lambda>w. answer_with AGuard (returning (SyncRegistry_register_guard_with_priority rid p n w))) w
      | GuardDrop g \<Rightarrow> answer_with (\<lambda>_. AUnit) (calmly (HandlerGuard_drop g w))
      | GuardForget g \<Rightarrow> Some (Ret (AGuard (HandlerGuard_forget g)), w)
      | Unregister rid i \<Rightarrow> on_sync rid (\<lambda>w. answer_with ABool (returning (SyncRegistry_unregister rid i w))) w
      | UnregisterAndWait rid i \<Rightarrow>
          on_sync rid (\<lambda>w. answer_with ABool (returning (SyncRegistry_unregister_and_wait rid i w))) w
      | Clear rid \<Rightarrow> on_sync rid (\<lambda>w. answer_with (\<lambda>_. AUnit) (calmly (SyncRegistry_clear rid w))) w
      | ClearAndWait rid \<Rightarrow> on_sync rid (\<lambda>w. answer_with (\<lambda>_. AUnit) (calmly (SyncRegistry_clear_and_wait rid w))) w
      | Contains rid i \<Rightarrow> on_sync rid (\<lambda>w. answer_with ABool (SyncRegistry_contains rid i w)) w
      | HandlerCount rid \<Rightarrow> on_sync rid (\<lambda>w. answer_with ACount (SyncRegistry_handler_count rid w)) w
      | IsEmpty rid \<Rightarrow> on_sync rid (\<lambda>w. answer_with ABool (SyncRegistry_is_empty rid w)) w
      | PanicCount rid \<Rightarrow> on_sync rid (\<lambda>w. Some (Ret (APanics (SyncRegistry_panic_count rid w)), w)) w
      | OnPanic rid n \<Rightarrow> on_sync rid (\<lambda>w. Some (Ret AUnit, SyncRegistry_on_panic rid n w)) w
      | ClearPanicCallback rid \<Rightarrow> on_sync rid (\<lambda>w. Some (Ret AUnit, SyncRegistry_clear_panic_callback rid w)) w
      | Notify rid e \<Rightarrow> on_sync rid (\<lambda>w. answer_with (\<lambda>_. AUnit) (SyncRegistry_notify code R rid e w)) w
      | _ \<Rightarrow> None)"

definition async_op ::
  "('n, 'e, 'u) code \<Rightarrow> ('n, 'e, 'u, ('n, 'u) world) runner \<Rightarrow> ('n, 'e) op \<Rightarrow> ('n, 'u, ('n, 'e) answer) wprog" where
  "async_op code R c w =
     (case c of
        AsyncNew k \<Rightarrow> answer_with ARegistry (returning (Some (AsyncRegistry_with_capacity k w)))
      | AsyncRegister rid p n \<Rightarrow>
          on_async rid (\<lambda>w. answer_with AId (returning (AsyncRegistry_register_with_priority rid p n w))) w
      | AsyncRegisterGuard rid p n \<Rightarrow>
          on_async rid (\<lambda>w. answer_with AGuard (returning (AsyncRegistry_register_guard_with_priority rid p n w))) w
      | AsyncGuardDrop g \<Rightarrow> answer_with (\<lambda>_. AUnit) (calmly (AsyncHandlerGuard_drop g w))
      | AsyncUnregister rid i \<Rightarrow> on_async rid (\<lambda>w. answer_with ABool (returning (AsyncRegistry_unregister rid i w))) w
      | AsyncClear rid \<Rightarrow> on_async rid (\<lambda>w. answer_with (\<lambda>_. AUnit) (calmly (AsyncRegistry_clear rid w))) w
      | AsyncContains rid i \<Rightarrow> on_async rid (\<lambda>w. answer_with ABool (AsyncRegistry_contains rid i w)) w
      | AsyncHandlerCount rid \<Rightarrow> on_async rid (\<lambda>w. answer_with ACount (AsyncRegistry_handler_count rid w)) w
      | AsyncIsEmpty rid \<Rightarrow> on_async rid (\<lambda>w. answer_with ABool (AsyncRegistry_is_empty rid w)) w
      | AsyncOnPanic rid n \<Rightarrow> on_async rid (\<lambda>w. Some (Ret AUnit, AsyncRegistry_on_panic rid n w)) w
      | AsyncClearPanicCallback rid \<Rightarrow>
          on_async rid (\<lambda>w. Some (Ret AUnit, AsyncRegistry_clear_panic_callback rid w)) w
      | AsyncPoll f \<Rightarrow>
          (case future_registry f of
             None \<Rightarrow> answer_with APoll (notify_poll code R f w)
           | Some rid \<Rightarrow> on_async rid (\<lambda>w. answer_with APoll (notify_poll code R f w)) w)
      | AsyncCancel f \<Rightarrow> answer_with (\<lambda>_. AUnit) (notify_cancel f w)
      | _ \<Rightarrow> None)"

fun is_async :: "('n, 'e) op \<Rightarrow> bool" where
  "is_async (AsyncNew k) = True"
| "is_async (AsyncRegister rid p n) = True"
| "is_async (AsyncRegisterGuard rid p n) = True"
| "is_async (AsyncGuardDrop g) = True"
| "is_async (AsyncUnregister rid i) = True"
| "is_async (AsyncClear rid) = True"
| "is_async (AsyncContains rid i) = True"
| "is_async (AsyncHandlerCount rid) = True"
| "is_async (AsyncIsEmpty rid) = True"
| "is_async (AsyncOnPanic rid n) = True"
| "is_async (AsyncClearPanicCallback rid) = True"
| "is_async (AsyncPoll f) = True"
| "is_async (AsyncCancel f) = True"
| "is_async _ = False"

definition do_op ::
  "('n, 'e, 'u) code \<Rightarrow> ('n, 'e, 'u, ('n, 'u) world) runner \<Rightarrow> ('n, 'e) op \<Rightarrow> ('n, 'u, ('n, 'e) answer) wprog" where
  "do_op code R c w = (if is_async c then async_op code R c w else sync_op code R c w)"

definition act_step ::
  "('n, 'e, 'u) code \<Rightarrow> ('n, 'e, 'u, ('n, 'u) world) runner \<Rightarrow> (('n, 'e, 'u, 'r) act \<Rightarrow> ('n, 'u, 'r) wprog) \<Rightarrow>
   ('n, 'e, 'u, 'r) act \<Rightarrow> ('n, 'u, 'r) wprog" where
  "act_step code R go a w =
     (case a of
        Done x \<Rightarrow> Some (Ret x, w)
      | Panic p \<Rightarrow> Some (Unwind p, w)
      | Ask k \<Rightarrow> go (k (user_state (client_state w))) w
      | Change f a' \<Rightarrow> go a' (with_client (\<lambda>k. k\<lparr>user_state := f (user_state k)\<rparr>) w)
      | Call c k \<Rightarrow> and_then (do_op code R c w) (\<lambda>x. go (k x)))"

fun exec_unit :: "('n, 'e, 'u) code \<Rightarrow> nat \<Rightarrow> ('n, 'e, 'u, unit) act \<Rightarrow> ('n, 'u, unit) wprog"
and exec_build :: "('n, 'e, 'u) code \<Rightarrow> nat \<Rightarrow> ('n, 'e, 'u, 'n) act \<Rightarrow> ('n, 'u, 'n) wprog"
and exec_poll :: "('n, 'e, 'u) code \<Rightarrow> nat \<Rightarrow> ('n, 'e, 'u, 'n poll) act \<Rightarrow> ('n, 'u, 'n poll) wprog" where
  "exec_unit code 0 a w = None"
| "exec_unit code (Suc n) a w =
     act_step code \<lparr>run_unit = exec_unit code n, run_build = exec_build code n, run_poll = exec_poll code n\<rparr>
       (exec_unit code n) a w"
| "exec_build code 0 a w = None"
| "exec_build code (Suc n) a w =
     act_step code \<lparr>run_unit = exec_unit code n, run_build = exec_build code n, run_poll = exec_poll code n\<rparr>
       (exec_build code n) a w"
| "exec_poll code 0 a w = None"
| "exec_poll code (Suc n) a w =
     act_step code \<lparr>run_unit = exec_unit code n, run_build = exec_build code n, run_poll = exec_poll code n\<rparr>
       (exec_poll code n) a w"

definition exec :: "('n, 'e, 'u) code \<Rightarrow> nat \<Rightarrow> ('n, 'e, 'u, ('n, 'u) world) runner" where
  "exec code n = \<lparr>run_unit = exec_unit code n, run_build = exec_build code n, run_poll = exec_poll code n\<rparr>"

text \<open>The empty world: no cell, no registry, a fresh thread.\<close>

definition empty_world :: "'u \<Rightarrow> ('n, 'u) world" where
  "empty_world u = \<lparr>haz = empty_domain, heap = (\<lambda>_. None), heap_brk = 1, cells = [], me = 0,
     local_state = new_local, fallback_depth = 0,
     client_state = \<lparr>regs = [], aregs = [], once_slots = [], user_state = u\<rparr>, arcs = []\<rparr>"

text \<open>A program: a \<open>main\<close> run in the empty world.\<close>

definition run_main :: "('n, 'e, 'u) code \<Rightarrow> nat \<Rightarrow> ('n, 'e, 'u, unit) act \<Rightarrow> 'u \<Rightarrow> (unit outcome \<times> 'u) option" where
  "run_main code n a u =
     map_option (\<lambda>(out, w). (out, user_state (client_state w))) (exec_unit code n a (empty_world u))"

end
