(* ===== verification/SnapMachine.thy ===== *)
theory SnapMachine
  imports SnapCell
begin

text \<open>
  The interleaving model of \<^verbatim>\<open>src/src/snapshot.rs\<close> and \<^verbatim>\<open>src/src/hazard.rs\<close>: any number of threads, any
  number of cells, one atomic access per step. A thread is a program counter inside one
  call of the module, and below it the stack of reads it is inside of. Between calls, and
  inside the closure of a read, a thread may start any operation (that is all a handler
  can do), so nested dispatch, updates from inside a read and waits from inside a read
  are covered.

  Each program counter sits before one atomic access of the source. Accesses that only
  the running thread can observe are taken together with the next shared one: the scan
  for a free slot of the thread's own record with the publishing store, the fields guarded by the
  writer lock with an access made while holding it, and the \<open>next\<close> field of a published record
  (never written again) with the step that reads it. Memory is sequentially consistent.

  Ghost fields, which no step reads: \<open>stamps\<close> numbers the allocations in order, and \<open>fault\<close>
  records an access to freed memory.
\<close>

section \<open>Threads\<close>

datatype (plugins only: code size) frame =
    Hz nat slot_ref addr nat  \<comment> \<open>cell, announcement slot, pointer, stamp of the value read\<close>
  | Fb nat addr nat           \<comment> \<open>cell, owned clone, stamp: a read on the locked fallback path\<close>

datatype (plugins only: code size) 'v rkind = ReadK | LoadK "'v \<Rightarrow> bool"

datatype (plugins only: code size) 'v pc =
    Idle
  | LoadCurrent "'v rkind" nat
  | PinTls "'v rkind" nat addr
  | ReuseScan "'v rkind" nat addr rptr rptr
  | PushHead "'v rkind" nat addr rptr
  | PushCas "'v rkind" nat addr rptr rptr
  | PinSlot "'v rkind" nat addr
  | Validate "'v rkind" nat slot_ref addr
  | Reannounce "'v rkind" nat slot_ref addr addr
  | LoadKeep "'v \<Rightarrow> bool" nat slot_ref addr nat
  | LoadInc nat slot_ref addr nat
  | Release nat slot_ref addr
  | ReleaseCheck nat
  | TryLock nat
  | ScanHead nat
  | Scan nat rptr nat "addr list"
  | Sweep nat "addr list"
  | StoreLen nat "addr list"
  | Unlock nat "addr list"
  | DropFreed "addr list"
  | FbEnter nat
  | LockedLock "'v rkind" nat
  | LockedClone "'v rkind" nat
  | LockedUnlock "'v rkind" nat addr nat
  | LockedKeep "'v \<Rightarrow> bool" addr
  | FbDropArc nat addr
  | FbLeave nat
  | DropArc addr
  | UpdLock nat "'v \<Rightarrow> 'v option"
  | UpdRun nat "'v \<Rightarrow> 'v option"
  | UpdStore nat addr addr
  | WaitFb nat bool nat
  | WaitLock nat bool nat
  | WaitCopy nat bool nat
  | WaitNext nat bool nat "addr list"
  | WaitScan nat bool nat addr "addr list" rptr nat bool

record 'v thread =
  tls :: Local
  depth :: usize
  stack :: "frame list"
  pc :: "'v pc"

record 'v machine = "'v shared" +
  threads :: "'v thread list"
  pool :: "addr list"         \<comment> \<open>owned handles given out by \<open>load_arc_if\<close>\<close>
  stamps :: "addr \<Rightarrow> nat"
  clock :: nat
  fault :: bool

datatype (plugins only: code size) 'v label =
    StartRead nat
  | StartLoad nat "'v \<Rightarrow> bool"
  | StartUpdate nat "'v \<Rightarrow> 'v option"
  | StartWait nat
  | Touch nat             \<comment> \<open>the closure of a read looks at the value it borrowed\<close>
  | EndRead
  | UnwindRead
  | DropPool nat
  | ThreadExit
  | Spurious              \<comment> \<open>a spurious failure of \<open>compare_exchange_weak\<close>\<close>
  | Internal addr         \<comment> \<open>the next step of the call; the address serves an allocation\<close>

section \<open>Steps\<close>

abbreviation thr :: "nat \<Rightarrow> 'v machine \<Rightarrow> 'v thread" where
  "thr i s \<equiv> threads s ! i"

definition put_thr :: "nat \<Rightarrow> 'v thread \<Rightarrow> 'v machine \<Rightarrow> 'v machine" where
  "put_thr i t s = s\<lparr>threads := (threads s)[i := t]\<rparr>"

definition goto :: "nat \<Rightarrow> 'v pc \<Rightarrow> 'v machine \<Rightarrow> 'v machine" where
  "goto i q s = put_thr i ((thr i s)\<lparr>pc := q\<rparr>) s"

definition own_record :: "'v thread \<Rightarrow> rptr" where
  "own_record t = (if local_alive (tls t) then local_record (tls t) else null)"

definition set_lock :: "nat \<Rightarrow> nat option \<Rightarrow> 'v machine \<Rightarrow> 'v machine" where
  "set_lock c x s = put_cell c ((the_cell c s)\<lparr>writer_lock := x\<rparr>) s"

text \<open>\<open>MutexGuard\<close>: acquire the writer lock, or block.\<close>

definition acquire_then :: "nat \<Rightarrow> nat \<Rightarrow> 'v pc \<Rightarrow> 'v machine \<Rightarrow> 'v machine option" where
  "acquire_then i c q s =
     (if writer_lock (the_cell c s) = None then Some (goto i q (set_lock c (Some i) s)) else None)"

definition no_slot :: "'v rkind \<Rightarrow> nat \<Rightarrow> 'v pc" where
  "no_slot k c = (case k of ReadK \<Rightarrow> FbEnter c | LoadK keep \<Rightarrow> LockedLock k c)"

definition drop_ref :: "addr \<Rightarrow> 'v machine \<Rightarrow> 'v machine" where
  "drop_ref a s = (case arc_drop a s of None \<Rightarrow> s\<lparr>fault := True\<rparr> | Some s' \<Rightarrow> s')"

definition clone_ref :: "addr \<Rightarrow> 'v machine \<Rightarrow> 'v machine" where
  "clone_ref a s = (case arc_clone a s of None \<Rightarrow> s\<lparr>fault := True\<rparr> | Some s' \<Rightarrow> s')"

text \<open>\<open>SnapCell::protect\<close>: load, announce (in \<open>step_pin\<close>), then validate or announce again.\<close>

definition step_protect :: "nat \<Rightarrow> 'v machine \<Rightarrow> 'v machine option" where
  "step_protect i s =
     (case pc (thr i s) of
        LoadCurrent k c \<Rightarrow> Some (goto i (PinTls k c (current (the_cell c s))) s)
      | Validate k c pn p \<Rightarrow>
          (let q = current (the_cell c s)
           in if q = p then
                (case k of
                   ReadK \<Rightarrow> Some (put_thr i ((thr i s)\<lparr>stack := Hz c pn p (stamps s p) # stack (thr i s),
                                                     pc := Idle\<rparr>) s)
                 | LoadK keep \<Rightarrow> Some (goto i (LoadKeep keep c pn p (stamps s p)) s))
              else Some (goto i (Reannounce k c pn p q) s))
      | Reannounce k c pn p q \<Rightarrow> Some (goto i (Validate k c pn q) (s\<lparr>haz := Pin_protect pn q (haz s)\<rparr>))
      | _ \<Rightarrow> None)"

text \<open>\<open>hazard::pin\<close>: claim the thread's record on first use, then the first free slot.\<close>

definition step_pin :: "nat \<Rightarrow> 'v machine \<Rightarrow> 'v machine option" where
  "step_pin i s =
     (case pc (thr i s) of
        PinTls k c p \<Rightarrow>
          (if \<not> local_alive (tls (thr i s)) then Some (goto i (no_slot k c) s)
           else if local_record (tls (thr i s)) = null
           then Some (goto i (ReuseScan k c p (HEAD (haz s)) null) s)
           else Some (goto i (PinSlot k c p) s))
      | PinSlot k c p \<Rightarrow>
          (let r = local_record (tls (thr i s))
           in case free_slot r (haz s) of
                None \<Rightarrow> Some (goto i (no_slot k c) s)
              | Some j \<Rightarrow> Some (goto i (Validate k c (r, j) p) (s\<lparr>haz := Pin_protect (r, j) p (haz s)\<rparr>)))
      | _ \<Rightarrow> None)"

definition claim_record :: "nat \<Rightarrow> rptr \<Rightarrow> 'v pc \<Rightarrow> 'v machine \<Rightarrow> 'v machine" where
  "claim_record i r q s =
     put_thr i ((thr i s)\<lparr>tls := (tls (thr i s))\<lparr>local_record := r\<rparr>, pc := q\<rparr>) s"

text \<open>\<open>acquire_record\<close>: the reuse scan over the list, else the push of a fresh record.\<close>

definition step_acquire :: "nat \<Rightarrow> bool \<Rightarrow> 'v machine \<Rightarrow> 'v machine option" where
  "step_acquire i spurious s =
     (case pc (thr i s) of
        ReuseScan k c p r reused \<Rightarrow>
          (if r = null then
             if reused \<noteq> null then Some (claim_record i reused (PinSlot k c p) s)
             else (let (raw, h) = leak_record (haz s)
                   in Some (goto i (PushHead k c p raw) (s\<lparr>haz := h\<rparr>)))
           else if reused = null \<and> \<not> in_use (record_at (haz s) r)
           then Some (goto i (ReuseScan k c p (next_rec (record_at (haz s) r)) r)
                       (s\<lparr>haz := set_in_use r True (haz s)\<rparr>))
           else Some (goto i (ReuseScan k c p (next_rec (record_at (haz s) r)) reused) s))
      | PushHead k c p raw \<Rightarrow> Some (goto i (PushCas k c p raw (HEAD (haz s))) s)
      | PushCas k c p raw head \<Rightarrow>
          (let h1 = set_next raw head (haz s)
           in if HEAD h1 = head \<and> \<not> spurious
              then Some (claim_record i raw (PinSlot k c p) (s\<lparr>haz := h1\<lparr>HEAD := raw\<rparr>\<rparr>))
              else Some (goto i (PushCas k c p raw (HEAD h1)) (s\<lparr>haz := h1\<rparr>)))
      | _ \<Rightarrow> None)"

text \<open>\<open>SnapCell::release\<close> and the \<open>try_lock\<close> of \<open>try_reclaim\<close>.\<close>

definition step_release :: "nat \<Rightarrow> 'v machine \<Rightarrow> 'v machine option" where
  "step_release i s =
     (case pc (thr i s) of
        Release c pn p \<Rightarrow> Some (goto i (ReleaseCheck c) (s\<lparr>haz := Pin_drop pn (haz s)\<rparr>))
      | ReleaseCheck c \<Rightarrow>
          Some (goto i (if retired_len (the_cell c s) \<noteq> 0 then TryLock c else Idle) s)
      | TryLock c \<Rightarrow>
          (case acquire_then i c (ScanHead c) s of Some s' \<Rightarrow> Some s' | None \<Rightarrow> Some (goto i Idle s))
      | _ \<Rightarrow> None)"

text \<open>\<open>collect_unprotected\<close>: the scan of every slot (\<open>hazard::announced\<close>), then the sweep.\<close>

definition step_collect :: "nat \<Rightarrow> 'v machine \<Rightarrow> 'v machine option" where
  "step_collect i s =
     (case pc (thr i s) of
        ScanHead c \<Rightarrow>
          Some (goto i (if retired (the_cell c s) = [] then StoreLen c [] else Scan c (HEAD (haz s)) 0 []) s)
      | Scan c r j acc \<Rightarrow>
          (if r = null then Some (goto i (Sweep c acc) s)
           else if j < SLOTS
           then (let p = load_slot (haz s) (r, j)
                 in Some (goto i (Scan c r (Suc j) (if p \<noteq> null then acc @ [p] else acc)) s))
           else Some (goto i (Scan c (next_rec (record_at (haz s) r)) 0 acc) s))
      | Sweep c acc \<Rightarrow>
          (let (kept, freed) = collect_loop acc (retired (the_cell c s)) 0 []
           in Some (goto i (StoreLen c freed) (put_cell c ((the_cell c s)\<lparr>retired := kept\<rparr>) s)))
      | StoreLen c freed \<Rightarrow>
          Some (goto i (Unlock c freed)
            (put_cell c ((the_cell c s)\<lparr>retired_len := length (retired (the_cell c s))\<rparr>) s))
      | Unlock c freed \<Rightarrow> Some (goto i (DropFreed freed) (set_lock c None s))
      | DropFreed freed \<Rightarrow>
          (case freed of
             [] \<Rightarrow> Some (goto i Idle s)
           | a # as \<Rightarrow> Some (goto i (DropFreed as) (drop_ref a s)))
      | _ \<Rightarrow> None)"

text \<open>\<open>SnapCell::load_arc_if\<close> once the pointer is validated.\<close>

definition step_load :: "nat \<Rightarrow> 'v machine \<Rightarrow> 'v machine option" where
  "step_load i s =
     (case pc (thr i s) of
        LoadKeep keep c pn p g \<Rightarrow>
          (case heap s p of
             None \<Rightarrow> Some (s\<lparr>fault := True\<rparr>)
           | Some x \<Rightarrow> Some (goto i (if keep (arc_val x) then LoadInc c pn p g else Release c pn p) s))
      | LoadInc c pn p g \<Rightarrow> Some (goto i (Release c pn p) ((clone_ref p s)\<lparr>pool := p # pool s\<rparr>))
      | _ \<Rightarrow> None)"

text \<open>\<open>load_arc_locked\<close>, and \<open>read_fallback\<close> around it.\<close>

definition step_fallback :: "nat \<Rightarrow> 'v machine \<Rightarrow> 'v machine option" where
  "step_fallback i s =
     (case pc (thr i s) of
        FbEnter c \<Rightarrow>
          Some (put_thr i ((thr i s)\<lparr>depth := usize_saturating_add (depth (thr i s)) 1, pc := LockedLock ReadK c\<rparr>)
            (put_cell c ((the_cell c s)\<lparr>fallback_readers := fallback_readers (the_cell c s) + 1\<rparr>) s))
      | LockedLock k c \<Rightarrow> acquire_then i c (LockedClone k c) s
      | LockedClone k c \<Rightarrow>
          (let raw = current (the_cell c s)
           in Some (goto i (LockedUnlock k c raw (stamps s raw)) (clone_ref raw s)))
      | LockedUnlock k c a g \<Rightarrow>
          (case k of
             ReadK \<Rightarrow> Some (put_thr i ((thr i s)\<lparr>stack := Fb c a g # stack (thr i s), pc := Idle\<rparr>) (set_lock c None s))
           | LoadK keep \<Rightarrow> Some (goto i (LockedKeep keep a) (set_lock c None s)))
      | LockedKeep keep a \<Rightarrow>
          (case heap s a of
             None \<Rightarrow> Some (s\<lparr>fault := True\<rparr>)
           | Some x \<Rightarrow> if keep (arc_val x) then Some (goto i Idle (s\<lparr>pool := a # pool s\<rparr>))
                       else Some (goto i (DropArc a) s))
      | FbDropArc c a \<Rightarrow> Some (goto i (FbLeave c) (drop_ref a s))
      | FbLeave c \<Rightarrow>
          Some (put_thr i ((thr i s)\<lparr>depth := usize_saturating_sub (depth (thr i s)) 1, pc := Idle\<rparr>)
            (put_cell c ((the_cell c s)\<lparr>fallback_readers := fallback_readers (the_cell c s) - 1\<rparr>) s))
      | DropArc a \<Rightarrow> Some (goto i Idle (drop_ref a s))
      | _ \<Rightarrow> None)"

text \<open>\<open>SnapCell::update\<close>: under the lock, run the closure, install, retire; then collect.\<close>

definition step_update :: "nat \<Rightarrow> addr \<Rightarrow> 'v machine \<Rightarrow> 'v machine option" where
  "step_update i a s =
     (case pc (thr i s) of
        UpdLock c f \<Rightarrow> acquire_then i c (UpdRun c f) s
      | UpdRun c f \<Rightarrow>
          (let raw = current (the_cell c s)
           in case heap s raw of
                None \<Rightarrow> Some (s\<lparr>fault := True\<rparr>)
              | Some x \<Rightarrow>
                  (case f (arc_val x) of
                     None \<Rightarrow> Some (goto i (Unlock c []) s)
                   | Some v \<Rightarrow>
                       if a \<noteq> null \<and> heap s a = None
                       then Some (goto i (UpdStore c raw a)
                              ((arc_new_at a v s)\<lparr>stamps := (stamps s)(a := clock s), clock := Suc (clock s)\<rparr>))
                       else None))
      | UpdStore c raw new \<Rightarrow>
          Some (goto i (ScanHead c)
            (put_cell c ((the_cell c s)\<lparr>current := new, retired := retired (the_cell c s) @ [raw]\<rparr>) s))
      | _ \<Rightarrow> None)"

text \<open>\<open>wait_for_retired_readers\<close>, with the scan of \<open>others_protect\<close>; a failed round starts again.\<close>

definition step_wait :: "nat \<Rightarrow> 'v machine \<Rightarrow> 'v machine option" where
  "step_wait i s =
     (case pc (thr i s) of
        WaitFb c cof b \<Rightarrow>
          Some (goto i (if cof \<or> fallback_readers (the_cell c s) = 0 then WaitLock c cof b else WaitFb c cof b) s)
      | WaitLock c cof b \<Rightarrow> acquire_then i c (WaitCopy c cof b) s
      | WaitCopy c cof b \<Rightarrow> Some (goto i (WaitNext c cof b (retired (the_cell c s))) (set_lock c None s))
      | WaitNext c cof b ps \<Rightarrow>
          (case ps of
             [] \<Rightarrow> Some (goto i Idle s)
           | p # ps' \<Rightarrow> Some (goto i (WaitScan c cof b p ps' (HEAD (haz s)) 0 False) s))
      | WaitScan c cof b p ps r j found \<Rightarrow>
          (if r = null then Some (goto i (if found then WaitFb c cof b else WaitNext c cof b ps) s)
           else if r = own_record (thr i s) \<or> SLOTS \<le> j
           then Some (goto i (WaitScan c cof b p ps (next_rec (record_at (haz s) r)) 0 found) s)
           else if load_slot (haz s) (r, j) = p
           then Some (goto i (WaitScan c cof b p ps r SLOTS True) s)
           else Some (goto i (WaitScan c cof b p ps r (Suc j) found) s))
      | _ \<Rightarrow> None)"

definition internal :: "nat \<Rightarrow> addr \<Rightarrow> 'v machine \<Rightarrow> 'v machine option" where
  "internal i a s =
     (case pc (thr i s) of
        Idle \<Rightarrow> None
      | LoadCurrent _ _ \<Rightarrow> step_protect i s | Validate _ _ _ _ \<Rightarrow> step_protect i s
      | Reannounce _ _ _ _ _ \<Rightarrow> step_protect i s
      | PinTls _ _ _ \<Rightarrow> step_pin i s | PinSlot _ _ _ \<Rightarrow> step_pin i s
      | ReuseScan _ _ _ _ _ \<Rightarrow> step_acquire i False s | PushHead _ _ _ _ \<Rightarrow> step_acquire i False s
      | PushCas _ _ _ _ _ \<Rightarrow> step_acquire i False s
      | Release _ _ _ \<Rightarrow> step_release i s | ReleaseCheck _ \<Rightarrow> step_release i s
      | TryLock _ \<Rightarrow> step_release i s
      | ScanHead _ \<Rightarrow> step_collect i s | Scan _ _ _ _ \<Rightarrow> step_collect i s | Sweep _ _ \<Rightarrow> step_collect i s
      | StoreLen _ _ \<Rightarrow> step_collect i s | Unlock _ _ \<Rightarrow> step_collect i s | DropFreed _ \<Rightarrow> step_collect i s
      | LoadKeep _ _ _ _ _ \<Rightarrow> step_load i s | LoadInc _ _ _ _ \<Rightarrow> step_load i s
      | FbEnter _ \<Rightarrow> step_fallback i s | LockedLock _ _ \<Rightarrow> step_fallback i s
      | LockedClone _ _ \<Rightarrow> step_fallback i s | LockedUnlock _ _ _ _ \<Rightarrow> step_fallback i s
      | LockedKeep _ _ \<Rightarrow> step_fallback i s | FbDropArc _ _ \<Rightarrow> step_fallback i s
      | FbLeave _ \<Rightarrow> step_fallback i s | DropArc _ \<Rightarrow> step_fallback i s
      | UpdLock _ _ \<Rightarrow> step_update i a s | UpdRun _ _ \<Rightarrow> step_update i a s
      | UpdStore _ _ _ \<Rightarrow> step_update i a s
      | WaitFb _ _ _ \<Rightarrow> step_wait i s | WaitLock _ _ _ \<Rightarrow> step_wait i s | WaitCopy _ _ _ \<Rightarrow> step_wait i s
      | WaitNext _ _ _ _ \<Rightarrow> step_wait i s | WaitScan _ _ _ _ _ _ _ _ \<Rightarrow> step_wait i s)"

text \<open>What a thread may do between the steps of the module: start a call, use or end a read.\<close>

definition user :: "nat \<Rightarrow> 'v label \<Rightarrow> 'v machine \<Rightarrow> 'v machine option" where
  "user i l s =
     (case pc (thr i s) of Idle \<Rightarrow>
       (case l of
        StartRead c \<Rightarrow> if c < length (cells s) then Some (goto i (LoadCurrent ReadK c) s) else None
      | StartLoad c keep \<Rightarrow>
          if c < length (cells s) then Some (goto i (LoadCurrent (LoadK keep) c) s) else None
      | StartUpdate c f \<Rightarrow> if c < length (cells s) then Some (goto i (UpdLock c f) s) else None
      | StartWait c \<Rightarrow>
          if c < length (cells s)
          then Some (goto i (WaitFb c (0 < depth (thr i s)) (stamps s (current (the_cell c s)))) s) else None
      | Touch k \<Rightarrow>
          if k < length (stack (thr i s))
          then (case stack (thr i s) ! k of
                  Hz c pn p g \<Rightarrow> Some (if heap s p = None then s\<lparr>fault := True\<rparr> else s)
                | Fb c p g \<Rightarrow> Some (if heap s p = None then s\<lparr>fault := True\<rparr> else s))
          else None
      | EndRead \<Rightarrow>
          (case stack (thr i s) of
             [] \<Rightarrow> None
           | Hz c pn p g # fs \<Rightarrow> Some (put_thr i ((thr i s)\<lparr>stack := fs, pc := Release c pn p\<rparr>) s)
           | Fb c p g # fs \<Rightarrow> Some (put_thr i ((thr i s)\<lparr>stack := fs, pc := FbDropArc c p\<rparr>) s))
      | UnwindRead \<Rightarrow>
          (case stack (thr i s) of
             [] \<Rightarrow> None
           | Hz c pn p g # fs \<Rightarrow>
               Some (put_thr i ((thr i s)\<lparr>stack := fs\<rparr>) (s\<lparr>haz := Pin_drop pn (haz s)\<rparr>))
           | Fb c p g # fs \<Rightarrow> Some (put_thr i ((thr i s)\<lparr>stack := fs, pc := FbDropArc c p\<rparr>) s))
      | DropPool k \<Rightarrow>
          if k < length (pool s)
          then Some (goto i (DropArc (pool s ! k)) (s\<lparr>pool := take k (pool s) @ drop (Suc k) (pool s)\<rparr>))
          else None
      | ThreadExit \<Rightarrow>
          if stack (thr i s) = [] \<and> local_alive (tls (thr i s))
          then (let (l, h) = Local_drop (tls (thr i s)) (haz s)
                in Some (put_thr i ((thr i s)\<lparr>tls := l\<rparr>) (s\<lparr>haz := h\<rparr>)))
          else None
      | _ \<Rightarrow> None)
      | _ \<Rightarrow> None)"

definition mstep :: "nat \<Rightarrow> 'v label \<Rightarrow> 'v machine \<Rightarrow> 'v machine option" where
  "mstep i l s =
     (if i < length (threads s) then
        (case l of
           Internal a \<Rightarrow> internal i a s
         | Spurious \<Rightarrow> (case pc (thr i s) of PushCas _ _ _ _ _ \<Rightarrow> step_acquire i True s | _ \<Rightarrow> None)
         | _ \<Rightarrow> user i l s)
      else None)"

fun mrun :: "(nat \<times> 'v label) list \<Rightarrow> 'v machine \<Rightarrow> 'v machine option" where
  "mrun [] s = Some s"
| "mrun ((i, l) # ls) s = do { s' \<leftarrow> mstep i l s; mrun ls s' }"

text \<open>\<open>steps i k a\<close>: thread \<open>i\<close> runs on for \<open>k\<close> steps; an allocation takes address \<open>a\<close>.\<close>

definition steps :: "nat \<Rightarrow> nat \<Rightarrow> addr \<Rightarrow> (nat \<times> 'v label) list" where
  "steps i k a = replicate k (i, Internal a)"

definition idle :: "'v thread \<Rightarrow> bool" where
  "idle t = (case pc t of Idle \<Rightarrow> True | _ \<Rightarrow> False)"

definition init_cell :: "addr \<Rightarrow> cell" where
  "init_cell a = \<lparr>current = a, retired_len = 0, fallback_readers = 0, writer_lock = None, retired = []\<rparr>"

definition init_thread :: "'v thread" where
  "init_thread = \<lparr>tls = new_local, depth = 0, stack = [], pc = Idle\<rparr>"

definition init_machine :: "nat \<Rightarrow> 'v list \<Rightarrow> 'v machine" where
  "init_machine n vs =
     \<lparr>haz = empty_domain,
      heap = (\<lambda>a. if 1 \<le> a \<and> a \<le> length vs then Some \<lparr>strong = 1, arc_val = vs ! (a - 1)\<rparr> else None),
      heap_brk = Suc (length vs),
      cells = map init_cell [1..<Suc (length vs)],
      threads = replicate n init_thread, pool = [], stamps = (\<lambda>_. 0), clock = 1, fault = False\<rparr>"

inductive reachable :: "nat \<Rightarrow> 'v list \<Rightarrow> 'v machine \<Rightarrow> bool" for n vs where
  start: "reachable n vs (init_machine n vs)"
| step: "reachable n vs s \<Longrightarrow> mstep i l s = Some s' \<Longrightarrow> reachable n vs s'"

lemma idle_iff: "idle t \<longleftrightarrow> pc t = Idle"
  by (simp add: idle_def split: pc.splits)

lemma reachable_mrun: "reachable n vs s \<Longrightarrow> mrun ls s = Some s' \<Longrightarrow> reachable n vs s'"
proof (induction ls arbitrary: s)
  case (Cons kl ls)
  then show ?case by (cases kl) (auto simp: bind_eq_Some_conv intro: reachable.step)
qed simp

lemmas reachable_run = reachable_mrun [OF reachable.start]

end
