(* ===== verification/SnapViews.thy ===== *)
theory SnapViews
  imports SnapMachine
begin

text \<open>
  What a thread of the interleaving model contributes to the shared state, as functions
  of its program counter and stack: the announcements it holds, the record it owns, the
  lock it is inside of, the references it owns, the fallback reads it is counted for. The
  invariants of the machine are stated over these views, one concern at a time:

  \<^item> \<open>rec_inv\<close>: the hazard records (the list is well formed, every record has at most one owner, a
    record's slots hold exactly its owner's announcements);
  \<^item> \<open>lock_inv\<close>: the writer lock of a cell is held by the thread whose counter is inside it;
  \<^item> \<open>mem_inv\<close>: the reference count of every allocation is the number of its owners;
  \<^item> \<open>ref_inv\<close>: an announced and validated pointer is current or retired in its cell;
  \<^item> \<open>scan_inv\<close>: a collector that is scanning has seen, or will see, every validated announcement
    of a pointer it could free;
  \<^item> \<open>wait_inv\<close>: a waiter has seen, or will see, every older read of its cell;
  \<^item> \<open>fb_inv\<close>: the fallback counter is the number of fallback reads.
\<close>

section \<open>Views of a thread\<close>

fun frame_cell :: "frame \<Rightarrow> nat" where
  "frame_cell (Hz c pn p g) = c"
| "frame_cell (Fb c a g) = c"

fun frame_pins :: "frame \<Rightarrow> (slot_ref \<times> addr) list" where
  "frame_pins (Hz c pn p g) = [(pn, p)]"
| "frame_pins (Fb c a g) = []"

fun frame_reads :: "frame \<Rightarrow> (nat \<times> addr \<times> nat \<times> slot_ref) list" where
  "frame_reads (Hz c pn p g) = [(c, p, g, pn)]"
| "frame_reads (Fb c a g) = []"

fun frame_own :: "frame \<Rightarrow> addr list" where
  "frame_own (Hz c pn p g) = []"
| "frame_own (Fb c a g) = [a]"

fun frame_fb :: "frame \<Rightarrow> (nat \<times> addr \<times> nat) list" where
  "frame_fb (Hz c pn p g) = []"
| "frame_fb (Fb c a g) = [(c, a, g)]"

definition pc_pins :: "'v pc \<Rightarrow> (slot_ref \<times> addr) list" where
  "pc_pins q = (case q of
     Validate k c pn p \<Rightarrow> [(pn, p)] | Reannounce k c pn p p' \<Rightarrow> [(pn, p)]
   | LoadKeep keep c pn p g \<Rightarrow> [(pn, p)] | LoadInc c pn p g \<Rightarrow> [(pn, p)]
   | Release c pn p \<Rightarrow> [(pn, p)] | _ \<Rightarrow> [])"

definition pc_reads :: "'v pc \<Rightarrow> (nat \<times> addr \<times> nat \<times> slot_ref) list" where
  "pc_reads q = (case q of
     LoadKeep keep c pn p g \<Rightarrow> [(c, p, g, pn)] | LoadInc c pn p g \<Rightarrow> [(c, p, g, pn)] | _ \<Rightarrow> [])"

definition pc_rec :: "'v pc \<Rightarrow> rptr" where
  "pc_rec q = (case q of
     ReuseScan k c p r reused \<Rightarrow> reused | PushHead k c p raw \<Rightarrow> raw | PushCas k c p raw h \<Rightarrow> raw
   | _ \<Rightarrow> null)"

definition pc_raw :: "'v pc \<Rightarrow> rptr option" where
  "pc_raw q = (case q of PushHead k c p raw \<Rightarrow> Some raw | PushCas k c p raw h \<Rightarrow> Some raw | _ \<Rightarrow> None)"

definition pc_cursor :: "'v pc \<Rightarrow> rptr" where
  "pc_cursor q = (case q of
     ReuseScan k c p r reused \<Rightarrow> r | Scan c r j acc \<Rightarrow> r | WaitScan c cof b p ps r j found \<Rightarrow> r | _ \<Rightarrow> null)"

definition pc_crit :: "'v pc \<Rightarrow> nat option" where
  "pc_crit q = (case q of
     ScanHead c \<Rightarrow> Some c | Scan c r j acc \<Rightarrow> Some c | Sweep c acc \<Rightarrow> Some c | StoreLen c freed \<Rightarrow> Some c
   | Unlock c freed \<Rightarrow> Some c | LockedClone k c \<Rightarrow> Some c | LockedUnlock k c a g \<Rightarrow> Some c
   | UpdRun c f \<Rightarrow> Some c | UpdStore c raw new \<Rightarrow> Some c | WaitCopy c cof b \<Rightarrow> Some c | _ \<Rightarrow> None)"

definition pc_own :: "'v pc \<Rightarrow> addr list" where
  "pc_own q = (case q of
     StoreLen c freed \<Rightarrow> freed | Unlock c freed \<Rightarrow> freed | DropFreed freed \<Rightarrow> freed
   | LockedUnlock k c a g \<Rightarrow> [a] | LockedKeep keep a \<Rightarrow> [a] | FbDropArc c a \<Rightarrow> [a] | DropArc a \<Rightarrow> [a]
   | UpdStore c raw new \<Rightarrow> [new] | _ \<Rightarrow> [])"

definition pc_new :: "'v pc \<Rightarrow> addr list" where
  "pc_new q = (case q of UpdStore c raw new \<Rightarrow> [new] | _ \<Rightarrow> [])"

definition pc_fb :: "'v pc \<Rightarrow> nat list" where
  "pc_fb q = (case q of
     LockedLock k c \<Rightarrow> (case k of ReadK \<Rightarrow> [c] | _ \<Rightarrow> []) | LockedClone k c \<Rightarrow> (case k of ReadK \<Rightarrow> [c] | _ \<Rightarrow> [])
   | LockedUnlock k c a g \<Rightarrow> (case k of ReadK \<Rightarrow> [c] | _ \<Rightarrow> [])
   | FbDropArc c a \<Rightarrow> [c] | FbLeave c \<Rightarrow> [c] | _ \<Rightarrow> [])"

definition pc_fbread :: "'v pc \<Rightarrow> (nat \<times> addr \<times> nat) list" where
  "pc_fbread q = (case q of LockedUnlock k c a g \<Rightarrow> (case k of ReadK \<Rightarrow> [(c, a, g)] | _ \<Rightarrow> []) | _ \<Rightarrow> [])"

definition pc_ptr :: "'v pc \<Rightarrow> addr list" where
  "pc_ptr q = (case q of
     PinTls k c p \<Rightarrow> [p] | ReuseScan k c p r reused \<Rightarrow> [p] | PushHead k c p raw \<Rightarrow> [p]
   | PushCas k c p raw h \<Rightarrow> [p] | PinSlot k c p \<Rightarrow> [p] | Reannounce k c pn p p' \<Rightarrow> [p'] | _ \<Rightarrow> [])"

definition pc_cells :: "'v pc \<Rightarrow> nat list" where
  "pc_cells q = (case q of
     Idle \<Rightarrow> [] | LoadCurrent k c \<Rightarrow> [c] | PinTls k c p \<Rightarrow> [c] | ReuseScan k c p r reused \<Rightarrow> [c]
   | PushHead k c p raw \<Rightarrow> [c] | PushCas k c p raw h \<Rightarrow> [c] | PinSlot k c p \<Rightarrow> [c]
   | Validate k c pn p \<Rightarrow> [c] | Reannounce k c pn p p' \<Rightarrow> [c] | LoadKeep keep c pn p g \<Rightarrow> [c]
   | LoadInc c pn p g \<Rightarrow> [c] | Release c pn p \<Rightarrow> [c] | ReleaseCheck c \<Rightarrow> [c] | TryLock c \<Rightarrow> [c]
   | ScanHead c \<Rightarrow> [c] | Scan c r j acc \<Rightarrow> [c] | Sweep c acc \<Rightarrow> [c] | StoreLen c freed \<Rightarrow> [c]
   | Unlock c freed \<Rightarrow> [c] | DropFreed freed \<Rightarrow> [] | FbEnter c \<Rightarrow> [c] | LockedLock k c \<Rightarrow> [c]
   | LockedClone k c \<Rightarrow> [c] | LockedUnlock k c a g \<Rightarrow> [c] | LockedKeep keep a \<Rightarrow> [] | FbDropArc c a \<Rightarrow> [c]
   | FbLeave c \<Rightarrow> [c] | DropArc a \<Rightarrow> [] | UpdLock c f \<Rightarrow> [c] | UpdRun c f \<Rightarrow> [c] | UpdStore c raw new \<Rightarrow> [c]
   | WaitFb c cof b \<Rightarrow> [c] | WaitLock c cof b \<Rightarrow> [c] | WaitCopy c cof b \<Rightarrow> [c] | WaitNext c cof b ps \<Rightarrow> [c]
   | WaitScan c cof b p ps r j found \<Rightarrow> [c])"

definition pins :: "'v thread \<Rightarrow> (slot_ref \<times> addr) list" where
  "pins t = pc_pins (pc t) @ concat (map frame_pins (stack t))"

definition reads :: "'v thread \<Rightarrow> (nat \<times> addr \<times> nat \<times> slot_ref) list" where
  "reads t = pc_reads (pc t) @ concat (map frame_reads (stack t))"

definition owns :: "'v thread \<Rightarrow> addr list" where
  "owns t = pc_own (pc t) @ concat (map frame_own (stack t))"

definition fb_cells :: "'v thread \<Rightarrow> nat list" where
  "fb_cells t = pc_fb (pc t) @ map fst (concat (map frame_fb (stack t)))"

definition fb_reads :: "'v thread \<Rightarrow> (nat \<times> addr \<times> nat) list" where
  "fb_reads t = pc_fbread (pc t) @ concat (map frame_fb (stack t))"

definition rec_of :: "'v thread \<Rightarrow> rptr" where
  "rec_of t = (if own_record t \<noteq> null then own_record t else pc_rec (pc t))"

definition pin_at :: "'v thread \<Rightarrow> nat \<Rightarrow> addr" where
  "pin_at t j = (case map_of (map (\<lambda>((r, j), p). (j, p)) (pins t)) j of None \<Rightarrow> null | Some p \<Rightarrow> p)"

lemmas view_defs = pc_pins_def pc_reads_def pc_rec_def pc_raw_def pc_cursor_def pc_crit_def pc_own_def
  pc_new_def pc_fb_def pc_fbread_def pc_ptr_def pc_cells_def

section \<open>Local well-formedness\<close>

text \<open>The state of \<open>LOCAL\<close> that each part of \<open>pin\<close> relies on.\<close>

definition tls_ok :: "'v thread \<Rightarrow> bool" where
  "tls_ok t = (case pc t of
     ReuseScan k c p r reused \<Rightarrow> local_alive (tls t) \<and> local_record (tls t) = null
   | PushHead k c p raw \<Rightarrow> local_alive (tls t) \<and> local_record (tls t) = null
   | PushCas k c p raw h \<Rightarrow> local_alive (tls t) \<and> local_record (tls t) = null
   | PinSlot k c p \<Rightarrow> local_alive (tls t) \<and> local_record (tls t) \<noteq> null
   | _ \<Rightarrow> True)"

definition cells_ok :: "'v machine \<Rightarrow> bool" where
  "cells_ok s \<longleftrightarrow> (\<forall>t\<in>set (threads s).
     (\<forall>c\<in>set (pc_cells (pc t)). c < length (cells s)) \<and> (\<forall>f\<in>set (stack t). frame_cell f < length (cells s)))"

section \<open>The transitions, one rule per branch\<close>

text \<open>
  Every step of the machine, split into the branches of its atomic access. The proofs
  about steps go by cases over these rules.
\<close>

inductive tr :: "nat \<Rightarrow> 'v machine \<Rightarrow> 'v machine \<Rightarrow> bool" for i :: nat and s :: "'v machine" where
  start_read: "pc (thr i s) = Idle \<Longrightarrow> c < length (cells s) \<Longrightarrow> tr i s (goto i (LoadCurrent k c) s)"
| start_update: "pc (thr i s) = Idle \<Longrightarrow> c < length (cells s) \<Longrightarrow> tr i s (goto i (UpdLock c f) s)"
| start_wait: "pc (thr i s) = Idle \<Longrightarrow> c < length (cells s) \<Longrightarrow>
    tr i s (goto i (WaitFb c (0 < depth (thr i s)) (stamps s (current (the_cell c s)))) s)"
| touch: "pc (thr i s) = Idle \<Longrightarrow> f \<in> set (stack (thr i s)) \<Longrightarrow>
    f = Hz c pn p g \<or> f = Fb c p g \<Longrightarrow> heap s p \<noteq> None \<Longrightarrow> tr i s s"
| touch_fault: "pc (thr i s) = Idle \<Longrightarrow> f \<in> set (stack (thr i s)) \<Longrightarrow>
    f = Hz c pn p g \<or> f = Fb c p g \<Longrightarrow> heap s p = None \<Longrightarrow> tr i s (s\<lparr>fault := True\<rparr>)"
| end_hz: "pc (thr i s) = Idle \<Longrightarrow> stack (thr i s) = Hz c pn p g # fs \<Longrightarrow>
    tr i s (put_thr i ((thr i s)\<lparr>stack := fs, pc := Release c pn p\<rparr>) s)"
| end_fb: "pc (thr i s) = Idle \<Longrightarrow> stack (thr i s) = Fb c p g # fs \<Longrightarrow>
    tr i s (put_thr i ((thr i s)\<lparr>stack := fs, pc := FbDropArc c p\<rparr>) s)"
| unwind_hz: "pc (thr i s) = Idle \<Longrightarrow> stack (thr i s) = Hz c pn p g # fs \<Longrightarrow>
    tr i s (put_thr i ((thr i s)\<lparr>stack := fs\<rparr>) (s\<lparr>haz := store_slot pn null (haz s)\<rparr>))"
| drop_pool: "pc (thr i s) = Idle \<Longrightarrow> k < length (pool s) \<Longrightarrow>
    tr i s (goto i (DropArc (pool s ! k)) (s\<lparr>pool := take k (pool s) @ drop (Suc k) (pool s)\<rparr>))"
| exit: "pc (thr i s) = Idle \<Longrightarrow> stack (thr i s) = [] \<Longrightarrow> local_alive (tls (thr i s)) \<Longrightarrow>
    tr i s (put_thr i ((thr i s)\<lparr>tls := fst (Local_drop (tls (thr i s)) (haz s))\<rparr>)
      (s\<lparr>haz := snd (Local_drop (tls (thr i s)) (haz s))\<rparr>))"
| load_current: "pc (thr i s) = LoadCurrent k c \<Longrightarrow> tr i s (goto i (PinTls k c (current (the_cell c s))) s)"
| pin_dead: "pc (thr i s) = PinTls k c p \<Longrightarrow> tr i s (goto i (no_slot k c) s)"
| pin_first: "pc (thr i s) = PinTls k c p \<Longrightarrow> local_alive (tls (thr i s)) \<Longrightarrow> local_record (tls (thr i s)) = null \<Longrightarrow>
    tr i s (goto i (ReuseScan k c p (HEAD (haz s)) null) s)"
| pin_record: "pc (thr i s) = PinTls k c p \<Longrightarrow> local_alive (tls (thr i s)) \<Longrightarrow> local_record (tls (thr i s)) \<noteq> null \<Longrightarrow>
    tr i s (goto i (PinSlot k c p) s)"
| pin_full: "pc (thr i s) = PinSlot k c p \<Longrightarrow> tr i s (goto i (no_slot k c) s)"
| pin_publish: "pc (thr i s) = PinSlot k c p \<Longrightarrow> r = local_record (tls (thr i s)) \<Longrightarrow> free_slot r (haz s) = Some j \<Longrightarrow>
    tr i s (goto i (Validate k c (r, j) p) (s\<lparr>haz := store_slot (r, j) p (haz s)\<rparr>))"
| reuse_claim: "pc (thr i s) = ReuseScan k c p null reused \<Longrightarrow> reused \<noteq> null \<Longrightarrow>
    tr i s (claim_record i reused (PinSlot k c p) s)"
| reuse_none: "pc (thr i s) = ReuseScan k c p null null \<Longrightarrow>
    tr i s (goto i (PushHead k c p (fst (leak_record (haz s)))) (s\<lparr>haz := snd (leak_record (haz s))\<rparr>))"
| reuse_cas: "pc (thr i s) = ReuseScan k c p r null \<Longrightarrow> r \<noteq> null \<Longrightarrow> \<not> in_use (record_at (haz s) r) \<Longrightarrow>
    tr i s (goto i (ReuseScan k c p (next_rec (record_at (haz s) r)) r) (s\<lparr>haz := set_in_use r True (haz s)\<rparr>))"
| reuse_next: "pc (thr i s) = ReuseScan k c p r reused \<Longrightarrow> r \<noteq> null \<Longrightarrow>
    tr i s (goto i (ReuseScan k c p (next_rec (record_at (haz s) r)) reused) s)"
| push_head: "pc (thr i s) = PushHead k c p raw \<Longrightarrow> tr i s (goto i (PushCas k c p raw (HEAD (haz s))) s)"
| push_ok: "pc (thr i s) = PushCas k c p raw (HEAD (haz s)) \<Longrightarrow>
    tr i s (claim_record i raw (PinSlot k c p) (s\<lparr>haz := (set_next raw (HEAD (haz s)) (haz s))\<lparr>HEAD := raw\<rparr>\<rparr>))"
| push_fail: "pc (thr i s) = PushCas k c p raw h \<Longrightarrow>
    tr i s (goto i (PushCas k c p raw (HEAD (haz s))) (s\<lparr>haz := set_next raw h (haz s)\<rparr>))"
| validate_read: "pc (thr i s) = Validate ReadK c pn p \<Longrightarrow> current (the_cell c s) = p \<Longrightarrow>
    tr i s (put_thr i ((thr i s)\<lparr>stack := Hz c pn p (stamps s p) # stack (thr i s), pc := Idle\<rparr>) s)"
| validate_load: "pc (thr i s) = Validate (LoadK keep) c pn p \<Longrightarrow> current (the_cell c s) = p \<Longrightarrow>
    tr i s (goto i (LoadKeep keep c pn p (stamps s p)) s)"
| validate_retry: "pc (thr i s) = Validate k c pn p \<Longrightarrow>
    tr i s (goto i (Reannounce k c pn p (current (the_cell c s))) s)"
| reannounce: "pc (thr i s) = Reannounce k c pn p q \<Longrightarrow>
    tr i s (goto i (Validate k c pn q) (s\<lparr>haz := store_slot pn q (haz s)\<rparr>))"
| load_fault: "pc (thr i s) = LoadKeep keep c pn p g \<Longrightarrow> heap s p = None \<Longrightarrow> tr i s (s\<lparr>fault := True\<rparr>)"
| load_keep: "pc (thr i s) = LoadKeep keep c pn p g \<Longrightarrow> tr i s (goto i (LoadInc c pn p g) s)"
| load_skip: "pc (thr i s) = LoadKeep keep c pn p g \<Longrightarrow> tr i s (goto i (Release c pn p) s)"
| load_inc: "pc (thr i s) = LoadInc c pn p g \<Longrightarrow>
    tr i s (goto i (Release c pn p) ((clone_ref p s)\<lparr>pool := p # pool s\<rparr>))"
| unpin: "pc (thr i s) = Release c pn p \<Longrightarrow>
    tr i s (goto i (ReleaseCheck c) (s\<lparr>haz := store_slot pn null (haz s)\<rparr>))"
| release_try: "pc (thr i s) = ReleaseCheck c \<Longrightarrow> tr i s (goto i (TryLock c) s)"
| release_done: "pc (thr i s) = ReleaseCheck c \<Longrightarrow> tr i s (goto i Idle s)"
| reclaim_busy: "pc (thr i s) = TryLock c \<Longrightarrow> tr i s (goto i Idle s)"
| reclaim_lock: "pc (thr i s) = TryLock c \<Longrightarrow> writer_lock (the_cell c s) = None \<Longrightarrow>
    tr i s (goto i (ScanHead c) (set_lock c (Some i) s))"
| locked_lock: "pc (thr i s) = LockedLock k c \<Longrightarrow> writer_lock (the_cell c s) = None \<Longrightarrow>
    tr i s (goto i (LockedClone k c) (set_lock c (Some i) s))"
| upd_lock: "pc (thr i s) = UpdLock c f \<Longrightarrow> writer_lock (the_cell c s) = None \<Longrightarrow>
    tr i s (goto i (UpdRun c f) (set_lock c (Some i) s))"
| wait_lock: "pc (thr i s) = WaitLock c cof b \<Longrightarrow> writer_lock (the_cell c s) = None \<Longrightarrow>
    tr i s (goto i (WaitCopy c cof b) (set_lock c (Some i) s))"
| scan_none: "pc (thr i s) = ScanHead c \<Longrightarrow> tr i s (goto i (StoreLen c []) s)"
| scan_head: "pc (thr i s) = ScanHead c \<Longrightarrow> tr i s (goto i (Scan c (HEAD (haz s)) 0 []) s)"
| scan_end: "pc (thr i s) = Scan c null j acc \<Longrightarrow> tr i s (goto i (Sweep c acc) s)"
| scan_seen: "pc (thr i s) = Scan c r j acc \<Longrightarrow> r \<noteq> null \<Longrightarrow> j < SLOTS \<Longrightarrow>
    p = load_slot (haz s) (r, j) \<Longrightarrow> p \<noteq> null \<Longrightarrow> tr i s (goto i (Scan c r (Suc j) (acc @ [p])) s)"
| scan_empty: "pc (thr i s) = Scan c r j acc \<Longrightarrow> r \<noteq> null \<Longrightarrow> j < SLOTS \<Longrightarrow>
    load_slot (haz s) (r, j) = null \<Longrightarrow> tr i s (goto i (Scan c r (Suc j) acc) s)"
| scan_next: "pc (thr i s) = Scan c r j acc \<Longrightarrow> r \<noteq> null \<Longrightarrow> SLOTS \<le> j \<Longrightarrow>
    tr i s (goto i (Scan c (next_rec (record_at (haz s) r)) 0 acc) s)"
| sweep: "pc (thr i s) = Sweep c acc \<Longrightarrow> collect_loop acc (retired (the_cell c s)) 0 [] = (kept, freed) \<Longrightarrow>
    tr i s (goto i (StoreLen c freed) (put_cell c ((the_cell c s)\<lparr>retired := kept\<rparr>) s))"
| store_len: "pc (thr i s) = StoreLen c freed \<Longrightarrow>
    tr i s (goto i (Unlock c freed) (put_cell c ((the_cell c s)\<lparr>retired_len := length (retired (the_cell c s))\<rparr>) s))"
| unlock: "pc (thr i s) = Unlock c freed \<Longrightarrow> tr i s (goto i (DropFreed freed) (set_lock c None s))"
| drop_done: "pc (thr i s) = DropFreed [] \<Longrightarrow> tr i s (goto i Idle s)"
| drop_one: "pc (thr i s) = DropFreed (a # as) \<Longrightarrow> tr i s (goto i (DropFreed as) (drop_ref a s))"
| fb_enter: "pc (thr i s) = FbEnter c \<Longrightarrow>
    tr i s (put_thr i ((thr i s)\<lparr>depth := d, pc := LockedLock ReadK c\<rparr>)
      (put_cell c ((the_cell c s)\<lparr>fallback_readers := Suc (fallback_readers (the_cell c s))\<rparr>) s))"
| locked_clone: "pc (thr i s) = LockedClone k c \<Longrightarrow> raw = current (the_cell c s) \<Longrightarrow>
    tr i s (goto i (LockedUnlock k c raw (stamps s raw)) (clone_ref raw s))"
| locked_read: "pc (thr i s) = LockedUnlock ReadK c a g \<Longrightarrow>
    tr i s (put_thr i ((thr i s)\<lparr>stack := Fb c a g # stack (thr i s), pc := Idle\<rparr>) (set_lock c None s))"
| locked_load: "pc (thr i s) = LockedUnlock (LoadK keep) c a g \<Longrightarrow>
    tr i s (goto i (LockedKeep keep a) (set_lock c None s))"
| locked_fault: "pc (thr i s) = LockedKeep keep a \<Longrightarrow> heap s a = None \<Longrightarrow> tr i s (s\<lparr>fault := True\<rparr>)"
| locked_keep: "pc (thr i s) = LockedKeep keep a \<Longrightarrow> tr i s (goto i Idle (s\<lparr>pool := a # pool s\<rparr>))"
| locked_skip: "pc (thr i s) = LockedKeep keep a \<Longrightarrow> tr i s (goto i (DropArc a) s)"
| fb_drop: "pc (thr i s) = FbDropArc c a \<Longrightarrow> tr i s (goto i (FbLeave c) (drop_ref a s))"
| fb_leave: "pc (thr i s) = FbLeave c \<Longrightarrow>
    tr i s (put_thr i ((thr i s)\<lparr>depth := d, pc := Idle\<rparr>)
      (put_cell c ((the_cell c s)\<lparr>fallback_readers := fallback_readers (the_cell c s) - Suc 0\<rparr>) s))"
| drop_arc: "pc (thr i s) = DropArc a \<Longrightarrow> tr i s (goto i Idle (drop_ref a s))"
| upd_fault: "pc (thr i s) = UpdRun c f \<Longrightarrow> heap s (current (the_cell c s)) = None \<Longrightarrow> tr i s (s\<lparr>fault := True\<rparr>)"
| upd_none: "pc (thr i s) = UpdRun c f \<Longrightarrow> tr i s (goto i (Unlock c []) s)"
| upd_new: "pc (thr i s) = UpdRun c f \<Longrightarrow> raw = current (the_cell c s) \<Longrightarrow> a \<noteq> null \<Longrightarrow> heap s a = None \<Longrightarrow>
    tr i s (goto i (UpdStore c raw a)
      ((arc_new_at a v s)\<lparr>stamps := (stamps s)(a := clock s), clock := Suc (clock s)\<rparr>))"
| upd_store: "pc (thr i s) = UpdStore c raw new \<Longrightarrow>
    tr i s (goto i (ScanHead c)
      (put_cell c ((the_cell c s)\<lparr>current := new, retired := retired (the_cell c s) @ [raw]\<rparr>) s))"
| wait_spin: "pc (thr i s) = WaitFb c cof b \<Longrightarrow> tr i s (goto i (WaitFb c cof b) s)"
| wait_fb: "pc (thr i s) = WaitFb c cof b \<Longrightarrow> cof \<or> fallback_readers (the_cell c s) = 0 \<Longrightarrow>
    tr i s (goto i (WaitLock c cof b) s)"
| wait_copy: "pc (thr i s) = WaitCopy c cof b \<Longrightarrow>
    tr i s (goto i (WaitNext c cof b (retired (the_cell c s))) (set_lock c None s))"
| wait_done: "pc (thr i s) = WaitNext c cof b [] \<Longrightarrow> tr i s (goto i Idle s)"
| wait_next: "pc (thr i s) = WaitNext c cof b (p # ps) \<Longrightarrow>
    tr i s (goto i (WaitScan c cof b p ps (HEAD (haz s)) 0 False) s)"
| wait_again: "pc (thr i s) = WaitScan c cof b p ps null j True \<Longrightarrow> tr i s (goto i (WaitFb c cof b) s)"
| wait_clear: "pc (thr i s) = WaitScan c cof b p ps null j False \<Longrightarrow> tr i s (goto i (WaitNext c cof b ps) s)"
| wait_skip: "pc (thr i s) = WaitScan c cof b p ps r j found \<Longrightarrow> r \<noteq> null \<Longrightarrow>
    r = own_record (thr i s) \<or> SLOTS \<le> j \<Longrightarrow>
    tr i s (goto i (WaitScan c cof b p ps (next_rec (record_at (haz s) r)) 0 found) s)"
| wait_hit: "pc (thr i s) = WaitScan c cof b p ps r j found \<Longrightarrow> r \<noteq> null \<Longrightarrow>
    tr i s (goto i (WaitScan c cof b p ps r SLOTS True) s)"
| wait_miss: "pc (thr i s) = WaitScan c cof b p ps r j found \<Longrightarrow> r \<noteq> null \<Longrightarrow> load_slot (haz s) (r, j) \<noteq> p \<Longrightarrow>
    tr i s (goto i (WaitScan c cof b p ps r (Suc j) found) s)"

lemma user_tr: "user i l s = Some s' \<Longrightarrow> tr i s s'"
  by (cases l; cases "pc (thr i s)")
     (auto simp: user_def Let_def split_beta Pin_drop_def split: if_splits list.splits frame.splits
       intro: tr.intros dest: nth_mem)

lemma acquire_then_eq:
  "acquire_then i c q s = Some s' \<longleftrightarrow> writer_lock (the_cell c s) = None \<and> s' = goto i q (set_lock c (Some i) s)"
  by (auto simp: acquire_then_def)

lemmas step_defs = internal_def step_protect_def step_pin_def step_acquire_def step_release_def step_collect_def
  step_load_def step_fallback_def step_update_def step_wait_def

lemma internal_tr: "internal i a s = Some s' \<Longrightarrow> tr i s s'"
  by (cases "pc (thr i s)")
     (auto simp: step_defs acquire_then_eq Let_def split_beta Pin_protect_def Pin_drop_def
       split: if_splits option.splits list.splits rkind.splits intro: tr.intros)

lemma mstep_tr: "mstep i l s = Some s' \<Longrightarrow> i < length (threads s) \<and> tr i s s'"
  by (auto simp: mstep_def step_acquire_def Let_def split: if_splits label.splits pc.splits
      intro: internal_tr user_tr push_fail)

section \<open>Initial state\<close>

lemma init_views [simp]:
  "pc init_thread = Idle" "stack init_thread = []" "tls init_thread = new_local"
  "pins init_thread = []" "reads init_thread = []" "owns init_thread = []" "fb_cells init_thread = []"
  "fb_reads init_thread = []" "rec_of init_thread = null" "own_record init_thread = null"
  by (simp_all add: init_thread_def pins_def reads_def owns_def fb_cells_def fb_reads_def rec_of_def
      own_record_def new_local_def view_defs)


end
