(* ===== verification/SnapHaz.thy ===== *)
theory SnapHaz
  imports SnapViews
begin

text \<open>
  The hazard records under interleaving: the record list stays well formed, every record
  has at most one owner, and the slots of a record hold exactly the announcements of
  its owner (\<open>rec_inv\<close>).
\<close>

section \<open>Projections of the machine's update functions\<close>

lemma put_thr_sel [simp]:
  "haz (put_thr i t s) = haz s" "heap (put_thr i t s) = heap s" "cells (put_thr i t s) = cells s"
  "threads (put_thr i t s) = (threads s)[i := t]" "pool (put_thr i t s) = pool s"
  "stamps (put_thr i t s) = stamps s" "clock (put_thr i t s) = clock s" "fault (put_thr i t s) = fault s"
  by (simp_all add: put_thr_def)

lemma goto_sel [simp]:
  "haz (goto i q s) = haz s" "heap (goto i q s) = heap s" "cells (goto i q s) = cells s"
  "threads (goto i q s) = (threads s)[i := (thr i s)\<lparr>pc := q\<rparr>]" "pool (goto i q s) = pool s"
  "stamps (goto i q s) = stamps s" "clock (goto i q s) = clock s" "fault (goto i q s) = fault s"
  by (simp_all add: goto_def)

lemma claim_record_sel [simp]:
  "haz (claim_record i r q s) = haz s" "heap (claim_record i r q s) = heap s"
  "cells (claim_record i r q s) = cells s"
  "threads (claim_record i r q s) =
     (threads s)[i := (thr i s)\<lparr>tls := (tls (thr i s))\<lparr>local_record := r\<rparr>, pc := q\<rparr>]"
  "pool (claim_record i r q s) = pool s" "stamps (claim_record i r q s) = stamps s"
  "clock (claim_record i r q s) = clock s" "fault (claim_record i r q s) = fault s"
  by (simp_all add: claim_record_def)

lemma set_lock_sel [simp]:
  "haz (set_lock c x s) = haz s" "heap (set_lock c x s) = heap s" "threads (set_lock c x s) = threads s"
  "pool (set_lock c x s) = pool s" "stamps (set_lock c x s) = stamps s" "clock (set_lock c x s) = clock s"
  "fault (set_lock c x s) = fault s"
  "cells (set_lock c x s) = (cells s)[c := (the_cell c s)\<lparr>writer_lock := x\<rparr>]"
  by (simp_all add: set_lock_def)

lemma drop_ref_sel [simp]:
  "haz (drop_ref a s) = haz s" "threads (drop_ref a s) = threads s" "cells (drop_ref a s) = cells s"
  "pool (drop_ref a s) = pool s" "stamps (drop_ref a s) = stamps s" "clock (drop_ref a s) = clock s"
  by (simp_all add: drop_ref_def arc_drop_def split: option.splits)

lemma clone_ref_sel [simp]:
  "haz (clone_ref a s) = haz s" "threads (clone_ref a s) = threads s" "cells (clone_ref a s) = cells s"
  "pool (clone_ref a s) = pool s" "stamps (clone_ref a s) = stamps s" "clock (clone_ref a s) = clock s"
  by (simp_all add: clone_ref_def arc_clone_def split: option.splits)

lemma arc_new_at_sel [simp]:
  "haz (arc_new_at a v s) = haz s" "threads (arc_new_at a v s) = threads s" "cells (arc_new_at a v s) = cells s"
  "pool (arc_new_at a v s) = pool s" "stamps (arc_new_at a v s) = stamps s" "clock (arc_new_at a v s) = clock s"
  "fault (arc_new_at a v s) = fault s"
  by (simp_all add: arc_new_at_def)

lemma tr_threads:
  assumes "tr i s s'" obtains t' where "threads s' = (threads s)[i := t']"
  using assms by cases (auto intro: that that [of "thr i s"])

section \<open>The invariant\<close>

definition pins_ok :: "'v thread \<Rightarrow> bool" where
  "pins_ok t \<longleftrightarrow> distinct (map (snd \<circ> fst) (pins t)) \<and>
     (\<forall>x\<in>set (pins t). fst (fst x) = own_record t \<and> own_record t \<noteq> null \<and> snd (fst x) < SLOTS \<and> snd x \<noteq> null)"

definition pc_rec_ok :: "hazard_domain \<Rightarrow> 'v pc \<Rightarrow> bool" where
  "pc_rec_ok h q \<longleftrightarrow> pc_cursor q \<in> insert null (published h) \<and>
     (case pc_raw q of Some raw \<Rightarrow> raw \<noteq> null \<and> raw \<notin> published h
      | None \<Rightarrow> pc_rec q \<in> insert null (published h)) \<and>
     (\<forall>p\<in>set (pc_ptr q). p \<noteq> null)"

definition rec_ok :: "hazard_domain \<Rightarrow> 'v thread \<Rightarrow> bool" where
  "rec_ok h t \<longleftrightarrow>
     (rec_of t \<noteq> null \<longrightarrow> rec_of t \<le> n_records h \<and> in_use (record_at h (rec_of t)) \<and>
        (\<forall>j<SLOTS. slots (record_at h (rec_of t)) j = pin_at t j)) \<and>
     (own_record t \<noteq> null \<longrightarrow> own_record t \<in> published h) \<and> pins_ok t \<and> tls_ok t \<and> pc_rec_ok h (pc t)"

definition free_ok :: "hazard_domain \<Rightarrow> rptr \<Rightarrow> bool" where
  "free_ok h r \<longleftrightarrow> \<not> in_use (record_at h r) \<and> (\<forall>j<SLOTS. slots (record_at h r) j = null)"

definition rec_inv :: "'v machine \<Rightarrow> bool" where
  "rec_inv s \<longleftrightarrow> chain_ok (haz s) \<and>
     (\<forall>i<length (threads s). rec_ok (haz s) (thr i s)) \<and>
     (\<forall>i<length (threads s). \<forall>j<length (threads s). i \<noteq> j \<longrightarrow> rec_of (thr i s) \<noteq> null \<longrightarrow>
        rec_of (thr i s) \<noteq> rec_of (thr j s)) \<and>
     (\<forall>r. 0 < r \<and> r \<le> n_records (haz s) \<and> (\<forall>i<length (threads s). rec_of (thr i s) \<noteq> r) \<longrightarrow>
        free_ok (haz s) r)"

text \<open>
  A step of thread \<open>i\<close> that replaces it by \<open>t'\<close> and the domain by \<open>h'\<close> keeps the invariant, if it only
  touches the record the thread has afterwards (or gives up) and keeps the list.
\<close>

lemma rec_inv_update:
  assumes inv: "rec_inv s" and i: "i < length (threads s)"
    and thr: "threads s' = (threads s)[i := t']"
    and chain: "chain_ok (haz s')" "published (haz s) \<subseteq> published (haz s')" "n_records (haz s) \<le> n_records (haz s')"
    and pub: "published (haz s') \<subseteq> insert (rec_of t') (published (haz s))"
    and new: "rec_ok (haz s') t'"
    and own: "rec_of t' \<noteq> null \<Longrightarrow> rec_of t' \<noteq> rec_of (thr i s) \<Longrightarrow> (\<forall>j<length (threads s). rec_of (thr j s) \<noteq> rec_of t')"
    and old: "\<And>r. r \<noteq> rec_of t' \<Longrightarrow> r \<noteq> rec_of (thr i s) \<Longrightarrow> r \<le> n_records (haz s') \<Longrightarrow> 0 < r \<Longrightarrow>
       r \<le> n_records (haz s) \<and> record_at (haz s') r = record_at (haz s) r"
    and gone: "rec_of (thr i s) \<noteq> null \<Longrightarrow> rec_of (thr i s) \<noteq> rec_of t' \<Longrightarrow> free_ok (haz s') (rec_of (thr i s))"
  shows "rec_inv s'"
proof -
  have len: "length (threads s') = length (threads s)" by (simp add: thr)
  have thr_j: "thr j s' = (if j = i then t' else thr j s)" if "j < length (threads s)" for j
    using that by (simp add: thr nth_list_update)
  have uniq: "rec_of (thr j s) \<noteq> rec_of (thr k s)"
    if "j < length (threads s)" "k < length (threads s)" "j \<noteq> k" "rec_of (thr j s) \<noteq> null" for j k
    using inv that by (simp add: rec_inv_def)
  have uniq': "rec_of (thr j s) \<noteq> rec_of t'"
    if "j < length (threads s)" "j \<noteq> i" "rec_of (thr j s) \<noteq> null" for j
    using that own uniq [of j i] i by (cases "rec_of t' = rec_of (thr i s)") metis+
  have ok: "rec_ok (haz s') (thr j s')" if j: "j < length (threads s)" for j
  proof (cases "j = i")
    case True
    then show ?thesis using new thr_j [OF j] by simp
  next
    case False
    let ?t = "thr j s"
    have ok: "rec_ok (haz s) ?t" using inv j by (simp add: rec_inv_def)
    have same: "record_at (haz s') (rec_of ?t) = record_at (haz s) (rec_of ?t)" if "rec_of ?t \<noteq> null"
      using old [of "rec_of ?t"] uniq' [OF j False that] uniq [OF j i False that] ok that chain(3)
      by (auto simp: rec_ok_def)
    have raw: "raw \<notin> published (haz s')" if "pc_raw (pc ?t) = Some raw" for raw
    proof -
      have "own_record ?t = null" "raw \<noteq> null" "raw \<notin> published (haz s)" "pc_rec (pc ?t) = raw"
        using ok that by (auto simp: rec_ok_def pc_rec_ok_def tls_ok_def own_record_def pc_raw_def pc_rec_def
            split: pc.splits)
      then show ?thesis using pub uniq' [OF j False] by (auto simp: rec_of_def)
    qed
    have "pc_rec_ok (haz s') (pc ?t)"
      using ok chain(2) raw by (auto simp: rec_ok_def pc_rec_ok_def split: option.splits)
    then show ?thesis using ok same chain(2,3) thr_j [OF j] False
      by (auto simp: rec_ok_def)
  qed
  have free: "free_ok (haz s') r"
    if r: "0 < r" "r \<le> n_records (haz s')" and no: "\<forall>j<length (threads s). rec_of (thr j s') \<noteq> r" for r
  proof (cases "r = rec_of (thr i s)")
    case True
    then show ?thesis using gone r no i thr_j [OF i] by auto
  next
    case False
    have nt: "r \<noteq> rec_of t'" using no i thr_j [OF i] by auto
    have "\<forall>j<length (threads s). rec_of (thr j s) \<noteq> r" using no thr_j False by (metis (full_types))
    then have "free_ok (haz s) r"
      using inv old [OF nt False r(2,1)] r unfolding rec_inv_def by blast
    then show ?thesis using old [OF nt False r(2,1)] by (simp add: free_ok_def)
  qed
  show ?thesis unfolding rec_inv_def len
    using chain(1) ok free uniq uniq' thr_j by (auto split: if_splits) metis
qed

lemma rec_inv_cong: "haz s' = haz s \<Longrightarrow> threads s' = threads s \<Longrightarrow> rec_inv s' = rec_inv s"
  by (simp add: rec_inv_def)

lemma rec_inv_same:
  assumes "rec_inv s" "i < length (threads s)"
    and "threads s' = (threads s)[i := t']" "haz s' = haz s"
    and "tls t' = tls (thr i s)" "pc_rec (pc t') = pc_rec (pc (thr i s))" "pins t' = pins (thr i s)"
    and "tls_ok t'" "pc_rec_ok (haz s) (pc t')"
  shows "rec_inv s'"
proof (rule rec_inv_update [OF assms(1-3)])
  let ?t = "thr i s"
  have r: "own_record t' = own_record ?t" "rec_of t' = rec_of ?t"
    using assms(5,6) by (simp_all add: own_record_def rec_of_def)
  have "rec_ok (haz s) ?t" using assms(1,2) by (simp add: rec_inv_def)
  with r assms show "rec_ok (haz s') t'"
    by (auto simp: rec_ok_def pins_ok_def pin_at_def)
qed (use assms in \<open>auto simp: rec_inv_def own_record_def rec_of_def\<close>)

lemma pins_eq_Nil: "rec_ok h t \<Longrightarrow> own_record t = null \<Longrightarrow> pins t = []"
  by (cases "pins t") (auto simp: rec_ok_def pins_ok_def)

lemma pin_at_Nil: "pins t = [] \<Longrightarrow> pin_at t j = null"
  by (simp add: pin_at_def)

lemma no_slot_views [simp]:
  "pc_pins (no_slot k c) = []" "pc_rec (no_slot k c) = null" "pc_cursor (no_slot k c) = null"
  "pc_raw (no_slot k c) = None" "pc_ptr (no_slot k c) = []" "pc_reads (no_slot k c) = []"
  "pc_own (no_slot k c) = []" "pc_crit (no_slot k c) = None" "pc_new (no_slot k c) = []"
  "pc_fb (no_slot k c) = []" "pc_fbread (no_slot k c) = []" "pc_cells (no_slot k c) = [c]"
  by (cases k; simp add: no_slot_def view_defs)+

lemma tls_ok_no_slot [simp]: "tls_ok (t\<lparr>pc := no_slot k c\<rparr>)"
  by (cases k) (simp_all add: no_slot_def tls_ok_def)

lemma pins_pc [simp]: "pins (t\<lparr>pc := q\<rparr>) = pc_pins q @ concat (map frame_pins (stack t))"
  "own_record (t\<lparr>pc := q\<rparr>) = own_record t"
  by (simp_all add: pins_def own_record_def)

lemma pc_rec_ok_cong: "published h' = published h \<Longrightarrow> pc_rec_ok h' q = pc_rec_ok h q"
  by (auto simp: pc_rec_ok_def split: option.splits)

text \<open>Announcing in a free slot of the own record, and clearing the latest announcement.\<close>

lemma rec_ok_write:
  assumes ok: "rec_ok (haz s) (thr i s)" and i: "i < length (threads s)" and inv: "rec_inv s"
    and thr: "threads s' = (threads s)[i := t']" and h: "haz s' = store_slot (r, j) p (haz s)"
    and r: "r = own_record (thr i s)" "r \<noteq> null" "own_record t' = own_record (thr i s)"
    and pins: "pins_ok t'" "\<And>k. k < SLOTS \<Longrightarrow> pin_at t' k = (if k = j then p else pin_at (thr i s) k)"
    and pc: "tls_ok t'" "pc_rec_ok (haz s) (pc t')" "pc_rec (pc t') = null"
  shows "rec_inv s'"
proof (rule rec_inv_update [OF inv i thr])
  have ch: "chain_ok (haz s)" using inv by (simp add: rec_inv_def)
  note k = chain_keep [OF ch, of "haz s'", unfolded h, simplified]
  have rec: "rec_of t' = r" "rec_of (thr i s) = r" using r by (simp_all add: rec_of_def)
  show "chain_ok (haz s')" "published (haz s) \<subseteq> published (haz s')"
    "published (haz s') \<subseteq> insert (rec_of t') (published (haz s))"
    using k by (auto simp: h)
  show "n_records (haz s) \<le> n_records (haz s')" by (simp add: h)
  have "pc_rec_ok (haz s') (pc t')" using pc(2) k(2) pc_rec_ok_cong [of "haz s'" "haz s" "pc t'"] by (simp add: h)
  with ok rec r pins pc k(2) show "rec_ok (haz s') t'"
    by (auto simp: rec_ok_def h slots_store_slot)
  show "x \<le> n_records (haz s) \<and> record_at (haz s') x = record_at (haz s) x"
    if "x \<noteq> rec_of t'" "x \<le> n_records (haz s')" for x using that rec by (simp add: h store_slot_def)
qed (use r in \<open>auto simp: rec_of_def\<close>)

lemma pin_at_Cons:
  "pins t' = ((r, j), p) # pins t \<Longrightarrow> pin_at t' k = (if k = j then p else pin_at t k)"
  by (simp add: pin_at_def)

lemma pin_at_tail:
  assumes "pins t = ((r, j), p) # pins t'" "pins_ok t"
  shows "pin_at t' k = (if k = j then null else pin_at t k)"
proof -
  have "j \<notin> set (map (snd \<circ> fst) (pins t'))" using assms by (auto simp: pins_ok_def)
  then have "map_of (map (\<lambda>((r, j), p). (j, p)) (pins t')) j = None"
    by (force simp: map_of_eq_None_iff)
  then show ?thesis by (simp add: pin_at_def assms(1))
qed

lemma pin_at_free:
  assumes "rec_ok h t" "own_record t \<noteq> null" "free_slot (own_record t) h = Some j"
  shows "j < SLOTS" "j \<notin> set (map (snd \<circ> fst) (pins t))"
proof -
  show j: "j < SLOTS" using assms(3) by (auto dest: free_slot_Some)
  have null: "pin_at t j = null"
    using assms free_slot_Some [OF assms(3)] by (auto simp: rec_ok_def rec_of_def)
  show "j \<notin> set (map (snd \<circ> fst) (pins t))"
  proof
    assume "j \<in> set (map (snd \<circ> fst) (pins t))"
    then have "j \<in> set (map fst (map (\<lambda>((r, j), p). (j, p)) (pins t)))" by force
    then obtain p where p: "map_of (map (\<lambda>((r, j), p). (j, p)) (pins t)) j = Some p"
      by (metis map_of_eq_None_iff option.exhaust set_map)
    then have "(j, p) \<in> set (map (\<lambda>((r, j), p). (j, p)) (pins t))" by (rule map_of_SomeD)
    then have "p \<noteq> null" using assms(1) by (fastforce simp: rec_ok_def pins_ok_def)
    with p null show False by (simp add: pin_at_def)
  qed
qed

lemma rec_inv_unpin:
  assumes "rec_inv s" "i < length (threads s)" "threads s' = (threads s)[i := t']"
    and "haz s' = store_slot pn null (haz s)" "pins (thr i s) = (pn, p) # pins t'" "tls t' = tls (thr i s)"
    and "tls_ok t'" "pc_rec_ok (haz s) (pc t')" "pc_rec (pc t') = null"
  shows "rec_inv s'"
proof -
  obtain r j where pn: "pn = (r, j)" by (cases pn)
  have ok: "rec_ok (haz s) (thr i s)" using assms(1,2) by (simp add: rec_inv_def)
  then have pk: "pins_ok (thr i s)" by (simp add: rec_ok_def)
  have own: "own_record t' = own_record (thr i s)" using assms(6) by (simp add: own_record_def)
  have r: "r = own_record (thr i s)" "r \<noteq> null" using pk assms(5) pn by (auto simp: pins_ok_def)
  have "pins_ok t'" using pk assms(5) own by (auto simp: pins_ok_def)
  then show ?thesis
    using rec_ok_write [OF ok assms(2,1,3) assms(4) [unfolded pn] r own _ _ assms(7-9)]
      pin_at_tail [OF assms(5) [unfolded pn] pk] by blast
qed

lemma rec_inv_publish:
  assumes "rec_inv s" "i < length (threads s)" "threads s' = (threads s)[i := t']"
    and "haz s' = store_slot (r, j) p (haz s)" "pins t' = ((r, j), p) # pins (thr i s)" "tls t' = tls (thr i s)"
    and r: "r = own_record (thr i s)" "r \<noteq> null" and p: "p \<noteq> null" and free: "free_slot r (haz s) = Some j"
    and "tls_ok t'" "pc_rec_ok (haz s) (pc t')" "pc_rec (pc t') = null"
  shows "rec_inv s'"
proof -
  have ok: "rec_ok (haz s) (thr i s)" using assms(1,2) by (simp add: rec_inv_def)
  then have pk: "pins_ok (thr i s)" by (simp add: rec_ok_def)
  have own: "own_record t' = own_record (thr i s)" using assms(6) by (simp add: own_record_def)
  note f = pin_at_free [OF ok r(2) [unfolded r(1)] free [unfolded r(1)]]
  have "pins_ok t'" using pk assms(5) own r p f by (auto simp: pins_ok_def)
  then show ?thesis
    using rec_ok_write [OF ok assms(2,1,3,4) r own _ _ assms(11-13)] pin_at_Cons [OF assms(5)] by blast
qed

lemma rec_inv_republish:
  assumes "rec_inv s" "i < length (threads s)" "threads s' = (threads s)[i := t']"
    and "haz s' = store_slot pn q (haz s)" "pins (thr i s) = (pn, p) # xs" "pins t' = (pn, q) # xs"
    and "tls t' = tls (thr i s)" "q \<noteq> null" "tls_ok t'" "pc_rec_ok (haz s) (pc t')" "pc_rec (pc t') = null"
  shows "rec_inv s'"
proof -
  obtain r j where pn: "pn = (r, j)" by (cases pn)
  have ok: "rec_ok (haz s) (thr i s)" using assms(1,2) by (simp add: rec_inv_def)
  then have pk: "pins_ok (thr i s)" by (simp add: rec_ok_def)
  have own: "own_record t' = own_record (thr i s)" using assms(7) by (simp add: own_record_def)
  have r: "r = own_record (thr i s)" "r \<noteq> null" using pk assms(5) pn by (auto simp: pins_ok_def)
  have "pins_ok t'" using pk assms(5,6,8) own pn by (auto simp: pins_ok_def)
  moreover have "pin_at t' k = (if k = j then q else pin_at (thr i s) k)" for k
    using assms(5,6) pn by (simp add: pin_at_def)
  ultimately show ?thesis
    using rec_ok_write [OF ok assms(2,1,3) assms(4) [unfolded pn] r own _ _ assms(9-11)] by blast
qed

text \<open>Claiming a released record, leaking a fresh one, publishing it, and releasing at thread exit.\<close>

lemma free_unowned:
  assumes "rec_inv s" "r \<noteq> null" "\<not> in_use (record_at (haz s) r)" "j < length (threads s)"
  shows "rec_of (thr j s) \<noteq> r"
  using assms by (auto simp: rec_inv_def rec_ok_def)

lemma rec_inv_take:
  assumes inv: "rec_inv s" and i: "i < length (threads s)" and thr: "threads s' = (threads s)[i := t']"
    and h: "haz s' = set_in_use r True (haz s)" and r: "r \<in> published (haz s)" "\<not> in_use (record_at (haz s) r)"
    and t: "rec_of (thr i s) = null" "own_record t' = null" "pins t' = []" "pc_rec (pc t') = r"
    and ok: "tls_ok t'" "pc_rec_ok (haz s) (pc t')"
  shows "rec_inv s'"
proof (rule rec_inv_update [OF inv i thr])
  have ch: "chain_ok (haz s)" using inv by (simp add: rec_inv_def)
  note k = chain_keep [OF ch, of "haz s'", unfolded h, simplified]
  have r0: "r \<noteq> null" "0 < r" "r \<le> n_records (haz s)" using published_bounds [OF ch r(1)] by auto
  have none: "\<forall>j<length (threads s). rec_of (thr j s) \<noteq> r" using free_unowned [OF inv r0(1) r(2)] by blast
  then have free: "free_ok (haz s) r" using inv r0 by (auto simp: rec_inv_def)
  have rec: "rec_of t' = r" using t by (simp add: rec_of_def)
  show "chain_ok (haz s')" "published (haz s) \<subseteq> published (haz s')"
    "published (haz s') \<subseteq> insert (rec_of t') (published (haz s))"
    using k by (auto simp: h)
  show "n_records (haz s) \<le> n_records (haz s')" by (simp add: h)
  have "pc_rec_ok (haz s') (pc t')" using ok(2) k(2) pc_rec_ok_cong [of "haz s'" "haz s" "pc t'"] by (simp add: h)
  then show "rec_ok (haz s') t'"
    using rec t ok r0 free by (auto simp: rec_ok_def h free_ok_def pin_at_Nil pins_ok_def)
  show "x \<le> n_records (haz s) \<and> record_at (haz s') x = record_at (haz s) x"
    if "x \<noteq> rec_of t'" "x \<le> n_records (haz s')" for x using that rec by (simp add: h set_in_use_def)
  show "\<forall>j<length (threads s). rec_of (thr j s) \<noteq> rec_of t'" using none rec by simp
qed (use t in auto)

lemma rec_inv_claim:
  assumes inv: "rec_inv s" and i: "i < length (threads s)" and thr: "threads s' = (threads s)[i := t']"
    and h: "haz s' = haz s" and r: "own_record t' = rec_of (thr i s)" "rec_of (thr i s) \<noteq> null"
    and t: "own_record (thr i s) = null" "pins t' = []" "pc_raw (pc (thr i s)) = None"
    and ok: "tls_ok t'" "pc_rec_ok (haz s) (pc t')"
  shows "rec_inv s'"
proof (rule rec_inv_update [OF inv i thr])
  have k: "rec_ok (haz s) (thr i s)" using inv i by (simp add: rec_inv_def)
  have rec: "rec_of t' = rec_of (thr i s)" using r by (simp add: rec_of_def)
  have "pins (thr i s) = []" using pins_eq_Nil [OF k t(1)] .
  then have "pin_at (thr i s) j = pin_at t' j" for j using t(2) by (simp add: pin_at_Nil)
  moreover have "own_record t' \<in> published (haz s)"
    using k t r by (auto simp: rec_ok_def pc_rec_ok_def rec_of_def)
  ultimately show "rec_ok (haz s') t'"
    using k ok rec t(2) by (auto simp: rec_ok_def h pins_ok_def)
qed (use r inv h in \<open>auto simp: rec_of_def rec_inv_def\<close>)

lemma rec_inv_leak:
  assumes inv: "rec_inv s" and i: "i < length (threads s)" and thr: "threads s' = (threads s)[i := t']"
    and h: "haz s' = snd (leak_record (haz s))"
    and t: "rec_of (thr i s) = null" "own_record t' = null" "pins t' = []" "pc_raw (pc t') = Some (fst (leak_record (haz s)))"
    and ok: "tls_ok t'" "pc_cursor (pc t') = null" "\<forall>p\<in>set (pc_ptr (pc t')). p \<noteq> null"
  shows "rec_inv s'"
proof (rule rec_inv_update [OF inv i thr])
  define raw where "raw = Suc (n_records (haz s))"
  have lk: "fst (leak_record (haz s)) = raw" "n_records (haz s') = raw" "HEAD (haz s') = HEAD (haz s)"
    "record_at (haz s') = (record_at (haz s))(raw := \<lparr>slots = (\<lambda>_. null), in_use = True, next_rec = null\<rparr>)"
    by (simp_all add: h leak_record_def raw_def Let_def)
  have ch: "chain_ok (haz s)" using inv by (simp add: rec_inv_def)
  have np: "raw \<notin> published (haz s)" using published_bounds [OF ch, of raw] by (auto simp: raw_def)
  have eq: "next_rec (record_at (haz s') x) = next_rec (record_at (haz s) x)" if "x \<in> published (haz s)" for x
    using np that by (auto simp: lk)
  note k = chain_keep(1,2) [OF ch lk(3) _ eq]
  have k: "chain_ok (haz s')" "published (haz s') = published (haz s)"
    by (rule k; simp add: lk raw_def)+
  have rec: "rec_of t' = raw" using t lk(1) by (auto simp: rec_of_def pc_raw_def pc_rec_def split: pc.splits)
  show "chain_ok (haz s')" "published (haz s) \<subseteq> published (haz s')"
    "published (haz s') \<subseteq> insert (rec_of t') (published (haz s))"
    using k by auto
  show "n_records (haz s) \<le> n_records (haz s')" by (simp add: lk raw_def)
  show "rec_ok (haz s') t'" using k rec t ok lk np
    by (auto simp: rec_ok_def pins_ok_def pin_at_Nil pc_rec_ok_def raw_def)
  show "\<forall>j<length (threads s). rec_of (thr j s) \<noteq> rec_of t'"
    using inv rec by (fastforce simp: rec_inv_def rec_ok_def raw_def)
  show "x \<le> n_records (haz s) \<and> record_at (haz s') x = record_at (haz s) x"
    if "x \<noteq> rec_of t'" "x \<le> n_records (haz s')" for x using that rec lk by (auto simp: raw_def)
qed (use t in auto)

lemma rec_inv_relink:
  assumes inv: "rec_inv s" and i: "i < length (threads s)" and thr: "threads s' = (threads s)[i := t']"
    and h: "haz s' = set_next raw q (haz s)" and raw: "pc_raw (pc (thr i s)) = Some raw" "pc_raw (pc t') = Some raw"
    and t: "tls t' = tls (thr i s)" "pins t' = pins (thr i s)"
    and ok: "tls_ok t'" "pc_cursor (pc t') = null" "\<forall>p\<in>set (pc_ptr (pc t')). p \<noteq> null"
  shows "rec_inv s'"
proof (rule rec_inv_update [OF inv i thr])
  have ch: "chain_ok (haz s)" and k: "rec_ok (haz s) (thr i s)" using inv i by (simp_all add: rec_inv_def)
  have np: "raw \<notin> published (haz s)" "raw \<noteq> null" using k raw by (auto simp: rec_ok_def pc_rec_ok_def)
  have own: "own_record (thr i s) = null" "own_record t' = null"
    using k ok raw t by (auto simp: rec_ok_def tls_ok_def pc_raw_def own_record_def split: pc.splits)
  have rec: "rec_of (thr i s) = raw" "rec_of t' = raw"
    using own raw by (auto simp: rec_of_def pc_raw_def pc_rec_def split: pc.splits)
  have kp: "chain_ok (haz s')" "published (haz s') = published (haz s)"
    by (rule chain_keep(1,2) [OF ch]; use np in \<open>auto simp: h\<close>)+
  show "chain_ok (haz s')" "published (haz s) \<subseteq> published (haz s')"
    "published (haz s') \<subseteq> insert (rec_of t') (published (haz s))" using kp by auto
  show "n_records (haz s) \<le> n_records (haz s')" by (simp add: h)
  show "rec_ok (haz s') t'" using k rec own t ok kp np raw
    by (auto simp: rec_ok_def pins_ok_def pin_at_def pc_rec_ok_def h)
  show "x \<le> n_records (haz s) \<and> record_at (haz s') x = record_at (haz s) x"
    if "x \<noteq> rec_of t'" "x \<le> n_records (haz s')" for x using that rec by (simp add: h set_next_def)
  show "\<forall>j<length (threads s). rec_of (thr j s) \<noteq> rec_of t'" if "rec_of t' \<noteq> rec_of (thr i s)" using that rec by simp
  show "free_ok (haz s') (rec_of (thr i s))" if "rec_of (thr i s) \<noteq> rec_of t'" using that rec by simp
qed

lemma rec_inv_push:
  assumes inv: "rec_inv s" and i: "i < length (threads s)" and thr: "threads s' = (threads s)[i := t']"
    and h: "haz s' = (set_next raw (HEAD (haz s)) (haz s))\<lparr>HEAD := raw\<rparr>"
    and raw: "pc_raw (pc (thr i s)) = Some raw" "own_record t' = raw"
    and t: "pins t' = []"
    and ok: "tls_ok t'" "pc_rec_ok (haz s) (pc t')" "pc_raw (pc t') = None"
  shows "rec_inv s'"
proof (rule rec_inv_update [OF inv i thr])
  have ch: "chain_ok (haz s)" and k: "rec_ok (haz s) (thr i s)" using inv i by (simp_all add: rec_inv_def)
  have np: "raw \<notin> published (haz s)" "raw \<noteq> null" using k raw by (auto simp: rec_ok_def pc_rec_ok_def)
  have own: "own_record (thr i s) = null"
    using k raw by (auto simp: rec_ok_def tls_ok_def pc_raw_def own_record_def split: pc.splits)
  have rec: "rec_of (thr i s) = raw" "rec_of t' = raw"
    using own raw np by (auto simp: rec_of_def pc_raw_def pc_rec_def split: pc.splits)
  have le: "0 < raw" "raw \<le> n_records (haz s)" using k rec np by (auto simp: rec_ok_def)
  note kp = chain_push [OF ch np(1) le h]
  have pa: "pin_at (thr i s) j = pin_at t' j" for j
    using t pins_eq_Nil [OF k own] by (simp add: pin_at_Nil)
  show "chain_ok (haz s')" "published (haz s) \<subseteq> published (haz s')"
    "published (haz s') \<subseteq> insert (rec_of t') (published (haz s))" using kp rec by auto
  show "n_records (haz s) \<le> n_records (haz s')" by (simp add: h)
  have "pc_rec_ok (haz s') (pc t')" using ok(2,3) kp(2) by (auto simp: pc_rec_ok_def)
  then show "rec_ok (haz s') t'" using k rec ok kp(2) pa t raw np
    by (auto simp: rec_ok_def pins_ok_def h)
  show "x \<le> n_records (haz s) \<and> record_at (haz s') x = record_at (haz s) x"
    if "x \<noteq> rec_of t'" "x \<le> n_records (haz s')" for x using that rec by (simp add: h set_next_def)
  show "\<forall>j<length (threads s). rec_of (thr j s) \<noteq> rec_of t'" if "rec_of t' \<noteq> rec_of (thr i s)" using that rec by simp
  show "free_ok (haz s') (rec_of (thr i s))" if "rec_of (thr i s) \<noteq> rec_of t'" using that rec by simp
qed

lemma rec_inv_exit:
  assumes inv: "rec_inv s" and i: "i < length (threads s)"
    and thr: "threads s' = (threads s)[i := (thr i s)\<lparr>tls := fst (Local_drop (tls (thr i s)) (haz s))\<rparr>]"
    and h: "haz s' = snd (Local_drop (tls (thr i s)) (haz s))"
    and t: "pc (thr i s) = Idle" "stack (thr i s) = []" "local_alive (tls (thr i s))"
  shows "rec_inv s'"
proof (rule rec_inv_update [OF inv i thr])
  let ?t' = "(thr i s)\<lparr>tls := fst (Local_drop (tls (thr i s)) (haz s))\<rparr>"
  define r where "r = local_record (tls (thr i s))"
  have ch: "chain_ok (haz s)" and k: "rec_ok (haz s) (thr i s)" using inv i by (simp_all add: rec_inv_def)
  have rec: "rec_of (thr i s) = r" using t by (simp add: rec_of_def own_record_def r_def pc_rec_def)
  have rec': "rec_of ?t' = null" "own_record ?t' = null" "pins ?t' = []"
    using t by (simp_all add: rec_of_def own_record_def Local_drop_def pc_rec_def pins_def pc_pins_def)
  have h': "haz s' = (if r \<noteq> null then set_in_use r False (clear_slots r (haz s)) else haz s)"
    by (simp add: h Local_drop_def r_def)
  have kp: "chain_ok (haz s')" "published (haz s') = published (haz s)"
    by (rule chain_keep(1,2) [OF ch]; simp add: h')+
  show "chain_ok (haz s')" "published (haz s) \<subseteq> published (haz s')"
    "published (haz s') \<subseteq> insert (rec_of ?t') (published (haz s))" using kp by auto
  show "n_records (haz s) \<le> n_records (haz s')" by (simp add: h')
  show "rec_ok (haz s') ?t'" using rec' t
    by (auto simp: rec_ok_def pins_ok_def tls_ok_def pc_rec_ok_def view_defs)
  show "x \<le> n_records (haz s) \<and> record_at (haz s') x = record_at (haz s) x"
    if "x \<noteq> rec_of (thr i s)" "x \<le> n_records (haz s')" for x
  proof -
    have "record_at (clear_slots r (haz s)) x = record_at (haz s) x" if "x \<noteq> r"
      using that slots_clear_slots [of r "haz s" x]
      by (intro Record.equality) (auto simp: fun_eq_iff)
    then show ?thesis using that rec by (auto simp: h' set_in_use_def split: if_splits)
  qed
  show "free_ok (haz s') (rec_of (thr i s))" if "rec_of (thr i s) \<noteq> null"
    using that rec by (simp add: free_ok_def h' slots_clear_slots)
qed (use t in \<open>auto simp: rec_of_def own_record_def Local_drop_def pc_rec_def\<close>)

lemma rec_inv_step:
  assumes step: "tr i s s'" and i: "i < length (threads s)" and inv: "rec_inv s"
    and cur: "\<And>c. c \<in> set (pc_cells (pc (thr i s))) \<Longrightarrow> current (the_cell c s) \<noteq> null"
  shows "rec_inv s'"
proof -
  have ch: "chain_ok (haz s)" and ok: "rec_ok (haz s) (thr i s)" using inv i by (simp_all add: rec_inv_def)
  note same = rec_inv_same [OF inv i]
  note vs = view_defs pc_rec_ok_def tls_ok_def
  have pcok: "pc_rec_ok (haz s) (pc (thr i s))" "tls_ok (thr i s)" using ok by (simp_all add: rec_ok_def)
  note nx = after_step(2) [OF ch]
  from step show ?thesis
  proof cases
    case (unwind_hz c pn p g fs)
    show ?thesis by (rule rec_inv_unpin [OF inv i, of _ _ pn p], use unwind_hz in simp, use unwind_hz in simp) (use unwind_hz in \<open>auto simp: vs pins_def\<close>)
  next
    case exit
    show ?thesis by (rule rec_inv_exit [OF inv i]) (use exit in simp_all)
  next
    case (pin_publish k c p r j)
    show ?thesis by (rule rec_inv_publish [OF inv i, of _ _ r j p], use pin_publish in simp, use pin_publish in simp)
        (use pin_publish pcok in \<open>auto simp: vs pins_def own_record_def\<close>)
  next
    case (reuse_claim k c p reused)
    show ?thesis by (rule rec_inv_claim [OF inv i], use reuse_claim in simp, use reuse_claim in simp)
        (use reuse_claim pcok pins_eq_Nil [OF ok] in \<open>auto simp: vs pins_def own_record_def rec_of_def\<close>)
  next
    case (reuse_none k c p)
    show ?thesis by (rule rec_inv_leak [OF inv i], use reuse_none in simp, use reuse_none in simp)
        (use reuse_none pcok pins_eq_Nil [OF ok] in \<open>auto simp: vs pins_def own_record_def rec_of_def\<close>)
  next
    case (reuse_cas k c p r)
    show ?thesis by (rule rec_inv_take [OF inv i, of _ _ r], use reuse_cas in simp, use reuse_cas in simp)
        (use reuse_cas pcok pins_eq_Nil [OF ok] nx in \<open>auto simp: vs pins_def own_record_def rec_of_def\<close>)
  next
    case (push_ok k c p raw)
    show ?thesis by (rule rec_inv_push [OF inv i, of _ _ raw], use push_ok in simp, use push_ok in simp)
        (use push_ok pcok pins_eq_Nil [OF ok] in \<open>auto simp: vs pins_def own_record_def rec_of_def\<close>)
  next
    case (push_fail k c p raw h)
    show ?thesis by (rule rec_inv_relink [OF inv i, of _ _ raw h], use push_fail in simp, use push_fail in simp)
        (use push_fail pcok in \<open>auto simp: vs pins_def own_record_def rec_of_def\<close>)
  next
    case (reannounce k c pn p q)
    show ?thesis by (rule rec_inv_republish [OF inv i, of _ _ pn q p], use reannounce in simp, use reannounce in simp)
        (use reannounce pcok in \<open>auto simp: vs pins_def\<close>)
  next
    case (unpin c pn p)
    show ?thesis by (rule rec_inv_unpin [OF inv i, of _ _ pn p], use unpin in simp, use unpin in simp) (use unpin in \<open>auto simp: vs pins_def\<close>)
  next
    case (validate_read c pn p)
    show ?thesis by (rule same, use validate_read in simp, use validate_read in simp) (use validate_read in \<open>auto simp: vs pins_def\<close>)
  next
    case (end_hz c pn p g fs)
    show ?thesis by (rule same, use end_hz in simp, use end_hz in simp) (use end_hz in \<open>auto simp: vs pins_def\<close>)
  qed ((simp add: rec_inv_cong [of _ s] inv; fail) |
      (rule same, simp, simp; use pcok cur HEAD_published [OF ch] nx in \<open>auto simp: vs pins_def no_slot_def split: rkind.splits\<close>))+
qed

lemma rec_inv_init: "rec_inv (init_machine n vs)"
  by (auto simp: rec_inv_def init_machine_def chain_ok_def empty_domain_def rec_ok_def pins_ok_def tls_ok_def
      pc_rec_ok_def view_defs intro: exI [of _ "[]"])

end
