(* ===== verification/SnapLock.thy ===== *)
theory SnapLock
  imports SnapHaz
begin

text \<open>
  The writer locks and the fallback counters under interleaving: every cell a thread
  refers to exists (\<open>cells_ok\<close>), a cell's writer lock is held by exactly the thread whose
  program counter is inside it (\<open>lock_inv\<close>), and the fallback counter of a cell is the number of
  fallback reads of it in progress (\<open>fb_inv\<close>).
\<close>

section \<open>Updating one thread or one cell\<close>

definition thread_sum :: "('v thread \<Rightarrow> nat) \<Rightarrow> 'v machine \<Rightarrow> nat" where
  "thread_sum f s = (\<Sum>t\<leftarrow>threads s. f t)"

lemma thread_sum_upd:
  assumes "i < length (threads s)" "threads s' = (threads s)[i := t']"
  shows "thread_sum f s' + f (thr i s) = thread_sum f s + f t'"
  using sum_list_update_nat [OF assms(1), of f t'] by (simp add: thread_sum_def assms(2))

lemma thread_sum_ge: "i < length (threads s) \<Longrightarrow> f (thr i s) \<le> thread_sum f s"
  unfolding thread_sum_def by (rule sum_list_member_le_nat) simp

lemma thread_sum_cong: "threads s' = threads s \<Longrightarrow> thread_sum f s' = thread_sum f s"
  by (simp add: thread_sum_def)

lemma thr_upd:
  "threads s' = (threads s)[i := t'] \<Longrightarrow> i < length (threads s) \<Longrightarrow> thr j s' = (if j = i then t' else thr j s)"
  by (simp add: nth_list_update)

lemma tr_length:
  assumes "tr i s s'"
  shows "length (threads s') = length (threads s)" "length (cells s') = length (cells s)"
proof -
  show "length (threads s') = length (threads s)" using assms by cases simp_all
  show "length (cells s') = length (cells s)" using assms by cases simp_all
qed

section \<open>Cells in range\<close>

lemma cells_okD:
  "cells_ok s \<Longrightarrow> i < length (threads s) \<Longrightarrow> c \<in> set (pc_cells (pc (thr i s))) \<Longrightarrow> c < length (cells s)"
  by (auto simp: cells_ok_def)

lemma cells_ok_upd:
  assumes "cells_ok s" "threads s' = (threads s)[i := t']" "length (cells s') = length (cells s)"
    and "\<forall>c\<in>set (pc_cells (pc t')). c < length (cells s)" "\<forall>f\<in>set (stack t'). frame_cell f < length (cells s)"
  shows "cells_ok s'"
  using assms unfolding cells_ok_def by (auto dest!: set_update_subset_insert [THEN subsetD])

lemma cells_ok_cong: "cells_ok s \<Longrightarrow> threads s' = threads s \<Longrightarrow> length (cells s') = length (cells s) \<Longrightarrow> cells_ok s'"
  by (simp add: cells_ok_def)

lemma cells_ok_step:
  assumes step: "tr i s s'" and i: "i < length (threads s)" and inv: "cells_ok s"
  shows "cells_ok s'"
proof -
  have pcs: "\<forall>c\<in>set (pc_cells (pc (thr i s))). c < length (cells s)"
    and st: "\<forall>f\<in>set (stack (thr i s)). frame_cell f < length (cells s)" using inv i by (auto simp: cells_ok_def)
  note upd = cells_ok_upd [OF inv _ tr_length(2) [OF step]]
  from step show ?thesis
    by cases ((rule cells_ok_cong [OF inv]; simp; fail) |
      (rule upd, simp; use pcs st in \<open>simp add: pc_cells_def no_slot_def split: rkind.splits\<close>))+
qed

lemma cells_ok_init: "cells_ok (init_machine n vs)"
  by (auto simp: cells_ok_def init_machine_def pc_cells_def)

section \<open>The writer locks\<close>

definition lock_inv :: "'v machine \<Rightarrow> bool" where
  "lock_inv s \<longleftrightarrow> (\<forall>c<length (cells s). \<forall>i. writer_lock (the_cell c s) = Some i \<longleftrightarrow>
     i < length (threads s) \<and> pc_crit (pc (thr i s)) = Some c)"

lemma lock_inv_unique:
  assumes "lock_inv s" "c < length (cells s)" "i < length (threads s)" "j < length (threads s)"
    and "pc_crit (pc (thr i s)) = Some c" "pc_crit (pc (thr j s)) = Some c"
  shows "i = j"
proof -
  have "writer_lock (the_cell c s) = Some i" "writer_lock (the_cell c s) = Some j"
    using assms by (auto simp: lock_inv_def)
  then show ?thesis by simp
qed

lemma lock_inv_same:
  assumes "lock_inv s" "i < length (threads s)" "threads s' = (threads s)[i := t']"
    and "length (cells s') = length (cells s)"
    and "\<And>c. writer_lock (the_cell c s') = writer_lock (the_cell c s)"
    and "pc_crit (pc t') = pc_crit (pc (thr i s))"
  shows "lock_inv s'"
  unfolding lock_inv_def
proof (intro allI impI)
  fix d j assume "d < length (cells s')"
  then have "writer_lock (the_cell d s) = Some j \<longleftrightarrow> j < length (threads s) \<and> pc_crit (pc (thr j s)) = Some d"
    using assms(1,4) unfolding lock_inv_def by simp
  then show "writer_lock (the_cell d s') = Some j \<longleftrightarrow> j < length (threads s') \<and> pc_crit (pc (thr j s')) = Some d"
    using assms(2,3,6) by (cases "j = i") (simp_all add: assms(5) nth_list_update)
qed

lemma lock_inv_cong: "lock_inv s \<Longrightarrow> threads s' = threads s \<Longrightarrow> cells s' = cells s \<Longrightarrow> lock_inv s'"
  by (simp add: lock_inv_def)

lemma lock_inv_take:
  assumes "lock_inv s" "i < length (threads s)" "threads s' = (threads s)[i := t']"
    and "cells s' = (cells s)[c := (the_cell c s)\<lparr>writer_lock := Some i\<rparr>]" "c < length (cells s)"
    and "writer_lock (the_cell c s) = None" "pc_crit (pc (thr i s)) = None" "pc_crit (pc t') = Some c"
  shows "lock_inv s'"
  unfolding lock_inv_def
proof (intro allI impI)
  fix d j assume "d < length (cells s')"
  then have iff: "writer_lock (the_cell d s) = Some j \<longleftrightarrow> j < length (threads s) \<and> pc_crit (pc (thr j s)) = Some d"
    using assms(1,4) unfolding lock_inv_def by simp
  have no: "\<not> (j < length (threads s) \<and> pc_crit (pc (thr j s)) = Some d)" if "d = c" using iff assms(6) that by simp
  show "writer_lock (the_cell d s') = Some j \<longleftrightarrow> j < length (threads s') \<and> pc_crit (pc (thr j s')) = Some d"
  proof (cases "d = c"; cases "j = i")
    assume "d = c" "j = i"
    then show ?thesis using assms by (simp add: nth_list_update)
  next
    assume "d = c" "j \<noteq> i"
    then show ?thesis using assms no by (auto simp: nth_list_update)
  next
    assume "d \<noteq> c" "j = i"
    then show ?thesis using assms iff  by (simp add: nth_list_update)
  next
    assume "d \<noteq> c" "j \<noteq> i"
    then show ?thesis using assms(3,4) iff by (simp add: nth_list_update)
  qed
qed

lemma lock_inv_give:
  assumes "lock_inv s" "i < length (threads s)" "threads s' = (threads s)[i := t']"
    and "cells s' = (cells s)[c := (the_cell c s)\<lparr>writer_lock := None\<rparr>]" "c < length (cells s)"
    and "pc_crit (pc (thr i s)) = Some c" "pc_crit (pc t') = None"
  shows "lock_inv s'"
  unfolding lock_inv_def
proof (intro allI impI)
  fix d j assume "d < length (cells s')"
  then have iff: "writer_lock (the_cell d s) = Some j \<longleftrightarrow> j < length (threads s) \<and> pc_crit (pc (thr j s)) = Some d"
    using assms(1,4) unfolding lock_inv_def by simp
  have uniq: "j = i" if "j < length (threads s)" "pc_crit (pc (thr j s)) = Some c"
    using lock_inv_unique [OF assms(1,5) that(1) assms(2) that(2) assms(6)] .
  have holder: "writer_lock (the_cell c s) = Some i"
    using assms(1,2,5,6) unfolding lock_inv_def by simp
  show "writer_lock (the_cell d s') = Some j \<longleftrightarrow> j < length (threads s') \<and> pc_crit (pc (thr j s')) = Some d"
  proof (cases "d = c"; cases "j = i")
    assume "d = c" "j = i"
    then show ?thesis using assms by (simp add: nth_list_update)
  next
    assume "d = c" "j \<noteq> i"
    then show ?thesis using assms uniq by (auto simp: nth_list_update)
  next
    assume "d \<noteq> c" "j = i"
    then show ?thesis using assms iff  by (simp add: nth_list_update)
  next
    assume "d \<noteq> c" "j \<noteq> i"
    then show ?thesis using assms(3,4) iff by (simp add: nth_list_update)
  qed
qed

lemma lock_inv_step:
  assumes step: "tr i s s'" and i: "i < length (threads s)" and ok: "cells_ok s" and inv: "lock_inv s"
  shows "lock_inv s'"
proof -
  have pcs: "\<forall>c\<in>set (pc_cells (pc (thr i s))). c < length (cells s)" using ok i by (auto simp: cells_ok_def)
  note same = lock_inv_same [OF inv i _ tr_length(2) [OF step]]
  note take = lock_inv_take [OF inv i]
  note give = lock_inv_give [OF inv i]
  from step show ?thesis
    by cases ((rule lock_inv_cong [OF inv]; simp; fail) |
      (rule same, simp; simp add: pc_crit_def no_slot_def nth_update split: rkind.splits; fail) |
      (rule take, simp, simp; use pcs in \<open>simp add: pc_crit_def pc_cells_def\<close>; fail) |
      (rule give, simp, simp; use pcs in \<open>simp add: pc_crit_def pc_cells_def\<close>))+
qed

lemma lock_inv_init: "lock_inv (init_machine n vs)"
  by (auto simp: lock_inv_def init_machine_def init_cell_def pc_crit_def)

section \<open>The fallback counters\<close>

definition fb_inv :: "'v machine \<Rightarrow> bool" where
  "fb_inv s \<longleftrightarrow> (\<forall>c<length (cells s). fallback_readers (the_cell c s) = thread_sum (\<lambda>t. count_list (fb_cells t) c) s)"

lemma fb_inv_upd:
  assumes "fb_inv s" "i < length (threads s)" "threads s' = (threads s)[i := t']" "length (cells s') = length (cells s)"
    and "\<And>c. c < length (cells s) \<Longrightarrow> fallback_readers (the_cell c s') + count_list (fb_cells (thr i s)) c =
       fallback_readers (the_cell c s) + count_list (fb_cells t') c"
  shows "fb_inv s'"
  unfolding fb_inv_def
proof (intro allI impI)
  fix c assume c: "c < length (cells s')"
  have "fallback_readers (the_cell c s) = thread_sum (\<lambda>t. count_list (fb_cells t) c) s"
    using assms(1,4) c by (simp add: fb_inv_def)
  then show "fallback_readers (the_cell c s') = thread_sum (\<lambda>t. count_list (fb_cells t) c) s'"
    using thread_sum_upd [OF assms(2,3), of "\<lambda>t. count_list (fb_cells t) c"] assms(5) [of c] c assms(4) by simp
qed

lemma fb_inv_cong: "fb_inv s \<Longrightarrow> threads s' = threads s \<Longrightarrow> cells s' = cells s \<Longrightarrow> fb_inv s'"
  by (simp add: fb_inv_def thread_sum_def)

lemma fb_inv_step:
  assumes step: "tr i s s'" and i: "i < length (threads s)" and ok: "cells_ok s" and inv: "fb_inv s"
  shows "fb_inv s'"
proof -
  note upd = fb_inv_upd [OF inv i _ tr_length(2) [OF step]]
  note vs = fb_cells_def pc_fb_def
  from step show ?thesis
  proof cases
    case (fb_leave c d)
    have "0 < fallback_readers (the_cell c s)"
      using inv thread_sum_ge [OF i, of "\<lambda>t. count_list (fb_cells t) c"] fb_leave cells_okD [OF ok i, of c]
      by (simp add: fb_inv_def vs pc_cells_def)
    then show ?thesis by (intro upd, use fb_leave in simp) (use fb_leave in \<open>auto simp: vs nth_update\<close>)
  qed ((rule fb_inv_cong [OF inv]; simp; fail) |
      (rule upd, simp; simp add: vs no_slot_def nth_update split: rkind.splits))+
qed

lemma fb_inv_init: "fb_inv (init_machine n vs)"
  by (auto simp: fb_inv_def init_machine_def init_cell_def thread_sum_def sum_list_replicate)

end
