(* ===== verification/SnapMem.thy ===== *)
theory SnapMem
  imports SnapLock
begin

text \<open>
  Memory under interleaving (\<open>mem_inv\<close>): the reference count of every allocation is the number of
  references to it (from the cells, from the threads, from the handles given out), a freed
  address has none, and a value is the current or a retired value of at most one cell, at
  most once. The reads in progress hold no references: what keeps their values alive is
  the subject of the next theory.
\<close>

section \<open>The invariant\<close>

definition rc :: "'v machine \<Rightarrow> addr \<Rightarrow> nat" where
  "rc s a = (case heap s a of None \<Rightarrow> 0 | Some x \<Rightarrow> strong x)"

definition cref :: "cell \<Rightarrow> addr \<Rightarrow> nat" where
  "cref x a = of_bool (current x = a) + count_list (retired x) a"

definition cell_refs :: "'v machine \<Rightarrow> addr \<Rightarrow> nat" where
  "cell_refs s a = (\<Sum>x\<leftarrow>cells s. cref x a)"

definition refs :: "'v machine \<Rightarrow> addr \<Rightarrow> nat" where
  "refs s a = cell_refs s a + thread_sum (\<lambda>t. count_list (owns t) a) s + count_list (pool s) a"

definition mem_inv :: "'v machine \<Rightarrow> bool" where
  "mem_inv s \<longleftrightarrow> heap s null = None \<and> (\<forall>a x. heap s a = Some x \<longrightarrow> 0 < strong x) \<and> (\<forall>a. rc s a = refs s a) \<and>
     (\<forall>a. cell_refs s a + thread_sum (\<lambda>t. count_list (pc_new (pc t)) a) s \<le> 1)"

lemma mem_inv_live: "mem_inv s \<Longrightarrow> heap s a \<noteq> None \<longleftrightarrow> 0 < refs s a"
  unfolding mem_inv_def rc_def by (cases "heap s a") (metis less_irrefl option.simps(4), metis option.simps(5) option.distinct(1))

lemma count_pos: "x \<in> set xs \<Longrightarrow> 0 < count_list xs x"
  by (simp add: count_list_0_iff zero_less_iff_neq_zero)

lemma cref_cell: "c < length (cells s) \<Longrightarrow> cref (the_cell c s) a \<le> cell_refs s a"
  unfolding cell_refs_def by (rule sum_list_member_le_nat) simp

lemma liveI: "mem_inv s \<Longrightarrow> 0 < refs s a \<Longrightarrow> heap s a \<noteq> None"
  using mem_inv_live by blast

lemma own_live: "mem_inv s \<Longrightarrow> i < length (threads s) \<Longrightarrow> a \<in> set (owns (thr i s)) \<Longrightarrow> heap s a \<noteq> None"
  using thread_sum_ge [of i s "\<lambda>t. count_list (owns t) a"] count_pos [of a "owns (thr i s)"]
  by (intro liveI) (simp_all add: refs_def)

lemma pool_live: "mem_inv s \<Longrightarrow> a \<in> set (pool s) \<Longrightarrow> heap s a \<noteq> None"
  using count_pos [of a "pool s"] by (intro liveI) (simp_all add: refs_def)

lemma cell_live:
  assumes "mem_inv s" "c < length (cells s)" "a = current (the_cell c s) \<or> a \<in> set (retired (the_cell c s))"
  shows "heap s a \<noteq> None"
proof -
  have "0 < cref (the_cell c s) a" using assms(3) count_pos [of a "retired (the_cell c s)"] by (auto simp: cref_def)
  then show ?thesis using cref_cell [OF assms(2), of a] by (intro liveI [OF assms(1)]) (simp add: refs_def)
qed

lemma current_not_null: "mem_inv s \<Longrightarrow> c < length (cells s) \<Longrightarrow> current (the_cell c s) \<noteq> null"
  using cell_live [of s c "current (the_cell c s)"] unfolding mem_inv_def by metis

lemma current_not_retired:
  assumes "mem_inv s" "c < length (cells s)"
  shows "current (the_cell c s) \<notin> set (retired (the_cell c s))"
proof
  assume "current (the_cell c s) \<in> set (retired (the_cell c s))"
  then have "2 \<le> cref (the_cell c s) (current (the_cell c s))" using count_pos by (fastforce simp: cref_def)
  then show False using cref_cell [OF assms(2), of "current (the_cell c s)"] assms(1)
    by (auto simp: mem_inv_def dest!: spec [of _ "current (the_cell c s)"])
qed

lemma free_no_refs: "mem_inv s \<Longrightarrow> heap s a = None \<Longrightarrow> refs s a = 0"
  using mem_inv_live [of s a] by simp

section \<open>Preservation\<close>

lemma pc_new_owns: "count_list (pc_new (pc t)) a \<le> count_list (owns t) a"
  by (auto simp: pc_new_def owns_def pc_own_def split: pc.splits)

lemma thread_sum_mono: "(\<And>t. f t \<le> g t) \<Longrightarrow> thread_sum f s \<le> thread_sum g s"
  unfolding thread_sum_def by (rule sum_list_mono)

lemma mem_inv_balance:
  assumes inv: "mem_inv s" and i: "i < length (threads s)" and thr: "threads s' = (threads s)[i := t']"
    and cr: "\<And>a. cell_refs s' a + old a = cell_refs s a + new a"
    and pos: "heap s' null = None" "\<And>a y. heap s' a = Some y \<Longrightarrow> 0 < strong y"
    and bal: "\<And>a. rc s' a + old a + count_list (owns (thr i s)) a + count_list (pool s) a =
       rc s a + new a + count_list (owns t') a + count_list (pool s') a"
    and uniq: "\<And>a. new a + count_list (pc_new (pc t')) a \<le> old a + count_list (pc_new (pc (thr i s))) a \<or>
       heap s a = None \<and> new a + count_list (pc_new (pc t')) a \<le> 1"
  shows "mem_inv s'"
proof -
  have ow: "thread_sum (\<lambda>t. count_list (owns t) a) s' + count_list (owns (thr i s)) a =
      thread_sum (\<lambda>t. count_list (owns t) a) s + count_list (owns t') a" for a
    by (rule thread_sum_upd [OF i thr])
  have nw: "thread_sum (\<lambda>t. count_list (pc_new (pc t)) a) s' + count_list (pc_new (pc (thr i s))) a =
      thread_sum (\<lambda>t. count_list (pc_new (pc t)) a) s + count_list (pc_new (pc t')) a" for a
    by (rule thread_sum_upd [OF i thr])
  have "rc s' a = refs s' a" for a
    using bal [of a] cr [of a] ow [of a] inv unfolding mem_inv_def refs_def
    by (auto dest!: spec [of _ a])
  moreover have "cell_refs s' a + thread_sum (\<lambda>t. count_list (pc_new (pc t)) a) s' \<le> 1" for a
    using uniq [of a]
  proof
    assume "new a + count_list (pc_new (pc t')) a \<le> old a + count_list (pc_new (pc (thr i s))) a"
    moreover have "cell_refs s a + thread_sum (\<lambda>t. count_list (pc_new (pc t)) a) s \<le> 1" using inv by (simp add: mem_inv_def)
    ultimately show ?thesis using cr [of a] nw [of a] by linarith
  next
    assume *: "heap s a = None \<and> new a + count_list (pc_new (pc t')) a \<le> 1"
    have "thread_sum (\<lambda>t. count_list (pc_new (pc t)) a) s \<le> thread_sum (\<lambda>t. count_list (owns t) a) s"
      by (rule thread_sum_mono) (rule pc_new_owns)
    with * free_no_refs [OF inv, of a] have "cell_refs s a = 0" "thread_sum (\<lambda>t. count_list (pc_new (pc t)) a) s = 0"
      by (simp_all add: refs_def)
    with * show ?thesis using cr [of a] nw [of a] by linarith
  qed
  ultimately show ?thesis using pos by (simp add: mem_inv_def)
qed

lemma cell_refs_upd:
  assumes "cells s' = (cells s)[c := x]" "c < length (cells s)"
  shows "cell_refs s' a + cref (the_cell c s) a = cell_refs s a + cref x a"
  using sum_list_update_nat [OF assms(2), of "\<lambda>x. cref x a" x] by (simp add: cell_refs_def assms(1))

lemma rc_clone:
  assumes "heap s p \<noteq> None" shows "rc (clone_ref p s) a = rc s a + of_bool (a = p)"
  using assms by (auto simp: rc_def clone_ref_def arc_clone_def split: option.splits)

lemma rc_drop:
  assumes "heap s p \<noteq> None" "mem_inv s" shows "rc (drop_ref p s) a + of_bool (a = p) = rc s a"
proof -
  obtain x where "heap s p = Some x" "0 < strong x" using assms by (auto simp: mem_inv_def)
  then show ?thesis by (auto simp: rc_def drop_ref_def arc_drop_def)
qed

lemma heap_clone:
  assumes "heap s p \<noteq> None" "mem_inv s"
  shows "heap (clone_ref p s) null = None" "heap (clone_ref p s) a = Some y \<Longrightarrow> 0 < strong y"
  using assms by (auto simp: clone_ref_def arc_clone_def mem_inv_def split: option.splits if_splits)

lemma heap_drop:
  assumes "mem_inv s"
  shows "heap (drop_ref p s) null = None" "heap (drop_ref p s) a = Some y \<Longrightarrow> 0 < strong y"
  using assms by (auto simp: drop_ref_def arc_drop_def mem_inv_def split: option.splits if_splits)

lemma cell_refs_same:
  assumes "cells s' = (cells s)[c := x]" "current x = current (the_cell c s)" "retired x = retired (the_cell c s)"
  shows "cell_refs s' a = cell_refs s a"
proof (cases "c < length (cells s)")
  case True
  have "cref x a = cref (the_cell c s) a" using assms by (simp add: cref_def)
  then show ?thesis using cell_refs_upd [OF assms(1) True, of a] by simp
qed (simp add: cell_refs_def assms(1) list_update_beyond)

lemma cell_refs_cong: "cells s' = cells s \<Longrightarrow> cell_refs s' a = cell_refs s a"
  by (simp add: cell_refs_def)

lemma mem_inv_cong:
  "mem_inv s \<Longrightarrow> threads s' = threads s \<Longrightarrow> cells s' = cells s \<Longrightarrow> pool s' = pool s \<Longrightarrow> heap s' = heap s \<Longrightarrow> mem_inv s'"
  by (simp add: mem_inv_def refs_def rc_def cell_refs_def thread_sum_def)

lemma mem_inv_same:
  assumes "mem_inv s" "i < length (threads s)" "threads s' = (threads s)[i := t']"
    and "\<And>a. cell_refs s' a = cell_refs s a" "heap s' = heap s"
    and "\<And>a. count_list (owns (thr i s)) a + count_list (pool s) a = count_list (owns t') a + count_list (pool s') a"
    and "\<And>a. count_list (pc_new (pc t')) a \<le> count_list (pc_new (pc (thr i s))) a"
  shows "mem_inv s'"
proof (rule mem_inv_balance [OF assms(1-3), of "\<lambda>_. 0" "\<lambda>_. 0"])
  show "heap s' null = None" using assms(1,5) by (simp add: mem_inv_def)
  show "0 < strong y" if "heap s' a = Some y" for a y using assms(1,5) that by (simp add: mem_inv_def)
  show "rc s' a + 0 + count_list (owns (thr i s)) a + count_list (pool s) a =
      rc s a + 0 + count_list (owns t') a + count_list (pool s') a" for a
    using assms(6) [of a] by (simp add: rc_def assms(5))
qed (use assms(4,7) in auto)

lemma mem_inv_clone:
  assumes inv: "mem_inv s" and i: "i < length (threads s)" and thr: "threads s' = (threads s)[i := t']"
    and cells: "cells s' = cells s" and h: "heap s' = heap (clone_ref p s)" and p: "heap s p \<noteq> None"
    and own: "\<And>a. count_list (owns (thr i s)) a + count_list (pool s) a + of_bool (a = p) = count_list (owns t') a + count_list (pool s') a"
    and new: "\<And>a. count_list (pc_new (pc t')) a \<le> count_list (pc_new (pc (thr i s))) a"
  shows "mem_inv s'"
proof (rule mem_inv_balance [OF inv i thr, of "\<lambda>_. 0" "\<lambda>_. 0"])
  show "heap s' null = None" using heap_clone(1) [OF p inv] by (simp add: h)
  show "0 < strong y" if "heap s' a = Some y" for a y using heap_clone(2) [OF p inv, of a y] that by (simp add: h)
  show "rc s' a + 0 + count_list (owns (thr i s)) a + count_list (pool s) a =
      rc s a + 0 + count_list (owns t') a + count_list (pool s') a" for a
  proof -
    have "rc s' a = rc (clone_ref p s) a" by (simp add: rc_def h)
    then show ?thesis using own [of a] rc_clone [OF p, of a] by simp
  qed
qed (use new cell_refs_cong [OF cells] in auto)

lemma mem_inv_drop:
  assumes inv: "mem_inv s" and i: "i < length (threads s)" and thr: "threads s' = (threads s)[i := t']"
    and cells: "cells s' = cells s" and h: "heap s' = heap (drop_ref p s)" and pool: "pool s' = pool s"
    and own: "\<And>a. count_list (owns (thr i s)) a = count_list (owns t') a + of_bool (a = p)"
    and new: "\<And>a. count_list (pc_new (pc t')) a \<le> count_list (pc_new (pc (thr i s))) a"
  shows "mem_inv s'"
proof (rule mem_inv_balance [OF inv i thr, of "\<lambda>_. 0" "\<lambda>_. 0"])
  have "p \<in> set (owns (thr i s))" using own [of p] count_list_0_iff [of "owns (thr i s)" p] by auto
  then have p: "heap s p \<noteq> None" by (rule own_live [OF inv i])
  show "heap s' null = None" using heap_drop(1) [OF inv] by (simp add: h)
  show "0 < strong y" if "heap s' a = Some y" for a y using heap_drop(2) [OF inv, of p a y] that by (simp add: h)
  show "rc s' a + 0 + count_list (owns (thr i s)) a + count_list (pool s) a =
      rc s a + 0 + count_list (owns t') a + count_list (pool s') a" for a
  proof -
    have "rc s' a = rc (drop_ref p s) a" by (simp add: rc_def h)
    then show ?thesis using own [of a] rc_drop [OF p inv, of a] by (simp add: pool)
  qed
qed (use new cell_refs_cong [OF cells] in auto)

lemma mem_inv_new:
  assumes inv: "mem_inv s" and i: "i < length (threads s)" and thr: "threads s' = (threads s)[i := t']"
    and cells: "cells s' = cells s" and pool: "pool s' = pool s"
    and h: "heap s' = (heap s)(p \<mapsto> \<lparr>strong = 1, arc_val = v\<rparr>)" and p: "p \<noteq> null" "heap s p = None"
    and own: "\<And>a. count_list (owns (thr i s)) a + of_bool (a = p) = count_list (owns t') a"
    and new: "pc_new (pc t') = [p]"
  shows "mem_inv s'"
proof (rule mem_inv_balance [OF inv i thr, of "\<lambda>_. 0" "\<lambda>_. 0"])
  show "heap s' null = None" using inv p by (simp add: h mem_inv_def)
  show "0 < strong y" if "heap s' a = Some y" for a y using inv that by (auto simp: h mem_inv_def split: if_splits)
  show "rc s' a + 0 + count_list (owns (thr i s)) a + count_list (pool s) a =
      rc s a + 0 + count_list (owns t') a + count_list (pool s') a" for a
    using own [of a] p by (cases "a = p") (simp_all add: rc_def h pool)
qed (use new p cell_refs_cong [OF cells] in auto)

lemma mem_inv_cell:
  assumes inv: "mem_inv s" and i: "i < length (threads s)" and thr: "threads s' = (threads s)[i := t']"
    and c: "c < length (cells s)" and cells: "cells s' = (cells s)[c := x]" and h: "heap s' = heap s" and pool: "pool s' = pool s"
    and bal: "\<And>a. cref (the_cell c s) a + count_list (owns (thr i s)) a = cref x a + count_list (owns t') a"
    and uniq: "\<And>a. cref x a + count_list (pc_new (pc t')) a \<le> cref (the_cell c s) a + count_list (pc_new (pc (thr i s))) a"
  shows "mem_inv s'"
proof (rule mem_inv_balance [OF inv i thr cell_refs_upd [OF cells c]])
  show "heap s' null = None" using inv by (simp add: h mem_inv_def)
  show "0 < strong y" if "heap s' a = Some y" for a y using inv that by (simp add: h mem_inv_def)
  show "rc s' a + cref (the_cell c s) a + count_list (owns (thr i s)) a + count_list (pool s) a =
      rc s a + cref x a + count_list (owns t') a + count_list (pool s') a" for a
    using bal [of a] by (simp add: rc_def h pool)
qed (use uniq in blast)

lemma count_list_remove:
  assumes "k < length xs"
  shows "count_list xs a = (if xs ! k = a then 1 else 0) + count_list (take k xs) a + count_list (drop (Suc k) xs) a"
proof -
  have "count_list xs a = count_list (take k xs @ xs ! k # drop (Suc k) xs) a" using id_take_nth_drop [OF assms] by simp
  then show ?thesis by simp
qed

lemma count_list_mset: "count_list xs a = count (mset xs) a"
  by (simp add: count_mset)

lemma mem_inv_step:
  assumes step: "tr i s s'" and i: "i < length (threads s)" and ok: "cells_ok s" and inv: "mem_inv s"
    and rd: "\<And>c p g pn. (c, p, g, pn) \<in> set (reads (thr i s)) \<Longrightarrow> heap s p \<noteq> None"
    and upd: "\<And>c raw new. pc (thr i s) = UpdStore c raw new \<Longrightarrow> raw = current (the_cell c s)"
  shows "mem_inv s'"
proof -
  note same = mem_inv_same [OF inv i]
  note c = cells_okD [OF ok i]
  note vs = owns_def pc_own_def pc_new_def
  from step show ?thesis
  proof cases
    case (drop_pool k)
    show ?thesis
    proof (rule same)
      show "threads s' = (threads s)[i := (thr i s)\<lparr>pc := DropArc (pool s ! k)\<rparr>]" using drop_pool by simp
      show "count_list (owns (thr i s)) a + count_list (pool s) a =
        count_list (owns ((thr i s)\<lparr>pc := DropArc (pool s ! k)\<rparr>)) a + count_list (pool s') a" for a
        using drop_pool by (simp add: vs count_list_append count_list_remove [OF drop_pool(3), of a])
    qed (use drop_pool in \<open>auto simp: vs intro: cell_refs_cong\<close>)
  next
    case (load_inc c pn p g)
    have "heap s p \<noteq> None" using load_inc by (intro rd [of c p g pn]) (simp add: reads_def pc_reads_def)
    then show ?thesis by (intro mem_inv_clone [OF inv i, of _ _ p], use load_inc in simp) (use load_inc in \<open>auto simp: vs\<close>)
  next
    case (sweep c acc kept freed)
    have "c < length (cells s)" using sweep by (intro c) (simp add: pc_cells_def)
    then show ?thesis
      by (intro mem_inv_cell [OF inv i, of _ _ c], use sweep in simp)
        (use sweep collect_loop_spec(3) [OF sweep(3)] in \<open>auto simp: vs cref_def count_list_append count_list_mset\<close>)
  next
    case (drop_one a as)
    show ?thesis by (rule mem_inv_drop [OF inv i, of _ _ a], use drop_one in simp) (use drop_one in \<open>auto simp: vs\<close>)
  next
    case (locked_clone k c raw)
    have "c < length (cells s)" using locked_clone by (intro c) (simp add: pc_cells_def)
    then have "heap s raw \<noteq> None" using locked_clone by (intro cell_live [OF inv]) auto
    then show ?thesis by (intro mem_inv_clone [OF inv i, of _ _ raw], use locked_clone in simp)
        (use locked_clone in \<open>auto simp: vs\<close>)
  next
    case (fb_drop c a)
    show ?thesis by (rule mem_inv_drop [OF inv i, of _ _ a], use fb_drop in simp) (use fb_drop in \<open>auto simp: vs\<close>)
  next
    case (drop_arc a)
    show ?thesis by (rule mem_inv_drop [OF inv i, of _ _ a], use drop_arc in simp) (use drop_arc in \<open>auto simp: vs\<close>)
  next
    case (upd_new c f raw a v)
    show ?thesis by (rule mem_inv_new [OF inv i, of _ _ a v], use upd_new in simp) (use upd_new in \<open>auto simp: vs arc_new_at_def\<close>)
  next
    case (upd_store c raw new)
    have "c < length (cells s)" using upd_store by (intro c) (simp add: pc_cells_def)
    moreover have "raw = current (the_cell c s)" using upd_store by (intro upd)
    ultimately show ?thesis
      by (intro mem_inv_cell [OF inv i, of _ _ c], use upd_store in simp)
        (use upd_store in \<open>auto simp: vs cref_def count_list_append\<close>)
  qed ((rule mem_inv_cong [OF inv]; simp; fail) |
      (rule same, simp; auto simp: vs no_slot_def count_list_append intro: cell_refs_same cell_refs_cong split: rkind.splits; fail))+
qed

lemma count_list_upt: "count_list [1..<Suc n] a = of_bool (1 \<le> a \<and> a \<le> n)"
  by (induction n) auto

lemma sum_list_of_bool: "(\<Sum>x\<leftarrow>xs. of_bool (x = a)) = count_list xs a"
  by (induction xs) auto

lemma cell_refs_init: "cell_refs (init_machine n vs) a = of_bool (1 \<le> a \<and> a \<le> length vs)"
proof -
  have "cell_refs (init_machine n vs) a = (\<Sum>x\<leftarrow>[1..<Suc (length vs)]. of_bool (x = a))"
    by (simp add: cell_refs_def init_machine_def cref_def init_cell_def comp_def del: upt_Suc)
  also have "\<dots> = count_list [1..<Suc (length vs)] a"
    by (rule sum_list_of_bool)
  finally show ?thesis by (simp only: count_list_upt)
qed

lemma mem_inv_init: "mem_inv (init_machine n vs)"
proof -
  have "thread_sum f (init_machine n vs :: 'a machine) = 0" if "f init_thread = 0" for f
    using that by (simp add: thread_sum_def init_machine_def sum_list_replicate)
  then show ?thesis
    by (auto simp: mem_inv_def refs_def cell_refs_init pc_new_def)
      (auto simp: init_machine_def rc_def split: if_splits)
qed

end
