(* ===== verification/SnapSafe.thy ===== *)
theory SnapSafe
  imports SnapMem
begin

text \<open>
  Why a borrowed value is never freed. A read that has validated its announcement
  refers to the current or to a retired value of its cell (\<open>ref_inv\<close>); a collector that is
  scanning the records has already seen that announcement or will still reach its
  slot (\<open>scan_inv\<close>), so the sweep keeps the value.
\<close>

section \<open>What a step can change\<close>

lemma tr_thr:
  assumes "tr i s s'" "j \<noteq> i" shows "thr j s' = thr j s"
  using assms by (elim tr_threads) simp

lemma tr_current:
  assumes "tr i s s'"
  shows "current (the_cell c s') = current (the_cell c s) \<or>
    (\<exists>raw. pc (thr i s) = UpdStore c raw (current (the_cell c s')))"
  using assms by cases (simp_all add: nth_update)

lemma tr_retired:
  assumes "tr i s s'"
  shows "retired (the_cell c s') = retired (the_cell c s) \<or>
    (\<exists>raw new. pc (thr i s) = UpdStore c raw new \<and> retired (the_cell c s') = retired (the_cell c s) @ [raw]) \<or>
    (\<exists>acc freed. pc (thr i s) = Sweep c acc \<and> collect_loop acc (retired (the_cell c s)) 0 [] = (retired (the_cell c s'), freed))"
  using assms by cases (simp_all add: nth_update)

lemma tr_reads:
  assumes "tr i s s'" "i < length (threads s)" "x \<in> set (reads (thr i s'))"
  shows "x \<in> set (reads (thr i s)) \<or>
    (\<exists>k c pn. pc (thr i s) = Validate k c pn (current (the_cell c s)) \<and>
       x = (c, current (the_cell c s), stamps s (current (the_cell c s)), pn))"
  using assms by cases (auto simp: reads_def pc_reads_def no_slot_def split: rkind.splits)

lemma tr_stamps:
  assumes "tr i s s'" "heap s a \<noteq> None"
  shows "stamps s' a = stamps s a"
  using assms by cases auto

lemma raw_unpublished:
  assumes "rec_inv s" "i < length (threads s)" "pc_raw (pc (thr i s)) = Some raw"
  shows "raw \<notin> published (haz s)" "0 < raw" "raw \<le> n_records (haz s)"
proof -
  have ok: "rec_ok (haz s) (thr i s)" using assms by (simp add: rec_inv_def)
  then show "raw \<notin> published (haz s)" "0 < raw" using assms(3) by (auto simp: rec_ok_def pc_rec_ok_def)
  have "own_record (thr i s) = null"
    using ok assms(3) by (auto simp: rec_ok_def tls_ok_def pc_raw_def own_record_def split: pc.splits)
  then have "rec_of (thr i s) = raw" using assms(3) by (auto simp: rec_of_def pc_raw_def pc_rec_def split: pc.splits)
  then show "raw \<le> n_records (haz s)" using ok \<open>0 < raw\<close> by (simp add: rec_ok_def)
qed

lemma tr_haz:
  assumes step: "tr i s s'" and i: "i < length (threads s)" and inv: "rec_inv s"
    and r: "r \<in> insert null (published (haz s))"
  shows "after (haz s') r = after (haz s) r \<and> (r \<noteq> null \<longrightarrow> next_rec (record_at (haz s') r) = next_rec (record_at (haz s) r))"
proof -
  have ch: "chain_ok (haz s)" using inv by (simp add: rec_inv_def)
  have keep: ?thesis if "HEAD (haz s') = HEAD (haz s)" "n_records (haz s) \<le> n_records (haz s')"
    "\<And>x. x \<in> published (haz s) \<Longrightarrow> next_rec (record_at (haz s') x) = next_rec (record_at (haz s) x)"
    using chain_keep(3) [OF ch that r] that(3) r by blast
  note np = raw_unpublished [OF inv i]
  from step show ?thesis
  proof cases
    case exit
    show ?thesis by (rule keep) (use exit in \<open>auto simp: Local_drop_def\<close>)
  next
    case (reuse_none k c p)
    show ?thesis by (rule keep)
        (use reuse_none in \<open>auto simp: leak_record_def Let_def dest: published_bounds [OF ch]\<close>)
  next
    case (push_ok k c p raw)
    note np = np [of raw, unfolded push_ok pc_raw_def, simplified]
    have "haz s' = (set_next raw (HEAD (haz s)) (haz s))\<lparr>HEAD := raw\<rparr>" using push_ok by simp
    then show ?thesis using chain_push(3) [OF ch np _ r] np(1) r by auto
  next
    case (push_fail k c p raw h)
    note np = np [of raw, unfolded push_fail pc_raw_def, simplified]
    show ?thesis by (rule keep) (use push_fail np in auto)
  qed ((simp; fail) | (rule keep; simp))+
qed

lemma reads_pins: "(c, p, g, pn) \<in> set (reads t) \<Longrightarrow> (pn, p) \<in> set (pins t)"
proof -
  assume "(c, p, g, pn) \<in> set (reads t)"
  then consider "(c, p, g, pn) \<in> set (pc_reads (pc t))" | f where "f \<in> set (stack t)" "(c, p, g, pn) \<in> set (frame_reads f)"
    by (auto simp: reads_def)
  then show ?thesis
  proof cases
    case 1
    then show ?thesis by (auto simp: pins_def pc_reads_def pc_pins_def split: pc.splits)
  next
    case 2
    from 2(2) have "(pn, p) \<in> set (frame_pins f)" by (cases f) auto
    with 2 show ?thesis by (auto simp: pins_def)
  qed
qed

text \<open>An announcement sits in a published record, in the slot it names.\<close>

lemma pin_at_mem:
  assumes "pins_ok t" "((r, j), p) \<in> set (pins t)" shows "pin_at t j = p"
proof -
  have d: "distinct (map fst (map (\<lambda>((r, j), p). (j, p)) (pins t)))"
    using assms(1) by (simp add: pins_ok_def comp_def split_beta)
  have "(j, p) \<in> set (map (\<lambda>((r, j), p). (j, p)) (pins t))" using assms(2) by force
  then show ?thesis using map_of_is_SomeI [OF d] by (simp add: pin_at_def)
qed

lemma pin_slot:
  assumes inv: "rec_inv s" and i: "i < length (threads s)" and pn: "((r, j), p) \<in> set (pins (thr i s))"
  shows "r = own_record (thr i s)" "r \<in> published (haz s)" "j < SLOTS" "p \<noteq> null" "load_slot (haz s) (r, j) = p"
proof -
  have ok: "rec_ok (haz s) (thr i s)" using inv i by (simp add: rec_inv_def)
  then have pk: "pins_ok (thr i s)" by (simp add: rec_ok_def)
  then show r: "r = own_record (thr i s)" "j < SLOTS" "p \<noteq> null" using pn by (auto simp: pins_ok_def)
  have nn: "own_record (thr i s) \<noteq> null" using pk pn by (auto simp: pins_ok_def)
  then show "r \<in> published (haz s)" using ok r by (simp add: rec_ok_def)
  show "load_slot (haz s) (r, j) = p"
    using ok r nn pin_at_mem [OF pk pn] by (simp add: rec_ok_def rec_of_def load_slot_def)
qed

section \<open>Allocation stamps\<close>

definition stamp_inv :: "'v machine \<Rightarrow> bool" where
  "stamp_inv s \<longleftrightarrow> (\<forall>a. heap s a \<noteq> None \<longrightarrow> stamps s a < clock s) \<and>
     (\<forall>i<length (threads s). \<forall>c raw new. pc (thr i s) = UpdStore c raw new \<longrightarrow>
        raw = current (the_cell c s) \<and> stamps s raw < stamps s new)"

lemma stamp_inv_step:
  assumes step: "tr i s s'" and i: "i < length (threads s)" and ok: "cells_ok s" and mem: "mem_inv s"
    and lock: "lock_inv s" and inv: "stamp_inv s"
  shows "stamp_inv s'"
proof -
  have clk: "stamps s a < clock s" if "heap s a \<noteq> None" for a using inv that by (simp add: stamp_inv_def)
  have "stamps s' a < clock s'" if "heap s' a \<noteq> None" for a
    using step
  proof cases
    case (upd_new c f raw a v)
    then show ?thesis using that clk by (auto simp: arc_new_at_def less_Suc_eq)
  qed (use that clk in \<open>auto simp: drop_ref_def arc_drop_def clone_ref_def arc_clone_def split: option.splits if_splits\<close>)
  moreover have "raw = current (the_cell c s') \<and> stamps s' raw < stamps s' new"
    if j: "j < length (threads s')" and pc: "pc (thr j s') = UpdStore c raw new" for j c raw new
  proof (cases "j = i")
    case True
    from step i pc [unfolded True] show ?thesis
    proof cases
      case (upd_new c' f raw' a v)
      then have c: "c' = c" "raw' = raw" "a = new" using pc True i by auto
      have "c < length (cells s)" using cells_okD [OF ok i, of c] upd_new c by (simp add: pc_cells_def)
      then have "heap s raw \<noteq> None" using upd_new c by (intro cell_live [OF mem]) auto
      then show ?thesis using upd_new c clk by auto
    qed (use i in \<open>auto simp: no_slot_def split: rkind.splits\<close>)
  next
    case False
    have j': "j < length (threads s)" using j tr_length(1) [OF step] by simp
    have pc': "pc (thr j s) = UpdStore c raw new" using pc tr_thr [OF step False] by simp
    have old: "raw = current (the_cell c s)" "stamps s raw < stamps s new" using inv j' pc' by (auto simp: stamp_inv_def)
    have c: "c < length (cells s)" using cells_okD [OF ok j', of c] pc' by (simp add: pc_cells_def)
    have "pc_crit (pc (thr i s)) \<noteq> Some c"
      using lock_inv_unique [OF lock c i j'] False pc' by (auto simp: pc_crit_def)
    then have cur: "current (the_cell c s') = current (the_cell c s)"
      using tr_current [OF step, of c] by (auto simp: pc_crit_def)
    have "heap s raw \<noteq> None" using c old(1) by (intro cell_live [OF mem]) auto
    moreover have "heap s new \<noteq> None"
      using pc' by (intro own_live [OF mem j']) (simp add: owns_def pc_own_def)
    ultimately show ?thesis using old cur tr_stamps [OF step] by simp
  qed
  ultimately show ?thesis by (simp add: stamp_inv_def)
qed

lemma stamp_inv_init: "stamp_inv (init_machine n vs)"
  by (auto simp: stamp_inv_def init_machine_def)

section \<open>Reads in progress and the collector's scan\<close>

definition live_read :: "'v machine \<Rightarrow> nat \<times> addr \<times> nat \<times> slot_ref \<Rightarrow> bool" where
  "live_read s = (\<lambda>(c, p, g, pn). c < length (cells s) \<and>
     (p = current (the_cell c s) \<or> p \<in> set (retired (the_cell c s))) \<and> stamps s p = g)"

definition ref_inv :: "'v machine \<Rightarrow> bool" where
  "ref_inv s \<longleftrightarrow> (\<forall>i<length (threads s). \<forall>x\<in>set (reads (thr i s)). live_read s x)"

text \<open>The slots a scan at slot \<open>k\<close> of record \<open>r\<close> still has before it.\<close>

definition ahead :: "hazard_domain \<Rightarrow> rptr \<Rightarrow> nat \<Rightarrow> slot_ref set" where
  "ahead h r k = {(r', k'). r \<noteq> null \<and> (r' = r \<and> k \<le> k' \<or> r' \<in> after h (next_rec (record_at h r)))}"

definition pc_scan :: "'v pc \<Rightarrow> (nat \<times> rptr \<times> nat \<times> addr list) option" where
  "pc_scan q = (case q of Scan c r k acc \<Rightarrow> Some (c, r, k, acc) | Sweep c acc \<Rightarrow> Some (c, null, 0, acc) | _ \<Rightarrow> None)"

definition scan_ok :: "'v machine \<Rightarrow> nat \<Rightarrow> rptr \<Rightarrow> nat \<Rightarrow> addr list \<Rightarrow> bool" where
  "scan_ok s c r k acc \<longleftrightarrow> (\<forall>i<length (threads s). \<forall>p g rn. (c, p, g, rn) \<in> set (reads (thr i s)) \<longrightarrow>
     p \<in> set (retired (the_cell c s)) \<longrightarrow> p \<in> set acc \<or> rn \<in> ahead (haz s) r k)"

definition scan_inv :: "'v machine \<Rightarrow> bool" where
  "scan_inv s \<longleftrightarrow> (\<forall>j<length (threads s). \<forall>c r k acc. pc_scan (pc (thr j s)) = Some (c, r, k, acc) \<longrightarrow> scan_ok s c r k acc)"

lemma ahead_null [simp]: "ahead h null k = {}"
  by (simp add: ahead_def)

lemma ahead_first:
  assumes "chain_ok h" "r \<in> insert null (published h)"
  shows "(r', k') \<in> ahead h r 0 \<longleftrightarrow> r' \<in> after h r"
  using assms after_step [OF assms(1), of r] by (auto simp: ahead_def)

lemma ahead_next_slot: "(r', k') \<in> ahead h r k \<Longrightarrow> (r', k') \<noteq> (r, k) \<Longrightarrow> (r', k') \<in> ahead h r (Suc k)"
  by (auto simp: ahead_def)

lemma ahead_next_record:
  assumes "chain_ok h" "r \<in> published h" "(r', k') \<in> ahead h r k" "k' < k \<or> r' \<noteq> r"
  shows "(r', k') \<in> ahead h (next_rec (record_at h r)) 0"
  using assms ahead_first [OF assms(1) after_step(2) [OF assms(1,2)], of r' k'] by (auto simp: ahead_def)

lemma tr_ahead:
  assumes step: "tr i s s'" and i: "i < length (threads s)" and inv: "rec_inv s"
    and r: "r \<in> insert null (published (haz s))"
  shows "ahead (haz s') r k = ahead (haz s) r k"
proof (cases "r = null")
  case False
  have ch: "chain_ok (haz s)" using inv by (simp add: rec_inv_def)
  have nx: "next_rec (record_at (haz s) r) \<in> insert null (published (haz s))"
    using after_step(2) [OF ch] r False by auto
  show ?thesis using tr_haz [OF step i inv r] tr_haz [OF step i inv nx] False by (simp add: ahead_def)
qed simp

lemma read_slot:
  assumes "rec_inv s" "i < length (threads s)" "(c, p, g, r, k) \<in> set (reads (thr i s))"
  shows "r = own_record (thr i s)" "r \<in> published (haz s)" "k < SLOTS" "p \<noteq> null" "load_slot (haz s) (r, k) = p"
  using pin_slot [OF assms(1,2) reads_pins [OF assms(3)]] .

text \<open>Every read of the state after a step was live before it.\<close>

lemma tr_read_live:
  assumes step: "tr i s s'" and i: "i < length (threads s)" and ok: "cells_ok s" and inv: "ref_inv s"
    and x: "j < length (threads s)" "x \<in> set (reads (thr j s'))"
  shows "live_read s x"
proof (cases "j = i \<and> x \<notin> set (reads (thr i s))")
  case False
  then have "x \<in> set (reads (thr j s))" using x tr_thr [OF step, of j] by (cases "j = i") auto
  then show ?thesis using inv x(1) by (simp add: ref_inv_def)
next
  case True
  then obtain k c pn where "pc (thr i s) = Validate k c pn (current (the_cell c s))"
    and "x = (c, current (the_cell c s), stamps s (current (the_cell c s)), pn)"
    using tr_reads [OF step i] x(2) by blast
  moreover from this have "c < length (cells s)" using cells_okD [OF ok i, of c] by (simp add: pc_cells_def)
  ultimately show ?thesis by (simp add: live_read_def)
qed

lemma scan_ok_keep:
  assumes step: "tr i s s'" and i: "i < length (threads s)" and rec: "rec_inv s" and mem: "mem_inv s"
    and c: "c < length (cells s)" and r: "r \<in> insert null (published (haz s))"
    and ret: "retired (the_cell c s') = retired (the_cell c s)" and ok: "scan_ok s c r k acc"
  shows "scan_ok s' c r k acc"
  unfolding scan_ok_def ret tr_ahead [OF step i rec r]
proof (intro allI impI)
  fix j p g rn
  assume j: "j < length (threads s')" and x: "(c, p, g, rn) \<in> set (reads (thr j s'))"
    and p: "p \<in> set (retired (the_cell c s))"
  have j': "j < length (threads s)" using j tr_length(1) [OF step] by simp
  have "(c, p, g, rn) \<in> set (reads (thr j s))"
  proof (cases "j = i")
    case True
    have "p \<noteq> current (the_cell c s)" using current_not_retired [OF mem c] p by blast
    then show ?thesis using tr_reads [OF step i, of "(c, p, g, rn)"] x True by auto
  next
    case False
    then show ?thesis using x tr_thr [OF step False] by simp
  qed
  then show "p \<in> set acc \<or> rn \<in> ahead (haz s) r k" using ok j' p unfolding scan_ok_def by blast
qed

lemma reads_goto:
  "pc_reads q = [] \<Longrightarrow> pc_reads (pc (thr i s)) = [] \<Longrightarrow> i < length (threads s) \<Longrightarrow> reads (thr j (goto i q s)) = reads (thr j s)"
  by (cases "j = i") (simp_all add: reads_def)

lemma scan_ok_goto:
  assumes "pc_reads q = []" "pc_reads (pc (thr i s)) = []" "i < length (threads s)"
  shows "scan_ok (goto i q s) c r k acc = scan_ok s c r k acc"
  by (simp only: scan_ok_def reads_goto [OF assms]) simp

lemma scan_ok_mono:
  assumes "scan_ok s c r k acc"
    and "\<And>i p g rn. i < length (threads s) \<Longrightarrow> (c, p, g, rn) \<in> set (reads (thr i s)) \<Longrightarrow> p \<in> set acc \<or> rn \<in> ahead (haz s) r k \<Longrightarrow>
      p \<in> set acc' \<or> rn \<in> ahead (haz s) r' k'"
  shows "scan_ok s c r' k' acc'"
  using assms unfolding scan_ok_def by blast

lemma ahead_HEAD:
  assumes "rec_inv s" "i < length (threads s)" "(c, p, g, rn) \<in> set (reads (thr i s))"
  shows "rn \<in> ahead (haz s) (HEAD (haz s)) 0"
proof -
  obtain r k where rn: "rn = (r, k)" by (cases rn)
  have ch: "chain_ok (haz s)" using assms by (simp add: rec_inv_def)
  have "r \<in> published (haz s)" using read_slot(2) [OF assms(1,2)] assms(3) rn by blast
  then show ?thesis using ahead_first [OF ch HEAD_published [OF ch], of r k] rn by (simp add: published_def)
qed

lemma scan_ok_start: "rec_inv s \<Longrightarrow> scan_ok s c (HEAD (haz s)) 0 []"
  using ahead_HEAD unfolding scan_ok_def by blast

lemma scan_ok_slot:
  assumes rec: "rec_inv s" and ok: "scan_ok s c r k acc"
    and acc: "load_slot (haz s) (r, k) \<noteq> null \<Longrightarrow> load_slot (haz s) (r, k) \<in> set acc'" "set acc \<subseteq> set acc'"
  shows "scan_ok s c r (Suc k) acc'"
proof (rule scan_ok_mono [OF ok])
  fix i p g rn assume x: "i < length (threads s)" "(c, p, g, rn) \<in> set (reads (thr i s))"
    and *: "p \<in> set acc \<or> rn \<in> ahead (haz s) r k"
  obtain r' k' where rn: "rn = (r', k')" by (cases rn)
  note slot = read_slot [OF rec x(1) x(2) [unfolded rn]]
  show "p \<in> set acc' \<or> rn \<in> ahead (haz s) r (Suc k)"
  proof (cases "rn = (r, k)")
    case True
    then show ?thesis using slot(4,5) rn acc(1) by auto
  next
    case False
    then show ?thesis using * acc(2) rn ahead_next_slot by blast
  qed
qed

lemma scan_ok_record:
  assumes rec: "rec_inv s" and ok: "scan_ok s c r k acc" and r: "r \<in> published (haz s)" "SLOTS \<le> k"
  shows "scan_ok s c (next_rec (record_at (haz s) r)) 0 acc"
proof (rule scan_ok_mono [OF ok])
  fix i p g rn assume x: "i < length (threads s)" "(c, p, g, rn) \<in> set (reads (thr i s))"
    and *: "p \<in> set acc \<or> rn \<in> ahead (haz s) r k"
  obtain r' k' where rn: "rn = (r', k')" by (cases rn)
  have ch: "chain_ok (haz s)" using rec by (simp add: rec_inv_def)
  show "p \<in> set acc \<or> rn \<in> ahead (haz s) (next_rec (record_at (haz s) r)) 0"
    using * ahead_next_record [OF ch r(1), of r' k' k] read_slot(3) [OF rec x(1) x(2) [unfolded rn]] r(2) rn by auto
qed

lemma cursor_published:
  assumes "rec_inv s" "i < length (threads s)" shows "pc_cursor (pc (thr i s)) \<in> insert null (published (haz s))"
  using assms by (auto simp: rec_inv_def rec_ok_def pc_rec_ok_def)

lemma scan_inv_own:
  assumes step: "tr i s s'" and i: "i < length (threads s)" and rec: "rec_inv s" and inv: "scan_inv s"
    and pc: "pc_scan (pc (thr i s')) = Some (c, r, k, acc)"
  shows "scan_ok s' c r k acc"
proof -
  have old: "scan_ok s c' r' k' acc'" if "pc_scan (pc (thr i s)) = Some (c', r', k', acc')" for c' r' k' acc'
    using inv i that by (auto simp: scan_inv_def)
  note vs = pc_scan_def pc_reads_def
  from step show ?thesis
  proof cases
    case (scan_head c')
    then show ?thesis using pc i scan_ok_start [OF rec, of c'] by (auto simp: scan_ok_goto vs)
  next
    case (scan_end c' j acc')
    then have "scan_ok s c' null 0 acc'" using old [of c' null j acc'] by (auto simp: vs scan_ok_def)
    then show ?thesis using pc i scan_end by (auto simp: scan_ok_goto vs)
  next
    case (scan_seen c' r' j acc' p)
    then have "scan_ok s c' r' (Suc j) (acc' @ [p])" using old [of c' r' j acc'] by (intro scan_ok_slot [OF rec]) (auto simp: vs)
    then show ?thesis using pc i scan_seen by (auto simp: scan_ok_goto vs)
  next
    case (scan_empty c' r' j acc')
    then have "scan_ok s c' r' (Suc j) acc'" using old [of c' r' j acc'] by (intro scan_ok_slot [OF rec]) (auto simp: vs)
    then show ?thesis using pc i scan_empty by (auto simp: scan_ok_goto vs)
  next
    case (scan_next c' r' j acc')
    then have "r' \<in> published (haz s)" using cursor_published [OF rec i] by (simp add: pc_cursor_def)
    then have "scan_ok s c' (next_rec (record_at (haz s) r')) 0 acc'"
      using scan_next old [of c' r' j acc'] by (intro scan_ok_record [OF rec]) (auto simp: vs)
    then show ?thesis using pc i scan_next by (auto simp: scan_ok_goto vs)
  qed (use pc i in \<open>auto simp: vs no_slot_def split: rkind.splits pc.splits\<close>)
qed

lemma pc_scan_crit: "pc_scan q = Some (c, r, k, acc) \<Longrightarrow> pc_crit q = Some c \<and> c \<in> set (pc_cells q) \<and> (pc_cursor q = r)"
  by (auto simp: pc_scan_def pc_crit_def pc_cells_def pc_cursor_def split: pc.splits)

lemma scan_inv_step:
  assumes step: "tr i s s'" and i: "i < length (threads s)" and ok: "cells_ok s" and rec: "rec_inv s"
    and lock: "lock_inv s" and mem: "mem_inv s" and inv: "scan_inv s"
  shows "scan_inv s'"
  unfolding scan_inv_def
proof (intro allI impI)
  fix j c r k acc
  assume j: "j < length (threads s')" and pc: "pc_scan (pc (thr j s')) = Some (c, r, k, acc)"
  show "scan_ok s' c r k acc"
  proof (cases "j = i")
    case True
    then show ?thesis using scan_inv_own [OF step i rec inv] pc by blast
  next
    case False
    have j': "j < length (threads s)" using j tr_length(1) [OF step] by simp
    have pc': "pc_scan (pc (thr j s)) = Some (c, r, k, acc)" using pc tr_thr [OF step False] by simp
    note v = pc_scan_crit [OF pc']
    have c: "c < length (cells s)" using v cells_okD [OF ok j'] by blast
    have "pc_crit (pc (thr i s)) \<noteq> Some c" using lock_inv_unique [OF lock c i j'] v False by blast
    then have ret: "retired (the_cell c s') = retired (the_cell c s)"
      using tr_retired [OF step, of c] by (auto simp: pc_crit_def)
    have "scan_ok s c r k acc" using inv j' pc' by (auto simp: scan_inv_def)
    then show ?thesis using scan_ok_keep [OF step i rec mem c _ ret] cursor_published [OF rec j'] v by auto
  qed
qed

lemma ref_inv_step:
  assumes step: "tr i s s'" and i: "i < length (threads s)" and ok: "cells_ok s" and mem: "mem_inv s"
    and stamp: "stamp_inv s" and scan: "scan_inv s" and inv: "ref_inv s"
  shows "ref_inv s'"
  unfolding ref_inv_def
proof (intro allI impI ballI)
  fix j x assume j: "j < length (threads s')" and x: "x \<in> set (reads (thr j s'))"
  have j': "j < length (threads s)" using j tr_length(1) [OF step] by simp
  have lv: "live_read s x" using tr_read_live [OF step i ok inv j' x] .
  obtain c p g pn where x4: "x = (c, p, g, pn)" by (cases x)
  have c: "c < length (cells s)" and p: "p = current (the_cell c s) \<or> p \<in> set (retired (the_cell c s))"
    and g: "stamps s p = g" using lv by (auto simp: live_read_def x4)
  have st: "stamps s' p = g" using tr_stamps [OF step cell_live [OF mem c p]] g by simp
  have "p = current (the_cell c s') \<or> p \<in> set (retired (the_cell c s'))"
    using tr_retired [OF step, of c]
  proof (elim disjE exE conjE)
    assume ret: "retired (the_cell c s') = retired (the_cell c s)"
    have "current (the_cell c s') = current (the_cell c s)"
    proof (rule ccontr)
      assume "current (the_cell c s') \<noteq> current (the_cell c s)"
      then obtain raw where "pc (thr i s) = UpdStore c raw (current (the_cell c s'))" using tr_current [OF step, of c] by blast
      from step this ret c show False by cases (auto simp: nth_update)
    qed
    then show ?thesis using p ret by simp
  next
    fix raw new assume u: "pc (thr i s) = UpdStore c raw new" "retired (the_cell c s') = retired (the_cell c s) @ [raw]"
    then have "raw = current (the_cell c s)" using stamp i by (auto simp: stamp_inv_def)
    then show ?thesis using p u(2) by auto
  next
    fix acc freed assume w: "pc (thr i s) = Sweep c acc" "collect_loop acc (retired (the_cell c s)) 0 [] = (retired (the_cell c s'), freed)"
    have cur: "current (the_cell c s') = current (the_cell c s)" using tr_current [OF step, of c] w(1) by auto
    have "x \<in> set (reads (thr j s))"
      using x tr_reads [OF step i, of x] w(1) tr_thr [OF step, of j] by (cases "j = i") auto
    moreover have "scan_ok s c null 0 acc" using scan i w(1) by (auto simp: scan_inv_def pc_scan_def)
    ultimately have "p \<in> set (retired (the_cell c s)) \<Longrightarrow> p \<in> set acc" using j' x4 unfolding scan_ok_def by fastforce
    then show ?thesis using p cur collect_loop_set [OF w(2)] by auto
  qed
  then show "live_read s' x" using c st tr_length(2) [OF step] by (simp add: live_read_def x4)
qed

section \<open>The invariant of the machine\<close>

definition inv :: "'v machine \<Rightarrow> bool" where
  "inv s \<longleftrightarrow> cells_ok s \<and> rec_inv s \<and> lock_inv s \<and> fb_inv s \<and> mem_inv s \<and> stamp_inv s \<and> scan_inv s \<and> ref_inv s"

lemma read_heap:
  assumes "mem_inv s" "ref_inv s" "i < length (threads s)" "(c, p, g, pn) \<in> set (reads (thr i s))"
  shows "heap s p \<noteq> None"
  using assms cell_live [OF assms(1), of c p] by (fastforce simp: ref_inv_def live_read_def)

lemma inv_step:
  assumes "tr i s s'" "i < length (threads s)" "inv s"
  shows "inv s'"
proof -
  have ok: "cells_ok s" and rec: "rec_inv s" and lock: "lock_inv s" and fb: "fb_inv s" and mem: "mem_inv s"
    and st: "stamp_inv s" and sc: "scan_inv s" and rf: "ref_inv s" using assms(3) by (simp_all add: inv_def)
  show ?thesis unfolding inv_def
  proof (intro conjI)
    show "cells_ok s'" by (rule cells_ok_step [OF assms(1,2) ok])
    show "rec_inv s'" by (rule rec_inv_step [OF assms(1,2) rec]) (rule current_not_null [OF mem cells_okD [OF ok assms(2)]])
    show "lock_inv s'" by (rule lock_inv_step [OF assms(1,2) ok lock])
    show "fb_inv s'" by (rule fb_inv_step [OF assms(1,2) ok fb])
    show "mem_inv s'" by (rule mem_inv_step [OF assms(1,2) ok mem read_heap [OF mem rf assms(2)]])
      (use st assms(2) in \<open>auto simp: stamp_inv_def\<close>)
    show "stamp_inv s'" by (rule stamp_inv_step [OF assms(1,2) ok mem lock st])
    show "scan_inv s'" by (rule scan_inv_step [OF assms(1,2) ok rec lock mem sc])
    show "ref_inv s'" by (rule ref_inv_step [OF assms(1,2) ok mem st sc rf])
  qed
qed

lemma inv_init: "inv (init_machine n vs)"
proof -
  have "scan_inv (init_machine n vs)" "ref_inv (init_machine n vs)"
    by (auto simp: scan_inv_def ref_inv_def init_machine_def pc_scan_def)
  then show ?thesis
    by (simp add: inv_def cells_ok_init rec_inv_init lock_inv_init fb_inv_init mem_inv_init stamp_inv_init)
qed

lemma reachable_inv: "reachable n vs s \<Longrightarrow> inv s"
  by (induction rule: reachable.induct) (auto intro: inv_init inv_step dest: mstep_tr)

end
