(* ===== verification/SnapWait.thy ===== *)
theory SnapWait
  imports SnapSafe
begin

text \<open>
  What \<open>wait_for_retired_readers\<close> guarantees. A waiter carries the stamp \<open>b\<close> of the value that was
  current when the call began. While it waits, every read of the cell on another
  thread that is older than \<open>b\<close> is still in its list of pointers to check or ahead of its
  scan, and from the moment it saw the fallback counter at zero no older fallback read
  exists (\<open>wait_inv\<close>). When it returns, there is no older read left on any other thread.
\<close>

section \<open>The invariant\<close>

definition pc_wait :: "'v pc \<Rightarrow> (nat \<times> bool \<times> nat) option" where
  "pc_wait q = (case q of
     WaitFb c cof b \<Rightarrow> Some (c, cof, b) | WaitLock c cof b \<Rightarrow> Some (c, cof, b) | WaitCopy c cof b \<Rightarrow> Some (c, cof, b)
   | WaitNext c cof b ps \<Rightarrow> Some (c, cof, b) | WaitScan c cof b p ps r k found \<Rightarrow> Some (c, cof, b) | _ \<Rightarrow> None)"

definition pc_past_fb :: "'v pc \<Rightarrow> bool" where
  "pc_past_fb q = (case q of
     WaitLock c cof b \<Rightarrow> \<not> cof | WaitCopy c cof b \<Rightarrow> \<not> cof | WaitNext c cof b ps \<Rightarrow> \<not> cof
   | WaitScan c cof b p ps r k found \<Rightarrow> \<not> cof | _ \<Rightarrow> False)"

definition pc_pending :: "hazard_domain \<Rightarrow> 'v pc \<Rightarrow> (addr \<times> slot_ref) set option" where
  "pc_pending h q = (case q of
     WaitNext c cof b ps \<Rightarrow> Some {(q, rn). q \<in> set ps}
   | WaitScan c cof b p ps r k found \<Rightarrow> Some {(q, rn). q \<in> set ps \<or> q = p \<and> (found \<or> rn \<in> ahead h r k)}
   | _ \<Rightarrow> None)"

definition fb_clear :: "'v machine \<Rightarrow> nat \<Rightarrow> nat \<Rightarrow> bool" where
  "fb_clear s c b \<longleftrightarrow> (\<forall>i<length (threads s). \<forall>a g. (c, a, g) \<in> set (fb_reads (thr i s)) \<longrightarrow> b \<le> g)"

definition old_reads_in :: "'v machine \<Rightarrow> nat \<Rightarrow> nat \<Rightarrow> nat \<Rightarrow> (addr \<times> slot_ref) set \<Rightarrow> bool" where
  "old_reads_in s j c b P \<longleftrightarrow> (\<forall>i<length (threads s). i \<noteq> j \<longrightarrow>
     (\<forall>p g rn. (c, p, g, rn) \<in> set (reads (thr i s)) \<longrightarrow> g < b \<longrightarrow> (p, rn) \<in> P))"

definition wait_inv :: "'v machine \<Rightarrow> bool" where
  "wait_inv s \<longleftrightarrow> (\<forall>j<length (threads s). \<forall>c cof b. pc_wait (pc (thr j s)) = Some (c, cof, b) \<longrightarrow>
     b \<le> stamps s (current (the_cell c s)) \<and> (pc_past_fb (pc (thr j s)) \<longrightarrow> fb_clear s c b) \<and>
     (\<forall>P. pc_pending (haz s) (pc (thr j s)) = Some P \<longrightarrow> old_reads_in s j c b P))"

lemmas wait_defs = pc_wait_def pc_past_fb_def pc_pending_def

lemma pc_wait_cells: "pc_wait q = Some (c, cof, b) \<Longrightarrow> c \<in> set (pc_cells q)"
  by (auto simp: pc_wait_def pc_cells_def split: pc.splits)

section \<open>What a step keeps\<close>

lemma tr_current_stamp:
  assumes step: "tr i s s'" and i: "i < length (threads s)" and inv: "inv s" and c: "c < length (cells s)"
  shows "stamps s (current (the_cell c s)) \<le> stamps s' (current (the_cell c s'))"
  using tr_current [OF step, of c]
proof
  have mem: "mem_inv s" and st: "stamp_inv s" using inv by (simp_all add: inv_def)
  {
    assume "current (the_cell c s') = current (the_cell c s)"
    moreover have "heap s (current (the_cell c s)) \<noteq> None" by (rule cell_live [OF mem c]) simp
    ultimately show ?thesis using tr_stamps [OF step] by simp
  next
    assume "\<exists>raw. pc (thr i s) = UpdStore c raw (current (the_cell c s'))"
    then obtain raw where u: "pc (thr i s) = UpdStore c raw (current (the_cell c s'))" by blast
    then have "stamps s (current (the_cell c s)) < stamps s (current (the_cell c s'))"
      using st i by (auto simp: stamp_inv_def)
    moreover have "heap s (current (the_cell c s')) \<noteq> None"
      by (rule own_live [OF mem i]) (simp add: u owns_def pc_own_def)
    ultimately show ?thesis using tr_stamps [OF step] by simp
  }
qed

lemma tr_fb_reads:
  assumes "tr i s s'" "i < length (threads s)" "x \<in> set (fb_reads (thr i s'))"
  shows "x \<in> set (fb_reads (thr i s)) \<or>
    (\<exists>c. pc (thr i s) = LockedClone ReadK c \<and> x = (c, current (the_cell c s), stamps s (current (the_cell c s))))"
  using assms by cases (auto simp: fb_reads_def pc_fbread_def no_slot_def split: rkind.splits)

lemma fb_clear_step:
  assumes step: "tr i s s'" and i: "i < length (threads s)"
    and b: "b \<le> stamps s (current (the_cell c s))" and clear: "fb_clear s c b"
  shows "fb_clear s' c b"
  unfolding fb_clear_def
proof (intro allI impI)
  fix j a g assume j: "j < length (threads s')" and x: "(c, a, g) \<in> set (fb_reads (thr j s'))"
  have j': "j < length (threads s)" using j tr_length(1) [OF step] by simp
  show "b \<le> g"
  proof (cases "j = i")
    case True
    then show ?thesis using tr_fb_reads [OF step i] x clear i b by (fastforce simp: fb_clear_def)
  next
    case False
    then show ?thesis using x tr_thr [OF step False] clear j' by (auto simp: fb_clear_def)
  qed
qed

lemma old_reads_step:
  assumes step: "tr i s s'" and i: "i < length (threads s)"
    and b: "b \<le> stamps s (current (the_cell c s))" and old: "old_reads_in s j c b P"
  shows "old_reads_in s' j c b P"
  unfolding old_reads_in_def
proof (intro allI impI)
  fix k p g rn assume k: "k < length (threads s')" "k \<noteq> j" and x: "(c, p, g, rn) \<in> set (reads (thr k s'))" and g: "g < b"
  have k': "k < length (threads s)" using k tr_length(1) [OF step] by simp
  have "(c, p, g, rn) \<in> set (reads (thr k s))"
  proof (cases "k = i")
    case True
    then show ?thesis using tr_reads [OF step i] x g b by fastforce
  next
    case False
    then show ?thesis using x tr_thr [OF step False] by simp
  qed
  then show "(p, rn) \<in> P" using old k' k(2) g unfolding old_reads_in_def by blast
qed

text \<open>The waiting thread's own steps; they change neither the cells' values nor the reads.\<close>

lemma old_reads_mono:
  assumes "old_reads_in s j c b P"
    and "\<And>i p g rn. i < length (threads s) \<Longrightarrow> i \<noteq> j \<Longrightarrow> (c, p, g, rn) \<in> set (reads (thr i s)) \<Longrightarrow> g < b \<Longrightarrow> (p, rn) \<in> P \<Longrightarrow> (p, rn) \<in> Q"
  shows "old_reads_in s j c b Q"
  using assms unfolding old_reads_in_def by blast

lemma old_reads_retired:
  assumes "ref_inv s" "b \<le> stamps s (current (the_cell c s))"
  shows "old_reads_in s j c b {(q, rn). q \<in> set (retired (the_cell c s))}"
  using assms by (force simp: old_reads_in_def ref_inv_def live_read_def)

lemma foreign_record:
  assumes rec: "rec_inv s" and i: "i < length (threads s)" and j: "j < length (threads s)" "i \<noteq> j"
    and x: "(c, p, g, r, k) \<in> set (reads (thr i s))"
  shows "r \<noteq> own_record (thr j s)"
proof -
  have r: "r = own_record (thr i s)" "r \<in> published (haz s)" using read_slot [OF rec i x] by auto
  have ch: "chain_ok (haz s)" using rec by (simp add: rec_inv_def)
  have "rec_of (thr i s) = r" "r \<noteq> null" using r published_bounds [OF ch r(2)] by (auto simp: rec_of_def)
  then have "r \<noteq> rec_of (thr j s)" using rec i j by (auto simp: rec_inv_def)
  then show ?thesis using \<open>r \<noteq> null\<close> by (auto simp: rec_of_def)
qed

lemma old_reads_goto:
  "i < length (threads s) \<Longrightarrow> old_reads_in (goto i q s) i c b P = old_reads_in s i c b P"
  by (auto simp: old_reads_in_def)

lemma tr_pc_wait:
  assumes "tr i s s'" "i < length (threads s)" "pc_wait (pc (thr i s')) = Some (c, cof, b)"
  shows "pc_wait (pc (thr i s)) = Some (c, cof, b) \<or>
    pc (thr i s) = Idle \<and> b = stamps s (current (the_cell c s)) \<and> pc (thr i s') = WaitFb c cof b"
  using assms by cases (auto simp: pc_wait_def no_slot_def split: rkind.splits)

lemma tr_past_fb:
  assumes "tr i s s'" "i < length (threads s)" "pc_past_fb (pc (thr i s'))" "pc_wait (pc (thr i s')) = Some (c, cof, b)"
  shows "pc_past_fb (pc (thr i s)) \<or> fallback_readers (the_cell c s) = 0"
  using assms by cases (auto simp: pc_past_fb_def pc_wait_def no_slot_def split: rkind.splits)

lemma fb_clear_zero:
  assumes "fb_inv s" "c < length (cells s)" "fallback_readers (the_cell c s) = 0"
  shows "fb_clear s c b"
  unfolding fb_clear_def
proof (intro allI impI)
  fix i a g assume i: "i < length (threads s)" and x: "(c, a, g) \<in> set (fb_reads (thr i s))"
  have "c \<in> set (fb_cells (thr i s))"
    using x by (force simp: fb_reads_def fb_cells_def pc_fbread_def pc_fb_def split: pc.splits rkind.splits)
  then have "0 < thread_sum (\<lambda>t. count_list (fb_cells t) c) s"
    using thread_sum_ge [OF i, of "\<lambda>t. count_list (fb_cells t) c"] count_pos [of c] by force
  then show "b \<le> g" using assms by (simp add: fb_inv_def)
qed

lemma wait_own:
  assumes step: "tr i s s'" and i: "i < length (threads s)" and inv: "inv s" and wait: "wait_inv s"
    and w: "pc_wait (pc (thr i s)) = Some (c, cof, b)" "pc_pending (haz s') (pc (thr i s')) = Some P"
  shows "old_reads_in s' i c b P"
proof -
  have rec: "rec_inv s" and rf: "ref_inv s" using inv by (simp_all add: inv_def)
  have ch: "chain_ok (haz s)" using rec by (simp add: rec_inv_def)
  have b: "b \<le> stamps s (current (the_cell c s))"
    and old: "\<And>Q. pc_pending (haz s) (pc (thr i s)) = Some Q \<Longrightarrow> old_reads_in s i c b Q"
    using wait i w(1) by (auto simp: wait_inv_def)
  note vs = pc_pending_def pc_wait_def
  from step show ?thesis
  proof cases
    case (wait_copy c' cof' b')
    have "old_reads_in s i c b P" using old_reads_retired [OF rf b, of i] wait_copy w i by (auto simp: vs)
    then show ?thesis using wait_copy i by (simp add: old_reads_in_def)
  next
    case (wait_next c' cof' b' p ps)
    then have "old_reads_in s i c b {(q, rn). q \<in> set (p # ps)}" using old by (simp add: vs)
    then have "old_reads_in s i c b P"
      by (rule old_reads_mono) (use wait_next w i ahead_HEAD [OF rec] in \<open>auto simp: vs\<close>)
    then show ?thesis using wait_next i by (simp add: old_reads_goto)
  next
    case (wait_clear c' cof' b' p ps k)
    then have "old_reads_in s i c b P" using old w i by (auto simp: vs)
    then show ?thesis using wait_clear i by (simp add: old_reads_goto)
  next
    case (wait_hit c' cof' b' p ps r k found)
    then have "old_reads_in s i c b {(q, rn). q \<in> set ps \<or> q = p \<and> (found \<or> rn \<in> ahead (haz s) r k)}" using old by (simp add: vs)
    then have "old_reads_in s i c b P" by (rule old_reads_mono) (use wait_hit w i in \<open>auto simp: vs\<close>)
    then show ?thesis using wait_hit i by (simp add: old_reads_goto)
  next
    case (wait_miss c' cof' b' p ps r k found)
    then have "old_reads_in s i c b {(q, rn). q \<in> set ps \<or> q = p \<and> (found \<or> rn \<in> ahead (haz s) r k)}" using old by (simp add: vs)
    then have "old_reads_in s i c b P"
    proof (rule old_reads_mono)
      fix j q g rn assume x: "j < length (threads s)" "(c, q, g, rn) \<in> set (reads (thr j s))"
        and m: "(q, rn) \<in> {(q, rn). q \<in> set ps \<or> q = p \<and> (found \<or> rn \<in> ahead (haz s) r k)}"
      obtain r' k' where rn: "rn = (r', k')" by (cases rn)
      have "rn \<noteq> (r, k)" if "q = p" using read_slot(5) [OF rec x(1) x(2) [unfolded rn]] wait_miss rn that by auto
      then show "(q, rn) \<in> P" using m w i wait_miss ahead_next_slot [of r' k' "haz s" r k] rn by (auto simp: vs)
    qed
    then show ?thesis using wait_miss i by (simp add: old_reads_goto)
  next
    case (wait_skip c' cof' b' p ps r k found)
    then have pub: "r \<in> published (haz s)" using cursor_published [OF rec i] by (simp add: pc_cursor_def)
    have "old_reads_in s i c b {(q, rn). q \<in> set ps \<or> q = p \<and> (found \<or> rn \<in> ahead (haz s) r k)}" using old wait_skip by (simp add: vs)
    then have "old_reads_in s i c b P"
    proof (rule old_reads_mono)
      fix j q g rn assume x: "j < length (threads s)" "j \<noteq> i" "(c, q, g, rn) \<in> set (reads (thr j s))"
        and m: "(q, rn) \<in> {(q, rn). q \<in> set ps \<or> q = p \<and> (found \<or> rn \<in> ahead (haz s) r k)}"
      obtain r' k' where rn: "rn = (r', k')" by (cases rn)
      have "k' < k \<or> r' \<noteq> r"
        using read_slot(3) [OF rec x(1) x(3) [unfolded rn]] foreign_record [OF rec x(1) i x(2) x(3) [unfolded rn]] wait_skip by auto
      then show "(q, rn) \<in> P" using m w i wait_skip ahead_next_record [OF ch pub, of r' k' k] rn by (auto simp: vs)
    qed
    then show ?thesis using wait_skip i by (simp add: old_reads_goto)
  qed (use w i in \<open>auto simp: vs no_slot_def split: rkind.splits\<close>)
qed

lemma tr_pending_other:
  assumes step: "tr i s s'" and i: "i < length (threads s)" and rec: "rec_inv s"
    and j: "j < length (threads s)" "j \<noteq> i"
  shows "pc_pending (haz s') (pc (thr j s')) = pc_pending (haz s) (pc (thr j s))"
proof -
  have "ahead (haz s') (pc_cursor (pc (thr j s))) k = ahead (haz s) (pc_cursor (pc (thr j s))) k" for k
    by (rule tr_ahead [OF step i rec cursor_published [OF rec j(1)]])
  then show ?thesis using tr_thr [OF step j(2)] by (auto simp: pc_pending_def pc_cursor_def split: pc.splits)
qed

lemma wait_inv_step:
  assumes step: "tr i s s'" and i: "i < length (threads s)" and inv: "inv s" and wait: "wait_inv s"
  shows "wait_inv s'"
  unfolding wait_inv_def
proof (intro allI impI)
  fix j c cof b assume j: "j < length (threads s')" and w: "pc_wait (pc (thr j s')) = Some (c, cof, b)"
  have ok: "cells_ok s" "rec_inv s" "fb_inv s" using inv by (simp_all add: inv_def)
  have j': "j < length (threads s)" using j tr_length(1) [OF step] by simp
  show "b \<le> stamps s' (current (the_cell c s')) \<and> (pc_past_fb (pc (thr j s')) \<longrightarrow> fb_clear s' c b) \<and>
     (\<forall>P. pc_pending (haz s') (pc (thr j s')) = Some P \<longrightarrow> old_reads_in s' j c b P)"
  proof (cases "j = i \<and> pc_wait (pc (thr i s)) \<noteq> Some (c, cof, b)")
    case True
    then have new: "pc (thr i s) = Idle" "b = stamps s (current (the_cell c s))" "pc (thr i s') = WaitFb c cof b"
      using tr_pc_wait [OF step i] w by auto
    have "c < length (cells s')" using cells_okD [OF cells_ok_step [OF step i ok(1)]] True i tr_length(1) [OF step] new(3)
      by (simp add: pc_cells_def)
    then have "b \<le> stamps s' (current (the_cell c s'))"
      using tr_current_stamp [OF step i inv, of c] new(2) tr_length(2) [OF step] by simp
    then show ?thesis using True new(3) by (simp add: pc_past_fb_def pc_pending_def)
  next
    case False
    then have w': "pc_wait (pc (thr j s)) = Some (c, cof, b)" using w tr_thr [OF step, of j] by (cases "j = i") auto
    have c: "c < length (cells s)" by (rule cells_okD [OF ok(1) j' pc_wait_cells [OF w']])
    have old: "b \<le> stamps s (current (the_cell c s))" "pc_past_fb (pc (thr j s)) \<Longrightarrow> fb_clear s c b"
      "\<And>P. pc_pending (haz s) (pc (thr j s)) = Some P \<Longrightarrow> old_reads_in s j c b P"
      using wait j' w' by (auto simp: wait_inv_def)
    have "fb_clear s c b" if "pc_past_fb (pc (thr j s'))"
      using that old(2) tr_past_fb [OF step i] w fb_clear_zero [OF ok(3) c] tr_thr [OF step, of j] by (cases "j = i") auto
    moreover have "old_reads_in s' j c b P" if P: "pc_pending (haz s') (pc (thr j s')) = Some P" for P
    proof (cases "j = i")
      case True
      then show ?thesis using wait_own [OF step i inv wait] w' P by blast
    next
      case False
      then show ?thesis using old_reads_step [OF step i old(1)] old(3) P tr_pending_other [OF step i ok(2) j' False] by simp
    qed
    ultimately show ?thesis using tr_current_stamp [OF step i inv c] old(1) fb_clear_step [OF step i old(1)] by auto
  qed
qed

lemma reachable_wait_inv: "reachable n vs s \<Longrightarrow> wait_inv s"
proof (induction rule: reachable.induct)
  case start
  show ?case by (simp add: wait_inv_def init_machine_def pc_wait_def)
next
  case (step s i l s')
  then show ?case using wait_inv_step reachable_inv mstep_tr by blast
qed

section \<open>The guarantee of a whole call\<close>

fun frame_stamp :: "frame \<Rightarrow> nat" where
  "frame_stamp (Hz c pn p g) = g"
| "frame_stamp (Fb c a g) = g"

fun on_fallback :: "frame \<Rightarrow> bool" where
  "on_fallback (Hz c pn p g) = False"
| "on_fallback (Fb c a g) = True"

definition clear_of :: "'v machine \<Rightarrow> nat \<Rightarrow> nat \<Rightarrow> bool \<Rightarrow> nat \<Rightarrow> bool" where
  "clear_of s j c cof b \<longleftrightarrow> b \<le> stamps s (current (the_cell c s)) \<and> old_reads_in s j c b {} \<and> (\<not> cof \<longrightarrow> fb_clear s c b)"

lemma clear_of_step:
  assumes "tr i s s'" "i < length (threads s)" "inv s" "c < length (cells s)" "clear_of s j c cof b"
  shows "clear_of s' j c cof b"
  using assms tr_current_stamp [OF assms(1-4)] old_reads_step [OF assms(1,2)] fb_clear_step [OF assms(1,2)]
  by (auto simp: clear_of_def)

lemma clear_of_frame:
  assumes "clear_of s j c cof b" "i < length (threads s)" "i \<noteq> j" "f \<in> set (stack (thr i s))" "frame_cell f = c"
    and "on_fallback f \<Longrightarrow> \<not> cof"
  shows "b \<le> frame_stamp f"
proof (cases f)
  case (Hz c' pn p g)
  then have "(c, p, g, pn) \<in> set (reads (thr i s))" using assms(4,5) by (force simp: reads_def)
  then show ?thesis using assms(1-3) Hz unfolding clear_of_def old_reads_in_def by (metis empty_iff frame_stamp.simps(1) not_le)
next
  case (Fb c' a g)
  then have "(c, a, g) \<in> set (fb_reads (thr i s))" using assms(4,5) by (force simp: fb_reads_def)
  then show ?thesis using assms(1,2,6) Fb unfolding clear_of_def fb_clear_def by auto
qed

lemma wait_end:
  assumes step: "tr j s s'" and j: "j < length (threads s)" and inv: "inv s" and wait: "wait_inv s"
    and w: "pc_wait (pc (thr j s)) = Some (c, cof, b)"
  shows "pc_wait (pc (thr j s')) = Some (c, cof, b) \<or> pc (thr j s') = Idle \<and> clear_of s j c cof b"
proof -
  have old: "b \<le> stamps s (current (the_cell c s))" "pc_past_fb (pc (thr j s)) \<Longrightarrow> fb_clear s c b"
    "\<And>P. pc_pending (haz s) (pc (thr j s)) = Some P \<Longrightarrow> old_reads_in s j c b P"
    using wait j w by (auto simp: wait_inv_def)
  from step show ?thesis
  proof cases
    case (wait_done c' cof' b')
    then have "clear_of s j c cof b" using old w by (auto simp: clear_of_def pc_wait_def pc_past_fb_def pc_pending_def)
    then show ?thesis using wait_done j by simp
  qed (use w j in \<open>auto simp: pc_wait_def\<close>)
qed

text \<open>The labels of a thread that is inside a call: it only runs on.\<close>

fun runs_on :: "nat \<Rightarrow> nat \<times> 'v label \<Rightarrow> bool" where
  "runs_on j (k, Internal a) = True"
| "runs_on j (k, l) = (k \<noteq> j)"

lemma wait_call:
  assumes "mrun ls s = Some s'" "list_all (runs_on j) ls" "reachable n vs s" "j < length (threads s)" "c < length (cells s)"
    and "pc_wait (pc (thr j s)) = Some (c, cof, b) \<or> pc (thr j s) = Idle \<and> clear_of s j c cof b"
  shows "j < length (threads s') \<and> (pc_wait (pc (thr j s')) = Some (c, cof, b) \<or> pc (thr j s') = Idle \<and> clear_of s' j c cof b)"
  using assms
proof (induction ls arbitrary: s)
  case Nil
  then show ?case by simp
next
  case (Cons kl ls)
  obtain k l where kl: "kl = (k, l)" by (cases kl)
  obtain s1 where m: "mstep k l s = Some s1" and r: "mrun ls s1 = Some s'"
    using Cons.prems(1) by (auto simp: kl bind_eq_Some_conv)
  have t: "tr k s s1" "k < length (threads s)" using mstep_tr [OF m] by auto
  have iv: "inv s" "wait_inv s" using reachable_inv reachable_wait_inv Cons.prems(3) by blast+
  have c: "c < length (cells s)" by (rule Cons.prems(5))
  have "pc_wait (pc (thr j s1)) = Some (c, cof, b) \<or> pc (thr j s1) = Idle \<and> clear_of s1 j c cof b"
  proof (cases "k = j")
    case True
    show ?thesis using Cons.prems(6)
    proof
      assume "pc_wait (pc (thr j s)) = Some (c, cof, b)"
      then show ?thesis using wait_end [of j s s1] t iv True clear_of_step [OF t iv(1) c] by blast
    next
      assume "pc (thr j s) = Idle \<and> clear_of s j c cof b"
      moreover obtain a where "l = Internal a" using Cons.prems(2) True kl by (cases l) auto
      ultimately have False using m t(2) True by (simp add: mstep_def internal_def)
      then show ?thesis ..
    qed
  next
    case False
    then show ?thesis using Cons.prems(6) tr_thr [OF t(1), of j] clear_of_step [OF t iv(1) c] by auto
  qed
  moreover have "reachable n vs s1" using reachable.step [OF Cons.prems(3) m] .
  ultimately show ?case using Cons.IH [OF r] Cons.prems(2,4) c tr_length [OF t(1)] by simp
qed

text \<open>The values of a cell are ordered by their stamps: what is retired is older than what is current.\<close>

definition order_inv :: "'v machine \<Rightarrow> bool" where
  "order_inv s \<longleftrightarrow> (\<forall>c<length (cells s). \<forall>p\<in>set (retired (the_cell c s)). stamps s p < stamps s (current (the_cell c s)))"

lemma order_inv_step:
  assumes step: "tr i s s'" and i: "i < length (threads s)" and inv: "inv s" and ord: "order_inv s"
  shows "order_inv s'"
  unfolding order_inv_def
proof (intro allI impI ballI)
  fix c p assume c': "c < length (cells s')" and p: "p \<in> set (retired (the_cell c s'))"
  have mem: "mem_inv s" and st: "stamp_inv s" using inv by (simp_all add: inv_def)
  have c: "c < length (cells s)" using c' tr_length(2) [OF step] by simp
  have old: "stamps s' q < stamps s' (current (the_cell c s'))" if "q \<in> set (retired (the_cell c s))" for q
  proof -
    have "stamps s q < stamps s (current (the_cell c s))" using ord c that by (simp add: order_inv_def)
    moreover have "stamps s' q = stamps s q" using tr_stamps [OF step cell_live [OF mem c]] that by blast
    ultimately show ?thesis using tr_current_stamp [OF step i inv c] by simp
  qed
  show "stamps s' p < stamps s' (current (the_cell c s'))"
    using tr_retired [OF step, of c]
  proof (elim disjE exE conjE)
    assume "retired (the_cell c s') = retired (the_cell c s)"
    then show ?thesis using old p by simp
  next
    fix raw new assume u: "pc (thr i s) = UpdStore c raw new" "retired (the_cell c s') = retired (the_cell c s) @ [raw]"
    have r: "raw = current (the_cell c s)" "stamps s raw < stamps s new" using st i u(1) by (auto simp: stamp_inv_def)
    have "current (the_cell c s') = new" using step u(1) c by cases (auto simp: nth_update)
    moreover have "stamps s' raw = stamps s raw" using r(1) tr_stamps [OF step cell_live [OF mem c]] by blast
    moreover have "stamps s' new = stamps s new"
      by (rule tr_stamps [OF step own_live [OF mem i]]) (simp add: u(1) owns_def pc_own_def)
    ultimately show ?thesis using old p u(2) r(2) by auto
  next
    fix acc freed assume "pc (thr i s) = Sweep c acc" "collect_loop acc (retired (the_cell c s)) 0 [] = (retired (the_cell c s'), freed)"
    then show ?thesis using old p collect_loop_set by blast
  qed
qed

lemma reachable_order_inv: "reachable n vs s \<Longrightarrow> order_inv s"
proof (induction rule: reachable.induct)
  case start
  show ?case by (simp add: order_inv_def init_machine_def init_cell_def del: upt_Suc)
next
  case (step s i l s')
  then show ?case using order_inv_step reachable_inv mstep_tr by blast
qed

end
