(* ===== verification/SnapTheorems.thy ===== *)
theory SnapTheorems
  imports SnapWait
begin

text \<open>
  The properties of the snapshot cell and the hazard domain under every interleaving:
  memory safety of borrowed values, exact reference counts and absence of leaks, mutual
  exclusion of writers, exclusive hazard records, exact fallback counters, the
  guarantee of the wait and its gap on the fallback path, and progress.
\<close>

section \<open>Executions\<close>

text \<open>
  Concrete executions for the witnesses. In \<open>demo\<close>, thread 0 is inside a read of the first value
  while thread 1 replaces it; \<open>demo_wait\<close> continues with thread 1 waiting, thread 0 leaving its
  read by a panic and starting another, and the wait returning. In \<open>gap\<close>, both threads
  are inside fallback reads (their thread-locals are gone) and thread 0 replaces the value.
\<close>

definition demo :: "(nat \<times> nat label) list" where
  "demo = (0, StartRead 0) # steps 0 7 0 @ (1, StartUpdate 0 (\<lambda>v. Some (v + 1))) # steps 1 18 2"

definition demo_wait :: "(nat \<times> nat label) list" where
  "demo_wait = steps 1 7 0 @ [(0, UnwindRead), (0, StartRead 0)] @ steps 0 4 0 @ steps 1 15 0"

definition gap :: "(nat \<times> nat label) list" where
  "gap = [(1, ThreadExit), (1, StartRead 0)] @ steps 1 6 0 @ [(0, ThreadExit), (0, StartRead 0)] @ steps 0 6 0 @
     (0, StartUpdate 0 (\<lambda>v. Some (v + 1))) # steps 0 10 2"

lemma demo_run:
  "\<exists>s. mrun demo (init_machine 2 [5]) = Some s \<and> length (threads s) = 2 \<and> length (cells s) = 1 \<and> idle (thr 1 s) \<and>
     stack (thr 0 s) = [Hz 0 (1, 0) 1 0] \<and> current (the_cell 0 s) = 2 \<and> retired (the_cell 0 s) = [1] \<and>
     own_record (thr 0 s) = 1"
proof -
  have "case mrun demo (init_machine 2 [5]) of None \<Rightarrow> False
    | Some s \<Rightarrow> length (threads s) = 2 \<and> length (cells s) = 1 \<and> idle (thr 1 s) \<and> stack (thr 0 s) = [Hz 0 (1, 0) 1 0] \<and>
        current (the_cell 0 s) = 2 \<and> retired (the_cell 0 s) = [1] \<and> own_record (thr 0 s) = 1"
    by code_simp
  then show ?thesis by (auto split: option.splits)
qed

section \<open>No access to freed memory\<close>

lemma drop_ref_ok: "heap s a \<noteq> None \<Longrightarrow> fault (drop_ref a s) = fault s"
  by (auto simp: drop_ref_def arc_drop_def)

lemma clone_ref_ok: "heap s a \<noteq> None \<Longrightarrow> fault (clone_ref a s) = fault s"
  by (auto simp: clone_ref_def arc_clone_def)

lemma fault_step:
  assumes step: "tr i s s'" and i: "i < length (threads s)" and inv: "inv s" and nf: "\<not> fault s"
  shows "\<not> fault s'"
proof -
  have mem: "mem_inv s" and rf: "ref_inv s" and ok: "cells_ok s" using inv by (simp_all add: inv_def)
  have own: "heap s a \<noteq> None" if "a \<in> set (owns (thr i s))" for a using own_live [OF mem i that] .
  have rd: "heap s p \<noteq> None" if "(c, p, g, pn) \<in> set (reads (thr i s))" for c p g pn using read_heap [OF mem rf i that] .
  have cur: "heap s (current (the_cell c s)) \<noteq> None" if "c \<in> set (pc_cells (pc (thr i s)))" for c
    using cell_live [OF mem cells_okD [OF ok i that]] by blast
  note vs = owns_def pc_own_def reads_def pc_reads_def pc_cells_def
  from step show ?thesis
  proof cases
    case (touch_fault f c pn p g)
    have "heap s p \<noteq> None" using touch_fault(4)
    proof
      assume "f = Hz c pn p g"
      then show ?thesis using touch_fault(3) by (intro rd [of c p g pn]) (force simp: vs)
    next
      assume "f = Fb c p g"
      then show ?thesis using touch_fault(3) by (intro own) (force simp: vs)
    qed
    then show ?thesis using touch_fault by simp
  next
    case (load_fault keep c pn p g)
    then show ?thesis using rd [of c p g pn] by (simp add: vs)
  next
    case (load_inc c pn p g)
    then show ?thesis using rd [of c p g pn] nf by (simp add: vs clone_ref_ok)
  next
    case (drop_one a as)
    then show ?thesis using own [of a] nf by (simp add: vs drop_ref_ok)
  next
    case (locked_clone k c raw)
    then show ?thesis using cur [of c] nf by (simp add: vs clone_ref_ok)
  next
    case (locked_fault keep a)
    then show ?thesis using own [of a] by (simp add: vs)
  next
    case (fb_drop c a)
    then show ?thesis using own [of a] nf by (simp add: vs drop_ref_ok)
  next
    case (drop_arc a)
    then show ?thesis using own [of a] nf by (simp add: vs drop_ref_ok)
  next
    case (upd_fault c f)
    then show ?thesis using cur [of c] by (simp add: vs)
  qed (use nf in simp_all)
qed

text \<open>C2: Memory safety. In every interleaving of any number of threads over any number of cells, no
  step dereferences, clones or drops a freed allocation. Threads may start reads, loads, updates and waits
  at any point between calls and inside reads, end reads normally or by unwinding, and exit.\<close>

theorem no_use_after_free:
  assumes "reachable n vs s"
  shows "\<not> fault s"
  using assms
proof (induction rule: reachable.induct)
  case start
  show ?case by (simp add: init_machine_def)
next
  case (step s i l s')
  then show ?case using fault_step reachable_inv mstep_tr by blast
qed

theorem no_use_after_free_witness: "\<exists>s. mrun demo (init_machine 2 [5]) = Some s \<and> \<not> fault s"
  using demo_run no_use_after_free [OF reachable_run, of demo 2 "[5]"] by blast

text \<open>C6: While a thread is inside a read on the hazard path, the value it borrows is alive, it is the
  allocation the read validated (not a later one at the same address), the thread's announcement of it is
  in its slot, and it is the current or a retired value of the cell.\<close>

theorem borrowed_value_alive:
  assumes "reachable n vs s" "i < length (threads s)" "Hz c pn p g \<in> set (stack (thr i s))"
  shows "(\<exists>x. heap s p = Some x \<and> 0 < strong x) \<and> stamps s p = g \<and> load_slot (haz s) pn = p \<and>
    (p = current (the_cell c s) \<or> p \<in> set (retired (the_cell c s)))"
proof -
  have iv: "inv s" using reachable_inv [OF assms(1)] .
  have x: "(c, p, g, pn) \<in> set (reads (thr i s))" using assms(3) by (force simp: reads_def)
  have "p = current (the_cell c s) \<or> p \<in> set (retired (the_cell c s))" "stamps s p = g"
    using iv x assms(2) by (auto simp: inv_def ref_inv_def live_read_def)
  moreover have "load_slot (haz s) pn = p"
    using read_slot(5) [of s i c p g "fst pn" "snd pn"] iv x assms(2) by (simp add: inv_def)
  moreover have "\<exists>x. heap s p = Some x \<and> 0 < strong x"
    using read_heap [of s i c p g pn] iv x assms(2) by (auto simp: inv_def mem_inv_def)
  ultimately show ?thesis by blast
qed

theorem borrowed_value_alive_witness:
  "\<exists>s. mrun demo (init_machine 2 [5]) = Some s \<and> heap s 1 \<noteq> None \<and> load_slot (haz s) (1, 0) = 1 \<and> 1 \<in> set (retired (the_cell 0 s))"
proof -
  obtain s where s: "mrun demo (init_machine 2 [5]) = Some s" "length (threads s) = 2"
    "stack (thr 0 s) = [Hz 0 (1, 0) 1 0]" "retired (the_cell 0 s) = [1]" using demo_run by blast
  then show ?thesis using borrowed_value_alive [OF reachable_run [OF s(1)], of 0 0 "(1, 0)" 1 0] by auto
qed

section \<open>Reference counts\<close>

text \<open>C8: Reference counts are exact. The strong count of every address is the number of references to it,
  from the cells (current and retired), from the threads (clones, and values being freed) and from the
  handles given out; and an address is free exactly when that number is zero.\<close>

theorem reference_counts_exact:
  assumes "reachable n vs s"
  shows "rc s a = cell_refs s a + thread_sum (\<lambda>t. count_list (owns t) a) s + count_list (pool s) a \<and>
    (heap s a = None \<longleftrightarrow> rc s a = 0)"
proof -
  have mem: "mem_inv s" using reachable_inv [OF assms] by (simp add: inv_def)
  then have "rc s a = refs s a" by (simp add: mem_inv_def)
  moreover have "heap s a = None \<longleftrightarrow> refs s a = 0" using mem_inv_live [OF mem, of a] by auto
  ultimately show ?thesis by (simp add: refs_def)
qed

theorem reference_counts_exact_witness:
  "\<exists>s. mrun demo (init_machine 2 [5]) = Some s \<and>
     rc s 1 = cell_refs s 1 + thread_sum (\<lambda>t. count_list (owns t) 1) s + count_list (pool s) 1"
  using demo_run reference_counts_exact [OF reachable_run, of demo 2 "[5]" _ 1] by blast

lemma cell_refs_0: "cell_refs s a = 0 \<longleftrightarrow> (\<forall>x\<in>set (cells s). a \<noteq> current x \<and> a \<notin> set (retired x))"
proof -
  have "cell_refs s a = 0 \<longleftrightarrow> (\<forall>x\<in>set (cells s). cref x a = 0)" by (simp add: cell_refs_def)
  also have "\<dots> \<longleftrightarrow> (\<forall>x\<in>set (cells s). a \<noteq> current x \<and> a \<notin> set (retired x))"
    by (rule ball_cong [OF refl]) (auto simp: cref_def count_list_0_iff)
  finally show ?thesis .
qed

lemma thread_sum_0: "(\<And>t. t \<in> set (threads s) \<Longrightarrow> f t = 0) \<Longrightarrow> thread_sum f s = 0"
  by (simp add: thread_sum_def)

text \<open>C20: No leak. When no call is in progress and no handle is held, the live allocations are exactly the
  current and the retired values of the cells, each with a reference count of one.\<close>

theorem quiescent_no_leak:
  assumes "reachable n vs s" "\<forall>t\<in>set (threads s). idle t \<and> stack t = []" "pool s = []"
  shows "rc s a = (if \<exists>x\<in>set (cells s). a = current x \<or> a \<in> set (retired x) then 1 else 0)"
proof -
  have mem: "mem_inv s" using reachable_inv [OF assms(1)] by (simp add: inv_def)
  have "thread_sum (\<lambda>t. count_list (owns t) a) s = 0"
    using assms(2) by (intro thread_sum_0) (auto simp: idle_iff owns_def pc_own_def)
  then have "rc s a = cell_refs s a" using mem assms(3) by (simp add: mem_inv_def refs_def)
  moreover have "cell_refs s a \<le> 1" using mem unfolding mem_inv_def by (meson le_add1 order_trans)
  ultimately show ?thesis using cell_refs_0 [of s a] by (auto simp: le_Suc_eq)
qed

theorem quiescent_no_leak_witness:
  "\<exists>s. mrun ((1, StartUpdate 0 (\<lambda>v. Some (v + 1))) # steps 1 10 2) (init_machine 2 [5 :: nat]) = Some s \<and> rc s 1 = 0 \<and> rc s 2 = 1"
proof -
  have "case mrun ((1, StartUpdate 0 (\<lambda>v. Some (v + 1))) # steps 1 10 2) (init_machine 2 [5 :: nat]) of None \<Rightarrow> False
    | Some s \<Rightarrow> list_all (\<lambda>t. idle t \<and> stack t = []) (threads s) \<and> pool s = [] \<and>
        map (\<lambda>x. (current x, retired x)) (cells s) = [(2, [])]" by code_simp
  then obtain s where s: "mrun ((1, StartUpdate 0 (\<lambda>v. Some (v + 1))) # steps 1 10 2) (init_machine 2 [5 :: nat]) = Some s"
    "\<forall>t\<in>set (threads s). idle t \<and> stack t = []" "pool s = []" "map (\<lambda>x. (current x, retired x)) (cells s) = [(2, [])]"
    by (auto simp: list_all_iff split: option.splits)
  then show ?thesis using quiescent_no_leak [OF reachable_run [OF s(1)] s(2,3)] by auto
qed

section \<open>Locks, records and counters\<close>

text \<open>C21: The writer lock excludes. Two threads that are inside the critical section of the same cell
  (updating it, reclaiming its retired values, cloning its value or copying its retired list) are the same
  thread, and that thread is the recorded holder of the lock.\<close>

theorem writers_exclude_each_other:
  assumes "reachable n vs s" "i < length (threads s)" "j < length (threads s)"
    and "pc_crit (pc (thr i s)) = Some c" "pc_crit (pc (thr j s)) = Some c"
  shows "i = j \<and> writer_lock (the_cell c s) = Some i"
proof -
  have iv: "lock_inv s" "cells_ok s" using reachable_inv [OF assms(1)] by (simp_all add: inv_def)
  have "c \<in> set (pc_cells (pc (thr i s)))" using assms(4) by (auto simp: pc_crit_def pc_cells_def split: pc.splits)
  then have c: "c < length (cells s)" by (rule cells_okD [OF iv(2) assms(2)])
  then show ?thesis using lock_inv_unique [OF iv(1) c assms(2-5)] iv(1) assms(2,4) by (simp add: lock_inv_def)
qed

theorem writers_exclude_each_other_witness:
  "\<exists>s. mrun [(1, StartUpdate 0 (\<lambda>v. Some (v + 1))), (1, Internal 0)] (init_machine 2 [5 :: nat]) = Some s \<and>
     writer_lock (the_cell 0 s) = Some 1"
proof -
  have "case mrun [(1, StartUpdate 0 (\<lambda>v. Some (v + 1))), (1, Internal 0)] (init_machine 2 [5 :: nat]) of None \<Rightarrow> False
    | Some s \<Rightarrow> length (threads s) = 2 \<and> pc_crit (pc (thr 1 s)) = Some 0" by code_simp
  then obtain s where s: "mrun [(1, StartUpdate 0 (\<lambda>v. Some (v + 1))), (1, Internal 0)] (init_machine 2 [5 :: nat]) = Some s"
    "length (threads s) = 2" "pc_crit (pc (thr 1 s)) = Some 0" by (auto split: option.splits)
  then show ?thesis using writers_exclude_each_other [OF reachable_run [OF s(1)], of 1 1 0] by auto
qed

text \<open>C22: A hazard record has one owner. The record of a thread is in the published list, belongs to no
  other thread, and its slots hold exactly the announcements of the owner's reads (null where it has none).\<close>

theorem hazard_records_exclusive:
  assumes "reachable n vs s" "i < length (threads s)" "own_record (thr i s) \<noteq> null"
  shows "(\<forall>j<length (threads s). j \<noteq> i \<longrightarrow> own_record (thr j s) \<noteq> own_record (thr i s)) \<and>
    own_record (thr i s) \<in> published (haz s) \<and>
    (\<forall>k<SLOTS. load_slot (haz s) (own_record (thr i s), k) = pin_at (thr i s) k)"
proof -
  have rec: "rec_inv s" using reachable_inv [OF assms(1)] by (simp add: inv_def)
  then have ok: "rec_ok (haz s) (thr i s)" using assms(2) by (simp add: rec_inv_def)
  have ri: "rec_of (thr i s) = own_record (thr i s)" using assms(3) by (simp add: rec_of_def)
  have "own_record (thr j s) \<noteq> own_record (thr i s)" if j: "j < length (threads s)" "j \<noteq> i" for j
  proof
    assume eq: "own_record (thr j s) = own_record (thr i s)"
    then have "rec_of (thr j s) = rec_of (thr i s)" using assms(3) by (simp add: rec_of_def)
    moreover have "rec_of (thr i s) \<noteq> rec_of (thr j s)" using rec assms(2,3) j ri unfolding rec_inv_def by metis
    ultimately show False by simp
  qed
  then show ?thesis using ok assms(3) ri by (auto simp: rec_ok_def load_slot_def)
qed

theorem hazard_records_exclusive_witness:
  "\<exists>s. mrun demo (init_machine 2 [5]) = Some s \<and> 1 \<in> published (haz s) \<and> own_record (thr 1 s) \<noteq> 1"
proof -
  obtain s where s: "mrun demo (init_machine 2 [5]) = Some s" "length (threads s) = 2" "own_record (thr 0 s) = 1"
    using demo_run by blast
  then show ?thesis using hazard_records_exclusive [OF reachable_run [OF s(1)], of 0] by auto
qed

text \<open>C23: The fallback counter of a cell is the number of fallback reads of it that are in progress,
  nested ones and those that are just entering or leaving included.\<close>

theorem fallback_counter_exact:
  assumes "reachable n vs s" "c < length (cells s)"
  shows "fallback_readers (the_cell c s) = (\<Sum>t\<leftarrow>threads s. count_list (fb_cells t) c)"
  using reachable_inv [OF assms(1)] assms(2) by (simp add: inv_def fb_inv_def thread_sum_def)

theorem fallback_counter_exact_witness:
  "\<exists>s. mrun ([(1, ThreadExit), (1, StartRead 0)] @ steps 1 6 0) (init_machine 2 [5 :: nat]) = Some s \<and>
     fallback_readers (the_cell 0 s) = 1"
proof -
  have "case mrun ([(1, ThreadExit), (1, StartRead 0)] @ steps 1 6 0) (init_machine 2 [5 :: nat]) of None \<Rightarrow> False
    | Some s \<Rightarrow> length (cells s) = 1 \<and> (\<Sum>t\<leftarrow>threads s. count_list (fb_cells t) 0) = 1" by code_simp
  then obtain s where s: "mrun ([(1, ThreadExit), (1, StartRead 0)] @ steps 1 6 0) (init_machine 2 [5 :: nat]) = Some s"
    "length (cells s) = 1" "(\<Sum>t\<leftarrow>threads s. count_list (fb_cells t) 0) = 1" by (auto split: option.splits)
  then show ?thesis using fallback_counter_exact [OF reachable_run [OF s(1)], of 0] by auto
qed

section \<open>The wait\<close>

text \<open>C7: The guarantee of \<open>wait_for_retired_readers\<close>. Thread \<open>j\<close> calls it in \<open>s0\<close>, any threads run, and the call
  has returned in \<open>s2\<close>. Then every read of the cell that another thread is inside of borrows a value at
  least as new as the one current at the call, so none of the values retired by then; for a read on the
  fallback path this holds when the caller was not itself inside a fallback read.\<close>

theorem wait_excludes_old_readers:
  assumes "reachable n vs s0" "mstep j (StartWait c) s0 = Some s1"
    and "mrun ls s1 = Some s2" "list_all (runs_on j) ls" "idle (thr j s2)"
    and "i < length (threads s2)" "i \<noteq> j" "f \<in> set (stack (thr i s2))" "frame_cell f = c"
    and "on_fallback f \<longrightarrow> depth (thr j s0) = 0"
  shows "stamps s0 (current (the_cell c s0)) \<le> frame_stamp f \<and>
    (\<forall>p\<in>set (retired (the_cell c s0)). stamps s0 p < frame_stamp f)"
proof -
  let ?b = "stamps s0 (current (the_cell c s0))"
  have s1: "c < length (cells s0)" "j < length (threads s0)" "s1 = goto j (WaitFb c (0 < depth (thr j s0)) ?b) s0"
    using assms(2) by (auto simp: mstep_def user_def split: if_splits pc.splits)
  have "pc_wait (pc (thr j s1)) = Some (c, 0 < depth (thr j s0), ?b)" using s1 by (simp add: pc_wait_def)
  then have "clear_of s2 j c (0 < depth (thr j s0)) ?b"
    using wait_call [OF assms(3,4) reachable.step [OF assms(1,2)], of c "0 < depth (thr j s0)" ?b] s1 assms(5)
    by (auto simp: pc_wait_def idle_iff)
  then have "?b \<le> frame_stamp f" by (rule clear_of_frame [OF _ assms(6-9)]) (use assms(10) in simp)
  then show ?thesis using reachable_order_inv [OF assms(1)] s1(1) by (fastforce simp: order_inv_def)
qed

theorem wait_excludes_old_readers_witness:
  "\<exists>s0 s1 s2. mrun demo (init_machine 2 [5]) = Some s0 \<and> mstep 1 (StartWait 0) s0 = Some s1 \<and> mrun demo_wait s1 = Some s2 \<and>
     stamps s0 (current (the_cell 0 s0)) \<le> frame_stamp (hd (stack (thr 0 s2)))"
proof -
  have "case mrun demo (init_machine 2 [5]) of None \<Rightarrow> False | Some s0 \<Rightarrow>
    (case mstep 1 (StartWait 0) s0 of None \<Rightarrow> False | Some s1 \<Rightarrow>
      (case mrun demo_wait s1 of None \<Rightarrow> False | Some s2 \<Rightarrow> idle (thr 1 s2) \<and> length (threads s2) = 2 \<and> stack (thr 0 s2) = [Hz 0 (1, 0) 2 1]))"
    by code_simp
  then obtain s0 s1 s2 where s: "mrun demo (init_machine 2 [5]) = Some s0" "mstep 1 (StartWait 0) s0 = Some s1"
    "mrun demo_wait s1 = Some s2" "idle (thr 1 s2)" "length (threads s2) = 2" "stack (thr 0 s2) = [Hz 0 (1, 0) 2 1]"
    by (auto split: option.splits)
  moreover have "list_all (runs_on 1) demo_wait" by code_simp
  ultimately show ?thesis
    using wait_excludes_old_readers [OF reachable_run [OF s(1)] s(2,3), of 0 "Hz 0 (1, 0) 2 1"] by auto
qed

text \<open>C19: The gap in that guarantee is real. When the caller is inside a fallback read itself, the wait
  can return while another thread is still inside a fallback read of a value that was replaced before the
  call, so \<open>unregister_and_wait\<close> can return while the removed handler runs on another thread.\<close>

theorem wait_from_fallback_misses_fallback_readers:
  "\<exists>s0 s1 s2. reachable 2 [5 :: nat] s0 \<and> mstep 0 (StartWait 0) s0 = Some s1 \<and> mrun (steps 0 4 0) s1 = Some s2 \<and> idle (thr 0 s2) \<and>
     (\<exists>f. f \<in> set (stack (thr 1 s2)) \<and> frame_cell f = 0 \<and> frame_stamp f < stamps s0 (current (the_cell 0 s0)))"
proof -
  have "case mrun gap (init_machine 2 [5]) of None \<Rightarrow> False | Some s0 \<Rightarrow>
    (case mstep 0 (StartWait 0) s0 of None \<Rightarrow> False | Some s1 \<Rightarrow>
      (case mrun (steps 0 4 0) s1 of None \<Rightarrow> False | Some s2 \<Rightarrow> idle (thr 0 s2) \<and> stack (thr 1 s2) = [Fb 0 1 0] \<and>
         stamps s0 (current (the_cell 0 s0)) = 1))"
    by code_simp
  then obtain s0 s1 s2 where s: "mrun gap (init_machine 2 [5]) = Some s0" "mstep 0 (StartWait 0) s0 = Some s1"
    "mrun (steps 0 4 0) s1 = Some s2" "idle (thr 0 s2)" "stack (thr 1 s2) = [Fb 0 1 0]" "stamps s0 (current (the_cell 0 s0)) = 1"
    by (auto split: option.splits)
  show ?thesis
    by (rule exI [of _ s0], rule exI [of _ s1], rule exI [of _ s2]) (use s reachable_run [OF s(1)] in auto)
qed

section \<open>Progress\<close>

lemma heap_finite_step:
  assumes "tr i s s'" "finite (dom (heap s))" shows "finite (dom (heap s'))"
  using assms
  by cases (auto simp: drop_ref_def arc_drop_def clone_ref_def arc_clone_def arc_new_at_def split: option.splits)

lemma reachable_heap_finite: "reachable n vs s \<Longrightarrow> finite (dom (heap s))"
proof (induction rule: reachable.induct)
  case start
  have "dom (heap (init_machine n vs)) \<subseteq> {1..length vs}" by (auto simp: init_machine_def dom_def split: if_splits)
  then show ?case using finite_subset by blast
next
  case (step s i l s')
  then show ?case using heap_finite_step mstep_tr by blast
qed

lemma fresh_address:
  assumes "finite (dom (heap s))" shows "\<exists>a. a \<noteq> null \<and> heap s a = None"
proof -
  have "\<exists>a. a \<notin> insert null (dom (heap s))" using ex_new_if_finite [OF infinite_UNIV_nat] assms by blast
  then show ?thesis by auto
qed

definition pc_blocks :: "'v pc \<Rightarrow> nat option" where
  "pc_blocks q = (case q of LockedLock k c \<Rightarrow> Some c | UpdLock c f \<Rightarrow> Some c | WaitLock c cof b \<Rightarrow> Some c | _ \<Rightarrow> None)"

lemma internal_enabled:
  assumes "reachable n vs s" "i < length (threads s)" "\<not> idle (thr i s)"
    and "\<And>c. pc_blocks (pc (thr i s)) = Some c \<Longrightarrow> writer_lock (the_cell c s) = None"
  shows "\<exists>a s'. mstep i (Internal a) s = Some s'"
proof -
  obtain a where a: "a \<noteq> null" "heap s a = None" using fresh_address [OF reachable_heap_finite [OF assms(1)]] by blast
  have "\<exists>s'. internal i a s = Some s'"
    using assms(3,4) a
    by (cases "pc (thr i s)")
      (auto simp: idle_iff pc_blocks_def step_defs acquire_then_def Let_def split_beta split: option.splits list.splits rkind.splits)
  then show ?thesis using assms(2) by (auto simp: mstep_def)
qed

text \<open>C24: No deadlock on the writer locks. A thread inside a call can take its next step, or it is
  waiting for a writer lock and the thread that holds that lock is another one and can take its next step.\<close>

theorem no_deadlock_on_writer_locks:
  assumes "reachable n vs s" "i < length (threads s)" "\<not> idle (thr i s)"
  shows "(\<exists>a s'. mstep i (Internal a) s = Some s') \<or>
    (\<exists>c j a s'. pc_blocks (pc (thr i s)) = Some c \<and> writer_lock (the_cell c s) = Some j \<and> j \<noteq> i \<and> mstep j (Internal a) s = Some s')"
proof (cases "\<exists>c j. pc_blocks (pc (thr i s)) = Some c \<and> writer_lock (the_cell c s) = Some j")
  case True
  then obtain c j where b: "pc_blocks (pc (thr i s)) = Some c" "writer_lock (the_cell c s) = Some j" by blast
  have iv: "lock_inv s" "cells_ok s" using reachable_inv [OF assms(1)] by (simp_all add: inv_def)
  have "c \<in> set (pc_cells (pc (thr i s)))" using b(1) by (auto simp: pc_blocks_def pc_cells_def split: pc.splits)
  then have c: "c < length (cells s)" by (rule cells_okD [OF iv(2) assms(2)])
  have j: "j < length (threads s)" "pc_crit (pc (thr j s)) = Some c" using iv(1) c b(2) by (auto simp: lock_inv_def)
  have "\<exists>a s'. mstep j (Internal a) s = Some s'"
    by (rule internal_enabled [OF assms(1) j(1)])
      (use j(2) in \<open>auto simp: idle_iff pc_crit_def pc_blocks_def split: pc.splits\<close>)
  moreover have "j \<noteq> i" using b(1) j(2) by (auto simp: pc_crit_def pc_blocks_def split: pc.splits)
  ultimately show ?thesis using b by blast
next
  case False
  then show ?thesis using internal_enabled [OF assms] by (metis option.exhaust)
qed

theorem no_deadlock_on_writer_locks_witness:
  "\<exists>s c j a s'. mrun [(1, StartUpdate 0 (\<lambda>v. Some (v + 1))), (1, Internal 0), (0, StartUpdate 0 (\<lambda>v. None))] (init_machine 2 [5 :: nat]) = Some s \<and>
     pc_blocks (pc (thr 0 s)) = Some c \<and> writer_lock (the_cell c s) = Some j \<and> mstep j (Internal a) s = Some s'"
proof -
  let ?ls = "[(1, StartUpdate 0 (\<lambda>v. Some (v + 1))), (1, Internal 0), (0, StartUpdate 0 (\<lambda>v. None))]"
  have "case mrun ?ls (init_machine 2 [5 :: nat]) of None \<Rightarrow> False
    | Some s \<Rightarrow> length (threads s) = 2 \<and> \<not> idle (thr 0 s) \<and> (case mstep 0 (Internal 0) s of None \<Rightarrow> True | Some _ \<Rightarrow> False)"
    by code_simp
  then obtain s where s: "mrun ?ls (init_machine 2 [5 :: nat]) = Some s" "length (threads s) = 2" "\<not> idle (thr 0 s)"
    "mstep 0 (Internal 0) s = None" by (auto split: option.splits)
  have "case mrun ?ls (init_machine 2 [5 :: nat]) of None \<Rightarrow> False
    | Some s \<Rightarrow> (case pc (thr 0 s) of UpdLock c f \<Rightarrow> c = 0 | _ \<Rightarrow> False) \<and> writer_lock (the_cell 0 s) = Some 1"
    by code_simp
  then obtain f where "pc (thr 0 s) = UpdLock 0 f" "writer_lock (the_cell 0 s) = Some 1" using s(1) by (auto split: pc.splits)
  then have "mstep 0 (Internal a) s = None" for a
    using s(2) by (simp add: mstep_def step_defs acquire_then_def)
  then show ?thesis using no_deadlock_on_writer_locks [OF reachable_run [OF s(1)], of 0] s by auto
qed

text \<open>
  The rank of a thread inside a writer lock: the phase of the critical section, then the records
  its scan still has to visit, then the slots of the record it is at.
\<close>

definition crit_rank :: "nat \<Rightarrow> 'v machine \<Rightarrow> nat \<times> nat \<times> nat" where
  "crit_rank i s = (case pc (thr i s) of
     UpdRun c f \<Rightarrow> (8, 0, 0) | UpdStore c raw new \<Rightarrow> (7, 0, 0) | ScanHead c \<Rightarrow> (6, 0, 0)
   | Scan c r k acc \<Rightarrow> (5, card (after (haz s) r), SLOTS - k)
   | Sweep c acc \<Rightarrow> (4, 0, 0) | StoreLen c freed \<Rightarrow> (3, 0, 0) | Unlock c freed \<Rightarrow> (2, 0, 0)
   | LockedClone k c \<Rightarrow> (2, 0, 0) | _ \<Rightarrow> (1, 0, 0))"

lemma card_after_next:
  assumes "chain_ok h" "r \<in> published h"
  shows "card (after h (next_rec (record_at h r))) < card (after h r)"
proof -
  from assms obtain xs where xs: "path (record_at h) r xs" by (auto elim: published_path)
  have "r \<noteq> null" by (rule after_step(3) [OF assms])
  with xs obtain ys where ys: "xs = r # ys" by (cases xs) simp_all
  have p: "path (record_at h) (next_rec (record_at h r)) ys" using xs unfolding ys by simp
  have "distinct (r # ys)" using path_distinct [OF xs] unfolding ys .
  then have "card (set ys) < card (set (r # ys))" by simp
  then show ?thesis by (simp only: after_eq [OF xs] after_eq [OF p] ys)
qed

text \<open>C25: Every critical section ends. Each step of a thread that stays inside a writer lock decreases
  its rank in a well-founded order, and no step of another thread changes the rank.\<close>

theorem critical_section_ends:
  assumes "reachable n vs s" "mstep k l s = Some s'" "i < length (threads s)"
    and "pc_crit (pc (thr i s)) = Some c" "pc_crit (pc (thr i s')) = Some c"
  shows "if k = i then (crit_rank i s', crit_rank i s) \<in> less_than <*lex*> less_than <*lex*> less_than
    else crit_rank i s' = crit_rank i s"
proof -
  have iv: "inv s" using reachable_inv [OF assms(1)] .
  have rec: "rec_inv s" and mem: "mem_inv s" and ok: "cells_ok s" using iv by (simp_all add: inv_def)
  have ch: "chain_ok (haz s)" using rec by (simp add: rec_inv_def)
  have t: "tr k s s'" "k < length (threads s)" using mstep_tr [OF assms(2)] by auto
  show ?thesis
  proof (cases "k = i")
    case True
    note t = t [unfolded True]
    note vs = crit_rank_def pc_crit_def
    from t(1) have "(crit_rank i s', crit_rank i s) \<in> less_than <*lex*> less_than <*lex*> less_than"
    proof cases
      case (scan_next c' r j acc)
      then have "r \<in> published (haz s)" using cursor_published [OF rec t(2)] by (simp add: pc_cursor_def)
      then show ?thesis using scan_next t(2) card_after_next [OF ch] by (simp add: vs)
    next
      case (upd_fault c' f)
      have "c' < length (cells s)" using cells_okD [OF ok t(2), of c'] upd_fault by (simp add: pc_cells_def)
      then show ?thesis using upd_fault cell_live [OF mem] by blast
    qed (use assms(4,5) t(2) in \<open>auto simp: vs no_slot_def split: rkind.splits\<close>)
    then show ?thesis using True by simp
  next
    case False
    have "after (haz s') r = after (haz s) r" if "pc (thr i s) = Scan c' r j acc" for c' r j acc
      using tr_haz [OF t rec] cursor_published [OF rec assms(3)] that by (simp add: pc_cursor_def)
    then have "crit_rank i s' = crit_rank i s" using tr_thr [OF t(1), of i] False by (simp add: crit_rank_def split: pc.splits)
    then show ?thesis using False by simp
  qed
qed

theorem critical_section_ends_witness:
  "\<exists>s s'. mrun [(1, StartUpdate 0 (\<lambda>v. Some (v + 1))), (1, Internal 0)] (init_machine 2 [5 :: nat]) = Some s \<and>
     mstep 1 (Internal 2) s = Some s' \<and> (crit_rank 1 s', crit_rank 1 s) \<in> less_than <*lex*> less_than <*lex*> less_than"
proof -
  let ?ls = "[(1, StartUpdate 0 (\<lambda>v. Some (v + 1))), (1, Internal 0)]"
  have "case mrun ?ls (init_machine 2 [5 :: nat]) of None \<Rightarrow> False
    | Some s \<Rightarrow> length (threads s) = 2 \<and> pc_crit (pc (thr 1 s)) = Some 0 \<and>
       (case mstep 1 (Internal 2) s of None \<Rightarrow> False | Some s' \<Rightarrow> pc_crit (pc (thr 1 s')) = Some 0)"
    by code_simp
  then obtain s s' where s: "mrun ?ls (init_machine 2 [5 :: nat]) = Some s" "length (threads s) = 2" "pc_crit (pc (thr 1 s)) = Some 0"
    "mstep 1 (Internal 2) s = Some s'" "pc_crit (pc (thr 1 s')) = Some 0" by (auto split: option.splits)
  then show ?thesis using critical_section_ends [OF reachable_run [OF s(1)] s(4), of 1 0] by auto
qed

end
