(* ===== verification/SnapRuns.thy ===== *)
theory SnapRuns
  imports SnapTheorems
begin

text \<open>
  Runs of one thread of the interleaving machine through the loops of the module: each
  loop of \<^verbatim>\<open>Hazard\<close> and \<^verbatim>\<open>SnapCell\<close>, as one thread runs it alone, is the composition of the machine's
  atomic steps.
\<close>

section \<open>Runs of one thread\<close>

definition mstep_by :: "nat \<Rightarrow> 'v machine \<Rightarrow> 'v machine \<Rightarrow> bool" where
  "mstep_by i m m' \<longleftrightarrow> (\<exists>l. mstep i l m = Some m')"

abbreviation runs :: "nat \<Rightarrow> 'v machine \<Rightarrow> 'v machine \<Rightarrow> bool" where
  "runs i \<equiv> (mstep_by i)\<^sup>*\<^sup>*"

lemma runs_keep:
  assumes "runs i m m'" "inv m" "\<not> fault m"
  shows "inv m' \<and> \<not> fault m' \<and> length (threads m') = length (threads m) \<and> (\<forall>j. j \<noteq> i \<longrightarrow> thr j m' = thr j m)"
  using assms
proof (induction rule: rtranclp_induct)
  case (step y z)
  then obtain l where "mstep i l y = Some z" by (auto simp: mstep_by_def)
  then have t: "tr i y z" "i < length (threads y)" using mstep_tr by auto
  then show ?case using step inv_step [OF t] fault_step [OF t] tr_length(1) [OF t(1)] tr_thr [OF t(1)] by auto
qed simp

lemma runs_internal:
  assumes "internal i a m = Some m'" "i < length (threads m)" shows "runs i m m'"
  using assms by (intro r_into_rtranclp) (auto simp: mstep_by_def mstep_def intro!: exI [of _ "Internal a"])

lemma runs_user:
  assumes "user i l m = Some m'" "i < length (threads m)" shows "runs i m m'"
proof -
  have "\<not> (\<exists>a. l = Internal a)" "l \<noteq> Spurious" using assms(1) by (auto simp: user_def split: pc.splits)
  then have "mstep i l m = Some m'" using assms by (cases l) (auto simp: mstep_def)
  then show ?thesis by (intro r_into_rtranclp) (auto simp: mstep_by_def)
qed

lemmas mstate_defs = goto_def put_thr_def set_lock_def claim_record_def

lemma goto_goto [simp]: "i < length (threads m) \<Longrightarrow> goto i q (goto i q' m) = goto i q m"
  by (simp add: mstate_defs)

lemma pc_goto [simp]: "i < length (threads m) \<Longrightarrow> pc (thr i (goto i q m)) = q"
  by simp

section \<open>The scans\<close>

lemma runs_scan_slots:
  assumes "i < length (threads m)" "r \<noteq> null" "j \<le> SLOTS"
  shows "runs i (goto i (Scan c r j acc) m)
    (goto i (Scan c r SLOTS (acc @ filter (\<lambda>p. p \<noteq> null) (map (\<lambda>k. load_slot (haz m) (r, k)) [j..<SLOTS]))) m)"
  using assms(3)
proof (induction "SLOTS - j" arbitrary: j acc)
  case (Suc n)
  then have j: "j < SLOTS" by simp
  let ?p = "load_slot (haz m) (r, j)"
  let ?acc = "if ?p \<noteq> null then acc @ [?p] else acc"
  have "runs i (goto i (Scan c r j acc) m) (goto i (Scan c r (Suc j) ?acc) m)"
    by (rule runs_internal [of _ 0]) (use assms j in \<open>auto simp: step_defs Let_def\<close>)
  also have "runs i (goto i (Scan c r (Suc j) ?acc) m)
    (goto i (Scan c r SLOTS (?acc @ filter (\<lambda>p. p \<noteq> null) (map (\<lambda>k. load_slot (haz m) (r, k)) [Suc j..<SLOTS]))) m)"
    using Suc by (intro Suc.hyps) auto
  finally show ?case using j by (cases "?p = null") (simp_all add: upt_conv_Cons)
qed simp

lemma runs_scan:
  assumes "i < length (threads m)" "path (record_at (haz m)) r xs"
  shows "runs i (goto i (Scan c r 0 acc) m) (goto i (Sweep c (acc @ concat (map (record_pins (haz m)) xs))) m)"
  using assms(2)
proof (induction xs arbitrary: r acc)
  case Nil
  then show ?case using assms(1) by (intro runs_internal [of _ 0]) (auto simp: step_defs)
next
  case (Cons x xs)
  then have x: "x = r" "r \<noteq> null" and nx: "path (record_at (haz m)) (next_rec (record_at (haz m) r)) xs" by auto
  have "runs i (goto i (Scan c r 0 acc) m) (goto i (Scan c r SLOTS (acc @ record_pins (haz m) r)) m)"
    using runs_scan_slots [OF assms(1) x(2), of 0 c acc] by (simp add: record_pins_def)
  also have "runs i \<dots> (goto i (Scan c (next_rec (record_at (haz m) r)) 0 (acc @ record_pins (haz m) r)) m)"
    by (rule runs_internal [of _ 0]) (use assms(1) x in \<open>auto simp: step_defs Let_def\<close>)
  also have "runs i \<dots> (goto i (Sweep c ((acc @ record_pins (haz m) r) @ concat (map (record_pins (haz m)) xs))) m)"
    by (rule Cons.IH [OF nx])
  finally show ?case using x by simp
qed

lemma goto_haz: "goto i q (m\<lparr>haz := h\<rparr>) = (goto i q m)\<lparr>haz := h\<rparr>"
  by (simp add: mstate_defs)

lemma haz_same: "m\<lparr>haz := haz m\<rparr> = (m :: 'v machine)"
  by (cases m) simp

lemma haz_haz: "m\<lparr>haz := h\<rparr>\<lparr>haz := h'\<rparr> = (m\<lparr>haz := h'\<rparr> :: 'v machine)"
  by simp

lemma runs_reuse_step:
  assumes "i < length (threads m)" "r \<noteq> null" "try_reuse r (haz m, reused) = (h, reused')"
  shows "runs i (goto i (ReuseScan k c p r reused) m)
    (goto i (ReuseScan k c p (next_rec (record_at (haz m) r)) reused') (m\<lparr>haz := h\<rparr>))"
proof (cases "reused = null \<and> \<not> in_use (record_at (haz m) r)")
  case True
  then have t: "h = set_in_use r True (haz m)" "reused' = r" using assms(3) by (auto simp: try_reuse_def)
  have "internal i 0 (goto i (ReuseScan k c p r reused) m)
      = Some (goto i (ReuseScan k c p (next_rec (record_at (haz m) r)) r) ((goto i (ReuseScan k c p r reused) m)\<lparr>haz := h\<rparr>))"
    using assms(1,2) True t by (simp add: internal_def step_acquire_def)
  then show ?thesis unfolding t goto_haz using assms(1) by (intro runs_internal [of _ 0]) simp_all
next
  case False
  then have t: "h = haz m" "reused' = reused" using assms(3) by (auto simp: try_reuse_def split: if_splits)
  have "internal i 0 (goto i (ReuseScan k c p r reused) m)
      = Some (goto i (ReuseScan k c p (next_rec (record_at (haz m) r)) reused) m)"
    using assms(1,2) False by (auto simp: internal_def step_acquire_def)
  then show ?thesis unfolding t haz_same using assms(1) by (intro runs_internal [of _ 0]) simp_all
qed

lemma runs_reuse:
  assumes "i < length (threads m)" "path (record_at (haz m)) r xs" "fold try_reuse xs (haz m, reused) = (h, reused')"
  shows "runs i (goto i (ReuseScan k c p r reused) m) (goto i (ReuseScan k c p null reused') (m\<lparr>haz := h\<rparr>))"
  using assms
proof (induction xs arbitrary: m r reused)
  case Nil
  then have "r = null" "h = haz m" "reused' = reused" by auto
  then show ?case by (simp only: haz_same)
next
  case (Cons x xs)
  then have x: "x = r" "r \<noteq> null" and nx: "path (record_at (haz m)) (next_rec (record_at (haz m) r)) xs" by auto
  obtain h1 r1 where t: "try_reuse r (haz m, reused) = (h1, r1)" by (cases "try_reuse r (haz m, reused)")
  have nxt: "next_rec (record_at h1 y) = next_rec (record_at (haz m) y)" for y
    using next_try_reuse [of r "(haz m, reused)" y] by (simp only: t fst_conv)
  have "path (record_at h1) (next_rec (record_at (haz m) r)) xs = path (record_at (haz m)) (next_rec (record_at (haz m) r)) xs"
    by (rule path_cong) (rule nxt)
  with nx have p: "path (record_at (haz (m\<lparr>haz := h1\<rparr>))) (next_rec (record_at (haz m) r)) xs" by simp
  have f: "fold try_reuse xs (haz (m\<lparr>haz := h1\<rparr>), r1) = (h, reused')" using Cons.prems(3) x t by simp
  have l: "i < length (threads (m\<lparr>haz := h1\<rparr>))" using Cons.prems(1) by simp
  from Cons.IH [OF l p f] runs_reuse_step [OF Cons.prems(1) x(2) t] show ?case unfolding haz_haz by (rule rtranclp_trans [rotated])
qed

lemma runs_acquire:
  assumes i: "i < length (threads m)" and ch: "chain_ok (haz m)" and a: "acquire_record (haz m) = (r, h)"
  shows "runs i (goto i (ReuseScan k c p (HEAD (haz m)) null) m) (claim_record i r (PinSlot k c p) (m\<lparr>haz := h\<rparr>))"
proof -
  obtain xs where xs: "path (record_at (haz m)) (HEAD (haz m)) xs" "set xs \<subseteq> {1..n_records (haz m)}"
    using ch by (auto simp: chain_ok_def)
  have n: "null \<notin> set xs" using xs(2) by auto
  let ?st = "fold try_reuse xs (haz m, null)"
  let ?m = "m\<lparr>haz := fst ?st\<rparr>"
  have run: "runs i (goto i (ReuseScan k c p (HEAD (haz m)) null) m) (goto i (ReuseScan k c p null (snd ?st)) ?m)"
    by (rule runs_reuse [OF i xs(1)]) simp
  show ?thesis
  proof (cases "find (\<lambda>r. \<not> in_use (record_at (haz m) r)) xs")
    case (Some r')
    then have "r' \<noteq> null" using n by (metis find_Some_iff nth_mem)
    have st: "?st = (h, r)" "r = r'" using Some a by (auto simp: try_reuse_fold [OF n] acquire_record_eq [OF xs])
    have "runs i (goto i (ReuseScan k c p null r) (m\<lparr>haz := h\<rparr>)) (claim_record i r (PinSlot k c p) (m\<lparr>haz := h\<rparr>))"
      by (rule runs_internal [of _ 0])
        (use i st(2) \<open>r' \<noteq> null\<close> in \<open>simp_all add: internal_def step_acquire_def mstate_defs\<close>)
    with run show ?thesis unfolding st(1) by simp
  next
    case None
    have st: "?st = (haz m, null)" using None by (simp add: try_reuse_fold [OF n])
    let ?h = "snd (leak_record (haz m))"
    have a': "r = fst (leak_record (haz m))" "h = push_record r ?h"
      using None a by (auto simp: acquire_record_eq [OF xs] leak_record_def Let_def)
    have "runs i (goto i (ReuseScan k c p null null) m) (goto i (PushHead k c p r) (m\<lparr>haz := ?h\<rparr>))"
      by (rule runs_internal [of _ 0]) (use i a' in \<open>simp_all add: internal_def step_acquire_def split_beta mstate_defs\<close>)
    also have "runs i \<dots> (goto i (PushCas k c p r (HEAD ?h)) (m\<lparr>haz := ?h\<rparr>))"
      by (rule runs_internal [of _ 0]) (use i in \<open>simp_all add: internal_def step_acquire_def\<close>)
    also have "runs i \<dots> (claim_record i r (PinSlot k c p) (m\<lparr>haz := h\<rparr>))"
      by (rule runs_internal [of _ 0])
        (use i a' in \<open>simp_all add: internal_def step_acquire_def Let_def push_record_def mstate_defs\<close>)
    finally show ?thesis using run st by simp
  qed
qed

lemma runs_slot:
  assumes i: "i < length (threads m)"
  shows "runs i (goto i (PinSlot k c p) m) (case free_slot (local_record (tls (thr i m))) (haz m) of
      None \<Rightarrow> goto i (no_slot k c) m
    | Some j \<Rightarrow> goto i (Validate k c (local_record (tls (thr i m)), j) p)
        (m\<lparr>haz := Pin_protect (local_record (tls (thr i m)), j) p (haz m)\<rparr>))"
  by (rule runs_internal [of _ 0]) (use i in \<open>auto simp: internal_def step_pin_def Let_def goto_haz split: option.splits\<close>)

text \<open>\<open>hazard::pin\<close>, from the look at the thread-local to the published announcement.\<close>

lemma runs_pin:
  assumes i: "i < length (threads m)" and ch: "chain_ok (haz m)" and pin: "pin p (tls (thr i m)) (haz m) = (pn, l, h)"
  shows "runs i (goto i (PinTls k c p) m)
    (put_thr i ((thr i m)\<lparr>tls := l, pc := (case pn of None \<Rightarrow> no_slot k c | Some pn \<Rightarrow> Validate k c pn p)\<rparr>) (m\<lparr>haz := h\<rparr>))"
proof (cases "local_alive (tls (thr i m))")
  case False
  then have "pn = None" "l = tls (thr i m)" "h = haz m" using pin by (auto simp: pin_def)
  then show ?thesis using False i
    by (intro runs_internal [of _ 0]) (simp_all add: internal_def step_pin_def mstate_defs)
next
  case alive: True
  show ?thesis
  proof (cases "local_record (tls (thr i m)) = null")
    case False
    have "runs i (goto i (PinTls k c p) m) (goto i (PinSlot k c p) m)"
      by (rule runs_internal [of _ 0]) (use i alive False in \<open>simp_all add: internal_def step_pin_def\<close>)
    with runs_slot [OF i, of k c p] show ?thesis using pin alive False
      by (auto simp: pin_def mstate_defs split: option.splits)
  next
    case True
    obtain r h1 where a: "acquire_record (haz m) = (r, h1)" by (cases "acquire_record (haz m)")
    let ?m = "claim_record i r (PinSlot k c p) (m\<lparr>haz := h1\<rparr>)"
    have "runs i (goto i (PinTls k c p) m) (goto i (ReuseScan k c p (HEAD (haz m)) null) m)"
      by (rule runs_internal [of _ 0]) (use i alive True in \<open>simp_all add: internal_def step_pin_def\<close>)
    also have "runs i \<dots> ?m" by (rule runs_acquire [OF i ch a])
    finally have run: "runs i (goto i (PinTls k c p) m) ?m" .
    have "goto i (PinSlot k c p) ?m = ?m" using i by (simp add: mstate_defs)
    then have "runs i ?m (case free_slot (local_record (tls (thr i ?m))) (haz ?m) of
      None \<Rightarrow> goto i (no_slot k c) ?m
    | Some j \<Rightarrow> goto i (Validate k c (local_record (tls (thr i ?m)), j) p)
        (?m\<lparr>haz := Pin_protect (local_record (tls (thr i ?m)), j) p (haz ?m)\<rparr>))"
      using runs_slot [of i ?m k c p] i by simp
    with run show ?thesis using pin alive True a i
      by (auto simp: pin_def mstate_defs split: option.splits)
  qed
qed

section \<open>Collecting and dropping\<close>

lemma drop_ref_goto: "drop_ref a (goto i q m) = goto i q (drop_ref a m)"
  by (simp add: mstate_defs drop_ref_def arc_drop_def split: option.splits)

lemma clone_ref_goto: "clone_ref a (goto i q m) = goto i q (clone_ref a m)"
  by (simp add: mstate_defs clone_ref_def arc_clone_def split: option.splits)

lemma fold_drop_ref_sel:
  "haz (fold drop_ref as m) = haz m" "threads (fold drop_ref as m) = threads m" "cells (fold drop_ref as m) = cells m"
  "pool (fold drop_ref as m) = pool m" "stamps (fold drop_ref as m) = stamps m" "clock (fold drop_ref as m) = clock m"
  by (induction as arbitrary: m) auto

lemma runs_drop:
  "i < length (threads m) \<Longrightarrow> runs i (goto i (DropFreed as) m) (goto i Idle (fold drop_ref as m))"
proof (induction as arbitrary: m)
  case Nil
  then show ?case by (intro runs_internal [of _ 0]) (simp_all add: internal_def step_collect_def)
next
  case (Cons a as)
  have "runs i (goto i (DropFreed (a # as)) m) (goto i (DropFreed as) (drop_ref a m))"
    by (rule runs_internal [of _ 0]) (use Cons.prems in \<open>simp_all add: internal_def step_collect_def drop_ref_goto\<close>)
  also have "runs i \<dots> (goto i Idle (fold drop_ref as (drop_ref a m)))" using Cons by simp
  finally show ?case by simp
qed

lemma goto_cells: "goto i q (m\<lparr>cells := cs\<rparr>) = (goto i q m)\<lparr>cells := cs\<rparr>"
  by (simp add: mstate_defs)

lemma runs_collect:
  assumes i: "i < length (threads m)" and c: "c < length (cells m)" and ch: "chain_ok (haz m)"
    and col: "collect_unprotected (retired (the_cell c m)) m = (kept, freed)"
  shows "runs i (goto i (ScanHead c) m)
    (goto i (DropFreed freed) (put_cell c ((the_cell c m)\<lparr>retired := kept, retired_len := length kept, writer_lock := None\<rparr>) m))"
proof -
  obtain xs where xs: "path (record_at (haz m)) (HEAD (haz m)) xs" "set xs \<subseteq> {1..n_records (haz m)}"
    using ch by (auto simp: chain_ok_def)
  let ?m = "put_cell c ((the_cell c m)\<lparr>retired := kept\<rparr>) m"
  have "runs i (goto i (ScanHead c) m) (goto i (StoreLen c freed) ?m)"
  proof (cases "retired (the_cell c m) = []")
    case True
    then have k: "kept = []" "freed = []" using col by (auto simp: collect_unprotected_def)
    have "(the_cell c m)\<lparr>retired := []\<rparr> = the_cell c m" using True by (cases "the_cell c m") simp
    then have "?m = m" using k by simp
    then show ?thesis using i True k
      by (intro runs_internal [of _ 0]) (simp_all add: internal_def step_collect_def)
  next
    case False
    have "runs i (goto i (ScanHead c) m) (goto i (Scan c (HEAD (haz m)) 0 []) m)"
      by (rule runs_internal [of _ 0]) (use i False in \<open>simp_all add: internal_def step_collect_def\<close>)
    also have "runs i \<dots> (goto i (Sweep c (announced (haz m))) m)"
      using runs_scan [OF i xs(1), of c "[]"] announced_eq [OF xs] by simp
    also have "runs i \<dots> (goto i (StoreLen c freed) ?m)"
      by (rule runs_internal [of _ 0])
        (use i False col in \<open>simp_all add: internal_def step_collect_def collect_unprotected_def goto_cells\<close>)
    finally show ?thesis .
  qed
  also have "runs i \<dots> (goto i (Unlock c freed) (put_cell c ((the_cell c m)\<lparr>retired := kept, retired_len := length kept\<rparr>) m))"
    by (rule runs_internal [of _ 0]) (use i c in \<open>simp_all add: internal_def step_collect_def goto_cells\<close>)
  also have "runs i \<dots> (goto i (DropFreed freed)
      (put_cell c ((the_cell c m)\<lparr>retired := kept, retired_len := length kept, writer_lock := None\<rparr>) m))"
    by (rule runs_internal [of _ 0]) (use i c in \<open>simp_all add: internal_def step_collect_def goto_cells set_lock_def\<close>)
  finally show ?thesis .
qed

end
