(* ===== verification/SnapSeq.thy ===== *)
theory SnapSeq
  imports SnapRuns
begin

text \<open>
  The functions of \<^verbatim>\<open>SnapCell\<close>, as one thread runs them, against the interleaving machine. \<open>at_pc s st pl q m\<close>: the
  machine \<open>m\<close> holds the sequential state \<open>s\<close>, its running thread is inside the reads \<open>st\<close> and about to
  take the step \<open>q\<close>, the owned handles given out are \<open>pl\<close>, and every other thread is idle. Every function of the module, started in such a
  state, returns, and its result is the state the machine reaches by steps of that thread, so the
  machine's invariants hold of the sequential code. \<open>cell_ok\<close> is the resulting invariant of
  the sequential state and \<open>vals\<close> its abstraction: the value each cell holds.
\<close>

section \<open>A sequential state inside the machine\<close>

definition same_shared :: "('v, 'm) shared_scheme \<Rightarrow> addr list \<Rightarrow> 'v machine \<Rightarrow> bool" where
  "same_shared s pl m \<longleftrightarrow> pool m = pl \<and> haz m = haz s \<and> heap m = heap s \<and> heap_brk m = heap_brk s \<and> cells m = cells s"

definition at_pc :: "('v, 'm) sys_scheme \<Rightarrow> frame list \<Rightarrow> addr list \<Rightarrow> 'v pc \<Rightarrow> 'v machine \<Rightarrow> bool" where
  "at_pc s st pl q m \<longleftrightarrow> inv m \<and> \<not> fault m \<and> same_shared s pl m \<and> me s < length (threads m) \<and>
     thr (me s) m = \<lparr>tls = local_state s, depth = fallback_depth s, stack = st, pc = q\<rparr> \<and>
     (\<forall>a\<ge>heap_brk s. heap s a = None) \<and>
     (\<forall>j<length (threads m). j \<noteq> me s \<longrightarrow> pc (thr j m) = Idle \<and> stack (thr j m) = [])"

lemma at_pc_runs:
  assumes "at_pc s st pl q m" "runs (me s) m m'" "same_shared s' pl' m'" "me s' = me s"
    and "thr (me s) m' = \<lparr>tls = local_state s', depth = fallback_depth s', stack = st', pc = q'\<rparr>"
    and "\<forall>a\<ge>heap_brk s'. heap s' a = None"
  shows "at_pc s' st' pl' q' m'"
  using assms runs_keep [OF assms(2)] unfolding at_pc_def by auto

lemma at_pc_internal:
  assumes "at_pc s st pl q m" "internal (me s) a m = Some m'" "same_shared s' pl' m'" "me s' = me s"
    and "thr (me s) m' = \<lparr>tls = local_state s', depth = fallback_depth s', stack = st', pc = q'\<rparr>"
    and "\<forall>a\<ge>heap_brk s'. heap s' a = None"
  shows "at_pc s' st' pl' q' m'"
  using assms by (intro at_pc_runs [OF assms(1) runs_internal]) (auto simp: at_pc_def)

lemma at_pcD:
  assumes "at_pc s st pl q m"
  shows "inv m" "\<not> fault m" "haz m = haz s" "heap m = heap s" "heap_brk m = heap_brk s" "cells m = cells s"
    "me s < length (threads m)" "thr (me s) m = \<lparr>tls = local_state s, depth = fallback_depth s, stack = st, pc = q\<rparr>"
    "heap_brk s \<le> a \<Longrightarrow> heap s a = None" "pool m = pl"
  using assms by (auto simp: at_pc_def same_shared_def)

lemma at_pc_goto: "at_pc s st pl q m \<Longrightarrow> goto (me s) q m = m"
  using at_pcD(7,8) [of s st pl q m] by (cases m) (simp add: mstate_defs list_update_same_conv)

lemma at_pc_chain: "at_pc s st pl q m \<Longrightarrow> chain_ok (haz s)"
  using at_pcD(1,3) by (metis inv_def rec_inv_def)

lemma at_pc_unlocked:
  assumes "at_pc s st pl q m" "c < length (cells s)" "pc_crit q \<noteq> Some c"
  shows "writer_lock (the_cell c s) = None"
proof (rule ccontr)
  assume "writer_lock (the_cell c s) \<noteq> None"
  then obtain i where "writer_lock (the_cell c m) = Some i" using at_pcD(6) [OF assms(1)] by auto
  then have i: "i < length (threads m)" "pc_crit (pc (thr i m)) = Some c"
    using at_pcD(1,6) [OF assms(1)] assms(2) by (auto simp: inv_def lock_inv_def)
  then show False using assms(1,3) by (cases "i = me s") (auto simp: at_pc_def pc_crit_def)
qed

lemma at_pc_current:
  assumes "at_pc s st pl q m" "c < length (cells s)"
  shows "heap s (current (the_cell c s)) \<noteq> None" "current (the_cell c s) \<noteq> null"
proof -
  have mem: "mem_inv m" using at_pcD(1) [OF assms(1)] by (simp add: inv_def)
  have c: "c < length (cells m)" using assms at_pcD(6) by metis
  show "heap s (current (the_cell c s)) \<noteq> None"
    using cell_live [OF mem c] at_pcD(4,6) [OF assms(1)] by auto
  then show "current (the_cell c s) \<noteq> null"
    using mem at_pcD(4) [OF assms(1)] by (metis mem_inv_def)
qed

section \<open>Announcing and releasing\<close>

text \<open>One thread running alone finds the pointer it announced still current.\<close>

lemma protect_eq:
  assumes "pin (current (the_cell c s)) (local_state s) (haz s) = (pn, l, h)"
  shows "protect c s =
    Some (map_option (\<lambda>pn. (pn, current (the_cell c s))) pn, s\<lparr>local_state := l, haz := h\<rparr>)"
  using assms by (cases pn) (simp_all add: protect_def Let_def protect_loop.simps)

lemma protect_runs:
  assumes at: "at_pc s st pl (LoadCurrent k c) m" and c: "c < length (cells s)"
    and pin: "pin (current (the_cell c s)) (local_state s) (haz s) = (pn, l, h)"
  obtains m' where "runs (me s) m m'" "at_pc (s\<lparr>local_state := l, haz := h\<rparr>) st pl
    (case pn of None \<Rightarrow> no_slot k c | Some pn \<Rightarrow> Validate k c pn (current (the_cell c s))) m'"
proof -
  note d = at_pcD [OF at]
  let ?p = "current (the_cell c s)"
  let ?q = "case pn of None \<Rightarrow> no_slot k c | Some pn \<Rightarrow> Validate k c pn ?p"
  let ?m = "put_thr (me s) ((thr (me s) m)\<lparr>tls := l, pc := ?q\<rparr>) (m\<lparr>haz := h\<rparr>)"
  have "runs (me s) m (goto (me s) (PinTls k c ?p) m)"
    by (rule runs_internal [of _ 0]) (simp_all add: d internal_def step_protect_def)
  also have "runs (me s) (goto (me s) (PinTls k c ?p) m) ?m"
    by (rule runs_pin) (use d at_pc_chain [OF at] pin in simp_all)
  finally have run: "runs (me s) m ?m" .
  moreover have "at_pc (s\<lparr>local_state := l, haz := h\<rparr>) st pl ?q ?m"
    by (rule at_pc_runs [OF at run]) (use d in \<open>simp_all add: same_shared_def put_thr_def\<close>)
  ultimately show ?thesis by (rule that)
qed

text \<open>\<open>release\<close>, and the sweep it may start.\<close>

lemma drop_ref_some: "\<not> fault (drop_ref a m) \<Longrightarrow> arc_drop a m = Some (drop_ref a m)"
  by (auto simp: drop_ref_def split: option.splits)

lemma fault_fold_drop: "\<not> fault (fold drop_ref as m) \<Longrightarrow> \<not> fault m"
proof (induction as arbitrary: m)
  case (Cons a as)
  then have "\<not> fault (drop_ref a m)" by simp
  then show ?case by (auto simp: drop_ref_def arc_drop_def split: option.splits if_splits)
qed simp

text \<open>The frees of the machine and of the sequential code agree as long as none faults.\<close>

lemma arc_drop_all_fold:
  assumes "\<not> fault (fold drop_ref as m)" "heap m = heap s"
  shows "arc_drop_all as s = Some (s\<lparr>heap := heap (fold drop_ref as m)\<rparr>)"
  using assms
proof (induction as arbitrary: m s)
  case (Cons a as)
  have "\<not> fault (drop_ref a m)" using fault_fold_drop [of as "drop_ref a m"] Cons.prems(1) by simp
  then have d: "arc_drop a m = Some (drop_ref a m)" by (rule drop_ref_some)
  then have s: "arc_drop a s = Some (s\<lparr>heap := heap (drop_ref a m)\<rparr>)"
    using Cons.prems(2) by (cases "heap s a") (auto simp: arc_drop_def drop_ref_def)
  have "arc_drop_all as (s\<lparr>heap := heap (drop_ref a m)\<rparr>)
      = Some (s\<lparr>heap := heap (drop_ref a m)\<rparr>\<lparr>heap := heap (fold drop_ref as (drop_ref a m))\<rparr>)"
    by (rule Cons.IH) (use Cons.prems(1) in simp_all)
  then show ?case using s by simp
qed simp

lemma fold_drop_heap:
  "heap (fold drop_ref as m) a = Some x \<Longrightarrow> \<exists>y. heap m a = Some y \<and> arc_val y = arc_val x"
proof (induction as arbitrary: m)
  case (Cons b as)
  then obtain y where y: "heap (drop_ref b m) a = Some y" "arc_val y = arc_val x" by auto
  from y(1) have "\<exists>z. heap m a = Some z \<and> arc_val z = arc_val y"
    by (auto simp: drop_ref_def arc_drop_def split: option.splits if_splits)
  then show ?case using y(2) by auto
qed simp

lemma fold_drop_None: "heap m a = None \<Longrightarrow> heap (fold drop_ref as m) a = None"
  using fold_drop_heap [of as m a] by (cases "heap (fold drop_ref as m) a") auto

lemma fold_drop_brk: "heap_brk (fold drop_ref as m) = heap_brk m"
  by (induction as arbitrary: m) (auto simp: drop_ref_def arc_drop_def split: option.splits)

text \<open>What every function keeps: the client's state, and each value that is still allocated.\<close>

definition keeps_client :: "('v, 'm) sys_scheme \<Rightarrow> ('v, 'm) sys_scheme \<Rightarrow> bool" where
  "keeps_client s s' \<longleftrightarrow> me s' = me s \<and> sys.more s' = sys.more s \<and>
     (\<forall>a x. heap s' a = Some x \<longrightarrow> heap s a \<noteq> None \<longrightarrow> arc_val x = arc_val (the (heap s a)))"

definition keeps :: "('v, 'm) sys_scheme \<Rightarrow> ('v, 'm) sys_scheme \<Rightarrow> bool" where
  "keeps s s' \<longleftrightarrow> keeps_client s s' \<and> fallback_depth s' = fallback_depth s"

lemmas keeps_defs = keeps_def keeps_client_def

definition vals :: "('v, 'm) shared_scheme \<Rightarrow> 'v list" where
  "vals s = map (\<lambda>x. arc_val (the (heap s (current x)))) (cells s)"

lemma length_vals [simp]: "length (vals s) = length (cells s)"
  by (simp add: vals_def)

lemma vals_nth: "c < length (cells s) \<Longrightarrow> vals s ! c = arc_val (the (heap s (current (the_cell c s))))"
  by (simp add: vals_def)

lemma vals_keep:
  assumes "at_pc s st pl q m" "at_pc s' st' pl' q' m'" "keeps_client s s'" "map current (cells s') = map current (cells s)"
  shows "vals s' = vals s"
proof (rule nth_equalityI)
  show len: "length (vals s') = length (vals s)" using arg_cong [OF assms(4), of length] by simp
  fix c assume "c < length (vals s')"
  then have c: "c < length (cells s')" "c < length (cells s)" using len by auto
  have cur: "current (the_cell c s') = current (the_cell c s)" using assms(4) c by (metis nth_map)
  have "heap s' (current (the_cell c s)) \<noteq> None" using at_pc_current(1) [OF assms(2) c(1)] cur by simp
  then show "vals s' ! c = vals s ! c"
    using at_pc_current(1) [OF assms(1) c(2)] assms(3) c cur by (auto simp: vals_nth keeps_defs)
qed

lemma keeps_refl [simp]: "keeps s s"
  by (simp add: keeps_defs)

lemma sweep_runs:
  assumes at: "at_pc s st pl (ScanHead c) m" and c: "c < length (cells s)"
  obtains s' m' where "sweep c s = Some s'" "runs (me s) m m'" "at_pc s' st pl Idle m'" "keeps s s'"
    "map current (cells s') = map current (cells s)"
proof -
  note d = at_pcD [OF at]
  obtain kept freed where col: "collect_unprotected (retired (the_cell c s)) s = (kept, freed)" by force
  let ?x = "(the_cell c s)\<lparr>retired := kept, retired_len := length kept, writer_lock := None\<rparr>"
  let ?m = "put_cell c ?x m" and ?s = "put_cell c ?x s"
  let ?m' = "goto (me s) Idle (fold drop_ref freed ?m)"
  have "collect_unprotected (retired (the_cell c m)) m = (kept, freed)"
    using col d by (simp add: collect_unprotected_def split: if_splits)
  then have "runs (me s) m (goto (me s) (DropFreed freed) ?m)"
    using runs_collect [of "me s" m c kept freed] at_pc_goto [OF at] at_pc_chain [OF at] c d by simp
  also have "runs (me s) (goto (me s) (DropFreed freed) ?m) ?m'" by (rule runs_drop) (simp add: d)
  finally have run: "runs (me s) m ?m'" .
  then have nf: "\<not> fault (fold drop_ref freed ?m)" using runs_keep [OF run] d by simp
  let ?s' = "?s\<lparr>heap := heap (fold drop_ref freed ?m)\<rparr>"
  have "sweep c s = Some ?s'"
    using arc_drop_all_fold [OF nf, of ?s] col c d by (simp add: sweep_def unlock_def)
  moreover have "at_pc ?s' st pl Idle ?m'"
  proof (rule at_pc_runs [OF at run])
    show "\<forall>a\<ge>heap_brk ?s'. heap ?s' a = None"
      using d by (auto intro!: fold_drop_None)
  qed (use d in \<open>simp_all add: same_shared_def fold_drop_ref_sel fold_drop_brk mstate_defs\<close>)
  moreover have "keeps s ?s'" using fold_drop_heap [of freed ?m] d by (fastforce simp: keeps_defs)
  moreover have "map current (cells ?s') = map current (cells s)" using c by (simp add: map_update list_update_same_conv)
  ultimately show ?thesis using run that by blast
qed

lemma lock_eq:
  assumes "writer_lock (the_cell c s) = None"
  shows "lock c s = Some (put_cell c ((the_cell c s)\<lparr>writer_lock := Some (me s)\<rparr>) s)"
  using assms by (simp add: lock_def)

lemma acquire_at:
  assumes at: "at_pc s st pl q m" and c: "c < length (cells s)" and q: "pc_crit q \<noteq> Some c"
  shows "lock c s = Some (put_cell c ((the_cell c s)\<lparr>writer_lock := Some (me s)\<rparr>) s)"
    and "acquire_then (me s) c q' m = Some (goto (me s) q' (set_lock c (Some (me s)) m))"
  using at_pc_unlocked [OF assms] at_pcD [OF at] by (simp_all add: lock_eq acquire_then_def)

text \<open>A step that acquires the lock, from a program counter outside every critical section.\<close>

lemma lock_runs:
  assumes at: "at_pc s st pl q m" and c: "c < length (cells s)" and q: "pc_crit q \<noteq> Some c"
    and step: "internal (me s) 0 m = acquire_then (me s) c q' m"
  obtains s' m' where "s' = put_cell c ((the_cell c s)\<lparr>writer_lock := Some (me s)\<rparr>) s" "lock c s = Some s'"
    "runs (me s) m m'" "at_pc s' st pl q' m'" "keeps s s'" "map current (cells s') = map current (cells s)"
proof -
  note d = at_pcD [OF at]
  let ?s = "put_cell c ((the_cell c s)\<lparr>writer_lock := Some (me s)\<rparr>) s"
  let ?m = "goto (me s) q' (set_lock c (Some (me s)) m)"
  have i: "internal (me s) 0 m = Some ?m" using step acquire_at(2) [OF at c q] by simp
  have "at_pc ?s st pl q' ?m"
    by (rule at_pc_internal [OF at i]) (use d in \<open>simp_all add: same_shared_def mstate_defs\<close>)
  moreover have "keeps s ?s" by (auto simp: keeps_defs)
  moreover have "map current (cells ?s) = map current (cells s)" using c by (simp add: map_update list_update_same_conv)
  ultimately show ?thesis using that acquire_at(1) [OF at c q] runs_internal [OF i d(7)] by blast
qed

lemma keeps_trans:
  assumes "keeps s s1" "keeps s1 s2" "\<And>a. heap s2 a \<noteq> None \<Longrightarrow> heap s a \<noteq> None \<Longrightarrow> heap s1 a \<noteq> None"
  shows "keeps s s2"
  using assms unfolding keeps_defs by (metis option.distinct(1) option.exhaust_sel)

lemma release_runs:
  assumes at: "at_pc s st pl (Release c pn p) m" and c: "c < length (cells s)"
  obtains s' m' where "release c pn s = Some s'" "runs (me s) m m'" "at_pc s' st pl Idle m'" "keeps s s'"
    "map current (cells s') = map current (cells s)"
proof -
  note d = at_pcD [OF at]
  let ?s = "s\<lparr>haz := Pin_drop pn (haz s)\<rparr>"
  let ?m = "goto (me s) (ReleaseCheck c) (m\<lparr>haz := Pin_drop pn (haz s)\<rparr>)"
  let ?q = "if retired_len (the_cell c s) \<noteq> 0 then TryLock c else Idle"
  have i1: "internal (me s) 0 m = Some ?m" by (simp add: d internal_def step_release_def)
  have at1: "at_pc ?s st pl (ReleaseCheck c) ?m"
    by (rule at_pc_internal [OF at i1]) (use d in \<open>simp_all add: same_shared_def mstate_defs\<close>)
  note d1 = at_pcD [OF at1]
  have i2: "internal (me s) 0 ?m = Some (goto (me s) ?q ?m)" using d d1 by (simp add: internal_def step_release_def)
  have at2: "at_pc ?s st pl ?q (goto (me s) ?q ?m)"
    by (rule at_pc_internal [OF at1, where a=0]) (use d d1 i2 in \<open>simp_all add: same_shared_def mstate_defs\<close>)
  have run: "runs (me s) m (goto (me s) ?q ?m)"
    by (rule rtranclp_trans [OF runs_internal [OF i1] runs_internal [OF i2]]) (use d in simp_all)
  have k: "keeps s ?s" by (auto simp: keeps_defs)
  show ?thesis
  proof (cases "retired_len (the_cell c s) = 0")
    case True
    then show ?thesis using at2 run k by (intro that [of ?s]) (simp_all add: release_def)
  next
    case False
    then have at3: "at_pc ?s st pl (TryLock c) (goto (me s) (TryLock c) ?m)" using at2 by simp
    have wl: "writer_lock (the_cell c ?s) = None" using at_pc_unlocked [OF at3] c by (simp add: pc_crit_def)
    have st3: "internal (me ?s) 0 (goto (me s) (TryLock c) ?m) = acquire_then (me ?s) c (ScanHead c) (goto (me s) (TryLock c) ?m)"
      using acquire_at(2) [OF at3, of c "ScanHead c"] c d by (simp add: internal_def step_release_def pc_crit_def)
    obtain s4 m4 where 4: "s4 = put_cell c ((the_cell c ?s)\<lparr>writer_lock := Some (me ?s)\<rparr>) ?s" "lock c ?s = Some s4"
      "runs (me ?s) (goto (me s) (TryLock c) ?m) m4" "at_pc s4 st pl (ScanHead c) m4" "keeps ?s s4" "map current (cells s4) = map current (cells ?s)"
      by (rule lock_runs [OF at3 _ _ st3]) (use c in \<open>auto simp: pc_crit_def\<close>)
    obtain s5 m5 where 5: "sweep c s4 = Some s5" "runs (me s4) m4 m5" "at_pc s5 st pl Idle m5" "keeps s4 s5"
      "map current (cells s5) = map current (cells s4)"
      by (rule sweep_runs [OF 4(4)]) (use c 4(1) in auto)
    have h: "heap s4 = heap s" "me s4 = me s" using 4(1) by simp_all
    have "release c pn s = Some s5" using False wl 4(2) 5(1) by (simp add: release_def try_reclaim_def)
    moreover have "runs (me s) m m5"
      using run False rtranclp_trans [OF 4(3), of m5] 5(2) h(2) by (auto intro: rtranclp_trans)
    moreover have "keeps s s5" using 5(4) 4(1) by (auto simp: keeps_defs)
    ultimately show ?thesis using 5(3,5) 4(6) that by simp
  qed
qed

section \<open>Reading\<close>

lemma at_pc_user:
  assumes "at_pc s st pl q m" "user (me s) l m = Some m'" "same_shared s' pl' m'" "me s' = me s"
    and "thr (me s) m' = \<lparr>tls = local_state s', depth = fallback_depth s', stack = st', pc = q'\<rparr>"
    and "\<forall>a\<ge>heap_brk s'. heap s' a = None"
  shows "at_pc s' st' pl' q' m'"
  using assms by (intro at_pc_runs [OF assms(1) runs_user]) (auto simp: at_pc_def)

text \<open>\<open>load_arc_locked\<close>, up to the point where the lock is released.\<close>

definition locked_frames :: "'v rkind \<Rightarrow> nat \<Rightarrow> addr \<Rightarrow> nat \<Rightarrow> frame list" where
  "locked_frames k c a g = (case k of ReadK \<Rightarrow> [Fb c a g] | LoadK keep \<Rightarrow> [])"

definition locked_pc :: "'v rkind \<Rightarrow> addr \<Rightarrow> 'v pc" where
  "locked_pc k a = (case k of ReadK \<Rightarrow> Idle | LoadK keep \<Rightarrow> LockedKeep keep a)"

lemma locked_runs:
  assumes at: "at_pc s st pl (LockedLock k c) m" and c: "c < length (cells s)"
  obtains s' m' g where "load_arc_locked c s = Some (current (the_cell c s), s')" "runs (me s) m m'"
    "at_pc s' (locked_frames k c (current (the_cell c s)) g @ st) pl (locked_pc k (current (the_cell c s))) m'"
    "keeps s s'" "map current (cells s') = map current (cells s)"
proof -
  let ?a = "current (the_cell c s)"
  have i1: "internal (me s) 0 m = acquire_then (me s) c (LockedClone k c) m"
    using at_pcD [OF at] by (simp add: internal_def step_fallback_def)
  obtain s1 m1 where 1: "s1 = put_cell c ((the_cell c s)\<lparr>writer_lock := Some (me s)\<rparr>) s" "lock c s = Some s1"
    "runs (me s) m m1" "at_pc s1 st pl (LockedClone k c) m1"
    by (rule lock_runs [OF at c _ i1]) (auto simp: pc_crit_def)
  note d = at_pcD [OF 1(4)]
  obtain x where x: "heap s1 ?a = Some x" using at_pc_current(1) [OF 1(4), of c] c 1(1) by auto
  let ?h = "(heap s1)(?a \<mapsto> x\<lparr>strong := strong x + 1\<rparr>)"
  let ?s2 = "s1\<lparr>heap := ?h\<rparr>"
  let ?m2 = "goto (me s) (LockedUnlock k c ?a (stamps m1 ?a)) (m1\<lparr>heap := ?h\<rparr>)"
  have i2: "internal (me s1) 0 m1 = Some ?m2"
    using d x 1(1) c by (simp add: internal_def step_fallback_def clone_ref_def arc_clone_def Let_def)
  have at2: "at_pc ?s2 st pl (LockedUnlock k c ?a (stamps m1 ?a)) ?m2"
    by (rule at_pc_internal [OF 1(4) i2]) (use d 1(1) x in \<open>auto simp: same_shared_def mstate_defs\<close>)
  note d2 = at_pcD [OF at2]
  let ?s3 = "unlock c ?s2"
  let ?t = "(thr (me s) ?m2)\<lparr>stack := locked_frames k c ?a (stamps m1 ?a) @ st, pc := locked_pc k ?a\<rparr>"
  let ?m3 = "put_thr (me s) ?t (set_lock c None ?m2)"
  have i3: "internal (me s1) 0 ?m2 = Some ?m3"
    using d2 1(1) by (cases k) (simp_all add: internal_def step_fallback_def locked_frames_def locked_pc_def mstate_defs)
  have at3: "at_pc ?s3 (locked_frames k c ?a (stamps m1 ?a) @ st) pl (locked_pc k ?a) ?m3"
    by (rule at_pc_internal [OF at2, where a = 0]) (use i3 d d2 1(1) x in \<open>auto simp: same_shared_def mstate_defs unlock_def\<close>)
  have "load_arc_locked c s = Some (?a, ?s3)"
    using 1(1,2) x c by (simp add: load_arc_locked_def arc_clone_def Let_def)
  moreover have "runs (me s) m ?m3"
    using 1(1,3) runs_internal [OF i2] runs_internal [OF i3] d(7) by (auto intro: rtranclp_trans)
  moreover have "keeps s ?s3" using 1(1) x by (auto simp: keeps_defs unlock_def)
  moreover have "map current (cells ?s3) = map current (cells s)"
    using 1(1) c by (simp add: unlock_def map_update list_update_same_conv)
  ultimately show ?thesis using at3 that by blast
qed

text \<open>What a read does after its closure, by the kind of announcement it holds.\<close>

definition read_leave ::
  "frame \<Rightarrow> 'a outcome \<Rightarrow> ('v, 'm) sys_scheme \<Rightarrow> ('a outcome \<times> ('v, 'm) sys_scheme) option" where
  "read_leave fr out s =
     (case out of Abort \<Rightarrow> Some (out, s)
      | Ret x \<Rightarrow>
          (case fr of Hz c pn p g \<Rightarrow> do { s' \<leftarrow> release c pn s; Some (out, s') }
           | Fb c a g \<Rightarrow> do { s' \<leftarrow> arc_drop a s; Some (out, Active_drop c s') })
      | Unwind pl \<Rightarrow>
          (case fr of Hz c pn p g \<Rightarrow> Some (out, s\<lparr>haz := Pin_drop pn (haz s)\<rparr>)
           | Fb c a g \<Rightarrow> do { s' \<leftarrow> arc_drop a s; Some (out, Active_drop c s') }))"

lemma fallback_enter_runs:
  fixes s :: "('v, 'm) sys_scheme"
  assumes at: "at_pc s st pl (FbEnter c) m" and c: "c < length (cells s)"
  obtains s' m' g where "load_arc_locked c (fallback_enter c s) = Some (current (the_cell c s), s')"
    "runs (me s) m m'" "at_pc s' (Fb c (current (the_cell c s)) g # st) pl Idle m'" "keeps_client s s'"
    "map current (cells s') = map current (cells s)" "fallback_depth s' = usize_saturating_add (fallback_depth s) 1"
proof -
  note d = at_pcD [OF at]
  let ?s = "fallback_enter c s" and ?a = "current (the_cell c s)"
  let ?m = "put_thr (me s) ((thr (me s) m)\<lparr>depth := usize_saturating_add (fallback_depth s) 1, pc := LockedLock ReadK c\<rparr>)
    (put_cell c ((the_cell c s)\<lparr>fallback_readers := fallback_readers (the_cell c s) + 1\<rparr>) m)"
  have i: "internal (me s) 0 m = Some ?m" using d by (simp add: internal_def step_fallback_def)
  have at1: "at_pc ?s st pl (LockedLock ReadK c) ?m"
    by (rule at_pc_internal [OF at i]) (use d in \<open>auto simp: same_shared_def mstate_defs fallback_enter_def\<close>)
  have cur: "current (the_cell c ?s) = ?a" "map current (cells ?s) = map current (cells s)" "c < length (cells ?s)"
    using c by (simp_all add: fallback_enter_def map_update list_update_same_conv)
  obtain s' m' g where 2: "load_arc_locked c ?s = Some (?a, s')" "runs (me ?s) ?m m'"
    "at_pc s' (locked_frames (ReadK :: 'v rkind) c ?a g @ st) pl (locked_pc ReadK ?a) m'" "keeps ?s s'"
    "map current (cells s') = map current (cells ?s)"
    by (rule locked_runs [OF at1 cur(3), unfolded cur(1)])
  show ?thesis
  proof (rule that)
    have "me ?s = me s" by (simp add: fallback_enter_def)
    then show "runs (me s) m m'" using runs_internal [OF i d(7)] 2(2) by simp
    show "keeps_client s s'" using 2(4) by (simp add: keeps_defs fallback_enter_def)
    show "fallback_depth s' = usize_saturating_add (fallback_depth s) 1"
      using 2(4) by (simp add: keeps_defs fallback_enter_def)
  qed (use 2 cur in \<open>simp_all add: locked_frames_def locked_pc_def\<close>)
qed

text \<open>Entering a read: the closure then runs on the cell's value.\<close>

lemma read_enter:
  fixes s :: "('v, 'm) sys_scheme"
  assumes at: "at_pc s st pl Idle m" and c: "c < length (cells s)"
  obtains fr s1 m1 where "runs (me s) m m1" "at_pc s1 (fr # st) pl Idle m1" "keeps_client s s1" "vals s1 = vals s"
    "fallback_depth s1 = (case fr of Hz c pn p g \<Rightarrow> fallback_depth s | Fb c a g \<Rightarrow> usize_saturating_add (fallback_depth s) 1)"
    "\<And>f. read c f s = do { (out, s2) \<leftarrow> f (vals s ! c) s1; read_leave fr out s2 }"
proof -
  note d = at_pcD [OF at]
  let ?a = "current (the_cell c s)"
  obtain pn l h where pin: "pin ?a (local_state s) (haz s) = (pn, l, h)" by (metis prod_cases3)
  let ?s = "s\<lparr>local_state := l, haz := h\<rparr>"
  have u: "user (me s) (StartRead c) m = Some (goto (me s) (LoadCurrent ReadK c) m)"
    using d c by (simp add: user_def)
  have at0: "at_pc s st pl (LoadCurrent ReadK c) (goto (me s) (LoadCurrent ReadK c) m)"
    by (rule at_pc_user [OF at u]) (use d in \<open>auto simp: same_shared_def mstate_defs\<close>)
  obtain m' where m': "runs (me s) (goto (me s) (LoadCurrent ReadK c) m) m'" "at_pc ?s st pl
    (case pn of None \<Rightarrow> no_slot ReadK c | Some pn \<Rightarrow> Validate ReadK c pn ?a) m'"
    by (rule protect_runs [OF at0 c pin])
  have run: "runs (me s) m m'" using runs_user [OF u d(7)] m'(1) by simp
  have v: "vals s ! c = arc_val (the (heap s ?a))" using c by (simp add: vals_nth)
  obtain x where x: "heap s ?a = Some x" using at_pc_current(1) [OF at c] by auto
  show ?thesis
  proof (cases pn)
    case None
    then have at1: "at_pc ?s st pl (FbEnter c) m'" using m'(2) by (simp add: no_slot_def)
    obtain s1 m1 g where 1: "load_arc_locked c (fallback_enter c ?s) = Some (?a, s1)" "runs (me s) m' m1"
      "at_pc s1 (Fb c ?a g # st) pl Idle m1" "keeps_client ?s s1" "map current (cells s1) = map current (cells s)"
      "fallback_depth s1 = usize_saturating_add (fallback_depth ?s) 1"
      by (rule fallback_enter_runs [OF at1]) (use c in auto)
    have k: "keeps_client s s1" using 1(4) by (simp add: keeps_defs)
    have vs: "vals s1 = vals s" by (rule vals_keep [OF at 1(3) k 1(5)])
    have c1: "c < length (cells s1)" using arg_cong [OF 1(5), of length] c by simp
    have cur1: "current (the_cell c s1) = ?a" using 1(5) c c1 by (metis nth_map)
    obtain y where "heap s1 ?a = Some y" using at_pc_current(1) [OF 1(3) c1] cur1 by auto
    then have dr: "deref ?a s1 = Some (vals s ! c)" using vs c1 cur1 by (metis deref_def option.map(2) option.sel vals_nth)
    show ?thesis
    proof (rule that)
      show "runs (me s) m m1" using run 1(2) by simp
      show "read c f s = do { (out, s2) \<leftarrow> f (vals s ! c) s1; read_leave (Fb c ?a g) out s2 }" for f
        using 1(1) None dr by (simp add: read_def protect_eq [OF pin] read_fallback_def read_leave_def bind_eq_Some_conv
            split: option.splits outcome.splits cong: option.case_cong outcome.case_cong) 
    qed (use 1 k vs in simp_all)
  next
    case (Some pn')
    then have at1: "at_pc ?s st pl (Validate ReadK c pn' ?a) m'" using m'(2) by simp
    note d1 = at_pcD [OF at1]
    let ?m1 = "put_thr (me s) ((thr (me s) m')\<lparr>stack := Hz c pn' ?a (stamps m' ?a) # st, pc := Idle\<rparr>) m'"
    have i: "internal (me ?s) 0 m' = Some ?m1" using d1 by (simp add: internal_def step_protect_def Let_def)
    have at2: "at_pc ?s (Hz c pn' ?a (stamps m' ?a) # st) pl Idle ?m1"
      by (rule at_pc_internal [OF at1 i]) (use d1 in \<open>auto simp: same_shared_def mstate_defs\<close>)
    have k: "keeps_client s ?s" by (auto simp: keeps_defs)
    show ?thesis
    proof (rule that)
      show "runs (me s) m ?m1" using run runs_internal [OF i] d1(7) by simp
      show "vals ?s = vals s" by (simp add: vals_def)
      show "read c f s = do { (out, s2) \<leftarrow> f (vals s ! c) ?s; read_leave (Hz c pn' ?a (stamps m' ?a)) out s2 }" for f
        using Some x v by (simp add: read_def protect_eq [OF pin] deref_def read_leave_def bind_eq_Some_conv
            split: option.splits outcome.splits cong: option.case_cong outcome.case_cong)
    qed (use at2 k in simp_all)
  qed
qed

lemma read_leave_runs:
  assumes at: "at_pc s (fr # st) pl Idle m" and out: "out \<noteq> Abort"
  obtains s' m' where "read_leave fr out s = Some (out, s')" "runs (me s) m m'" "at_pc s' st pl Idle m'"
    "keeps_client s s'" "map current (cells s') = map current (cells s)"
    "fallback_depth s' = (case fr of Hz c pn p g \<Rightarrow> fallback_depth s | Fb c a g \<Rightarrow> usize_saturating_sub (fallback_depth s) 1)"
proof -
  note d = at_pcD [OF at]
  have c: "frame_cell fr < length (cells s)"
    using d(1,6,7,8) nth_mem [OF d(7)] by (fastforce simp: inv_def cells_ok_def)
  show ?thesis
  proof (cases fr)
    case (Hz c pn p g)
    show ?thesis
    proof (cases out)
      case (Ret x)
      let ?m = "put_thr (me s) ((thr (me s) m)\<lparr>stack := st, pc := Release c pn p\<rparr>) m"
      have u: "user (me s) EndRead m = Some ?m" using d Hz by (simp add: user_def)
      have at1: "at_pc s st pl (Release c pn p) ?m"
        by (rule at_pc_user [OF at u]) (use d in \<open>auto simp: same_shared_def mstate_defs\<close>)
      obtain s' m' where 1: "release c pn s = Some s'" "runs (me s) ?m m'" "at_pc s' st pl Idle m'" "keeps s s'"
        "map current (cells s') = map current (cells s)"
        by (rule release_runs [OF at1]) (use c Hz in auto)
      show ?thesis
        by (rule that [of s' m']) (use 1 Hz Ret runs_user [OF u d(7)] in \<open>auto simp: read_leave_def keeps_def\<close>)
    next
      case (Unwind e)
      let ?s = "s\<lparr>haz := Pin_drop pn (haz s)\<rparr>"
      let ?m = "put_thr (me s) ((thr (me s) m)\<lparr>stack := st\<rparr>) (m\<lparr>haz := Pin_drop pn (haz s)\<rparr>)"
      have u: "user (me s) UnwindRead m = Some ?m" using d Hz by (simp add: user_def)
      have at1: "at_pc ?s st pl Idle ?m"
        by (rule at_pc_user [OF at u]) (use d in \<open>auto simp: same_shared_def mstate_defs\<close>)
      show ?thesis
        by (rule that [of ?s ?m]) (use at1 Hz Unwind runs_user [OF u d(7)] in \<open>auto simp: read_leave_def keeps_defs\<close>)
    qed (use out in simp)
  next
    case (Fb c a g)
    let ?m = "put_thr (me s) ((thr (me s) m)\<lparr>stack := st, pc := FbDropArc c a\<rparr>) m"
    have u: "user (me s) EndRead m = Some ?m" using d Fb by (simp add: user_def)
    have at1: "at_pc s st pl (FbDropArc c a) ?m"
      by (rule at_pc_user [OF at u]) (use d in \<open>auto simp: same_shared_def mstate_defs\<close>)
    note d1 = at_pcD [OF at1]
    let ?m2 = "goto (me s) (FbLeave c) (drop_ref a ?m)"
    have i2: "internal (me s) 0 ?m = Some ?m2" using d1 by (simp add: internal_def step_fallback_def)
    have "\<not> fault ?m2" using runs_keep [OF runs_internal [OF i2]] d1 by blast
    then have nf: "\<not> fault (fold drop_ref [a] ?m)" by simp
    let ?s2 = "s\<lparr>heap := heap (drop_ref a ?m)\<rparr>"
    have dr: "arc_drop a s = Some ?s2" using arc_drop_all_fold [OF nf, of s] d1 by (auto simp: bind_eq_Some_conv)
    have at2: "at_pc ?s2 st pl (FbLeave c) ?m2"
    proof (rule at_pc_internal [OF at1 i2])
      show "\<forall>b\<ge>heap_brk ?s2. heap ?s2 b = None" using d fold_drop_None [of ?m _ "[a]"] by simp
    qed (use d fold_drop_ref_sel [of "[a]" ?m] fold_drop_brk [of "[a]" ?m] in \<open>simp_all add: same_shared_def mstate_defs\<close>)
    note d2 = at_pcD [OF at2]
    let ?s3 = "Active_drop c ?s2"
    let ?m3 = "put_thr (me s) ((thr (me s) ?m2)\<lparr>depth := usize_saturating_sub (fallback_depth s) 1, pc := Idle\<rparr>)
      (put_cell c ((the_cell c s)\<lparr>fallback_readers := fallback_readers (the_cell c s) - 1\<rparr>) ?m2)"
    have i3: "internal (me s) 0 ?m2 = Some ?m3" using d2 by (simp add: internal_def step_fallback_def)
    have at3: "at_pc ?s3 st pl Idle ?m3"
      by (rule at_pc_internal [OF at2, where a = 0]) (use d2 i3 in \<open>auto simp: same_shared_def put_thr_def Active_drop_def\<close>)
    show ?thesis
    proof (rule that [of ?s3 ?m3])
      show "read_leave fr out s = Some (out, ?s3)" using Fb dr out by (cases out) (simp_all add: read_leave_def)
      show "runs (me s) m ?m3"
        by (rule rtranclp_trans [OF runs_user [OF u d(7)] rtranclp_trans [OF runs_internal [OF i2] runs_internal [OF i3]]])
          (use d1 d2 in simp_all)
      show "keeps_client s ?s3" using fold_drop_heap [of "[a]" ?m] d1 by (fastforce simp: keeps_client_def Active_drop_def)
      show "map current (cells ?s3) = map current (cells s)"
        using c Fb by (simp add: Active_drop_def map_update list_update_same_conv)
    qed (use at3 Fb in \<open>simp_all add: Active_drop_def\<close>)
  qed
qed

section \<open>Updating\<close>

lemma alloc_addr_fresh:
  assumes "\<forall>a\<ge>heap_brk s. heap s a = None"
  shows "heap s (alloc_addr s) = None" "alloc_addr s \<noteq> null"
proof -
  show "heap s (alloc_addr s) = None"
  proof (cases "filter (\<lambda>a. heap s a = None) [1..<heap_brk s]")
    case (Cons a as)
    then have "a \<in> set (filter (\<lambda>a. heap s a = None) [1..<heap_brk s])" by simp
    then show ?thesis using Cons by (simp add: alloc_addr_def)
  qed (use assms in \<open>simp add: alloc_addr_def\<close>)
  show "alloc_addr s \<noteq> null"
  proof (cases "filter (\<lambda>a. heap s a = None) [1..<heap_brk s]")
    case (Cons a as)
    then have "a \<in> set (filter (\<lambda>a. heap s a = None) [1..<heap_brk s])" by simp
    then show ?thesis using Cons by (simp add: alloc_addr_def)
  qed (simp add: alloc_addr_def)
qed

lemma vals_install:
  assumes at: "at_pc s st pl q m" and c: "c < length (cells s)" and a: "heap s a = None"
    and s': "heap s' = (heap s)(a \<mapsto> \<lparr>strong = 1, arc_val = v\<rparr>)" "map current (cells s') = (map current (cells s))[c := a]"
  shows "vals s' = (vals s)[c := v]"
proof (rule nth_equalityI)
  have l: "length (cells s') = length (cells s)" using arg_cong [OF s'(2), of length] by simp
  then show "length (vals s') = length ((vals s)[c := v])" by simp
  fix k assume "k < length (vals s')"
  then have k: "k < length (cells s)" "k < length (cells s')" using l by simp_all
  have "current (the_cell k s') = map current (cells s') ! k" using k by simp
  also have "\<dots> = (if k = c then a else current (the_cell k s))" unfolding s'(2) using k by (simp add: nth_list_update)
  finally have cur: "current (the_cell k s') = (if k = c then a else current (the_cell k s))" .
  have "current (the_cell k s) \<noteq> a" using at_pc_current(1) [OF at k(1)] a by auto
  then show "vals s' ! k = (vals s)[c := v] ! k"
    using k c s'(1) cur by (simp add: vals_nth nth_list_update)
qed

lemma update_runs:
  fixes s :: "('v, 'm) sys_scheme"
  assumes at: "at_pc s st pl Idle m" and c: "c < length (cells s)"
  obtains s' m' where "update c f s = Some (map_option snd (f (vals s ! c)), s')" "runs (me s) m m'"
    "at_pc s' st pl Idle m'" "me s' = me s" "sys.more s' = sys.more s" "fallback_depth s' = fallback_depth s"
    "vals s' = (case f (vals s ! c) of None \<Rightarrow> vals s | Some (v, r) \<Rightarrow> (vals s)[c := v])"
proof -
  note d = at_pcD [OF at]
  let ?g = "\<lambda>v. map_option fst (f v)"
  let ?m0 = "goto (me s) (UpdLock c ?g) m"
  have u: "user (me s) (StartUpdate c ?g) m = Some ?m0" using d c by (simp add: user_def)
  have at0: "at_pc s st pl (UpdLock c ?g) ?m0"
    by (rule at_pc_user [OF at u]) (use d in \<open>auto simp: same_shared_def mstate_defs\<close>)
  have i0: "internal (me s) 0 ?m0 = acquire_then (me s) c (UpdRun c ?g) ?m0"
    using at_pcD [OF at0] by (simp add: internal_def step_update_def)
  obtain s1 m1 where 1: "s1 = put_cell c ((the_cell c s)\<lparr>writer_lock := Some (me s)\<rparr>) s" "lock c s = Some s1"
    "runs (me s) ?m0 m1" "at_pc s1 st pl (UpdRun c ?g) m1" "keeps s s1" "map current (cells s1) = map current (cells s)"
    by (rule lock_runs [OF at0 c _ i0]) (auto simp: pc_crit_def)
  note d1 = at_pcD [OF 1(4)]
  have run1: "runs (me s) m m1" using runs_user [OF u d(7)] 1(3) by simp
  let ?a = "current (the_cell c s)"
  obtain x where x: "heap s ?a = Some x" using at_pc_current(1) [OF at c] by auto
  have v: "vals s ! c = arc_val x" using x c by (simp add: vals_nth)
  have c1: "c < length (cells s1)" "the_cell c s1 = (the_cell c s)\<lparr>writer_lock := Some (me s)\<rparr>" "me s1 = me s" "heap s1 = heap s"
    "heap_brk s1 = heap_brk s" "haz s1 = haz s" "sys.more s1 = sys.more s" "fallback_depth s1 = fallback_depth s"
    using c 1(1) by simp_all
  show ?thesis
  proof (cases "f (vals s ! c)")
    case None
    let ?m2 = "goto (me s) (Unlock c []) m1" and ?s3 = "unlock c s1"
    have i1: "internal (me s1) 0 m1 = Some ?m2" using d1 x v None c1 by (simp add: internal_def step_update_def Let_def)
    have at2: "at_pc s1 st pl (Unlock c []) ?m2"
      by (rule at_pc_internal [OF 1(4) i1]) (use d1 c1 in \<open>auto simp: same_shared_def mstate_defs\<close>)
    note d2 = at_pcD [OF at2]
    let ?m3 = "goto (me s) (DropFreed []) (set_lock c None ?m2)"
    have i2: "internal (me s1) 0 ?m2 = Some ?m3" using d2 c1 by (simp add: internal_def step_collect_def)
    have at3: "at_pc ?s3 st pl (DropFreed []) ?m3"
      by (rule at_pc_internal [OF at2, where a = 0]) (use d1 d2 i2 c1 in \<open>auto simp: same_shared_def mstate_defs unlock_def\<close>)
    note d3 = at_pcD [OF at3]
    have i3: "internal (me ?s3) 0 ?m3 = Some (goto (me s) Idle ?m3)" using d3 c1 by (simp add: internal_def step_collect_def unlock_def)
    have at4: "at_pc ?s3 st pl Idle (goto (me s) Idle ?m3)"
      by (rule at_pc_internal [OF at3, where a = 0]) (use d3 i3 c1 in \<open>auto simp: same_shared_def mstate_defs unlock_def\<close>)
    have "runs (me s) m (goto (me s) Idle ?m3)"
      using run1 runs_internal [OF i1] runs_internal [OF i2] runs_internal [OF i3] d1(7) c1
      by (auto simp: unlock_def intro: rtranclp_trans)
    moreover have "vals ?s3 = vals s" using c 1(1) by (simp add: vals_def unlock_def map_update list_update_same_conv)
    moreover have "update c f s = Some (None, ?s3)"
      using None v x 1(2) c1 by (simp add: update_def deref_def Let_def)
    ultimately show ?thesis using None at4 c1 by (intro that [of ?s3 "goto (me s) Idle ?m3"]) (simp_all add: unlock_def)
  next
    case (Some nr)
    obtain new r where nr: "nr = (new, r)" by (cases nr)
    let ?b = "alloc_addr s1"
    have b: "heap s1 ?b = None" "?b \<noteq> null" using alloc_addr_fresh [of s1] d1 by auto
    let ?m2 = "goto (me s) (UpdStore c ?a ?b) ((arc_new_at ?b new m1)\<lparr>stamps := (stamps m1)(?b := clock m1), clock := Suc (clock m1)\<rparr>)"
    have i1: "internal (me s1) ?b m1 = Some ?m2"
      using d1 x v Some nr c1 b by (simp add: internal_def step_update_def Let_def)
    let ?s2 = "arc_new_at ?b new s1"
    have at2: "at_pc ?s2 st pl (UpdStore c ?a ?b) ?m2"
      by (rule at_pc_internal [OF 1(4) i1]) (use d1 c1 in \<open>auto simp: same_shared_def mstate_defs arc_new_at_def\<close>)
    note d2 = at_pcD [OF at2]
    let ?x3 = "(the_cell c s1)\<lparr>current := ?b, retired := retired (the_cell c s1) @ [?a]\<rparr>"
    let ?s3 = "put_cell c ?x3 ?s2" and ?m3 = "goto (me s) (ScanHead c) (put_cell c ?x3 ?m2)"
    have i2: "internal (me s1) 0 ?m2 = Some ?m3"
      using d2 c1 by (simp add: internal_def step_update_def arc_new_at_def)
    have at3: "at_pc ?s3 st pl (ScanHead c) ?m3"
      by (rule at_pc_internal [OF at2, where a = 0]) (use d2 i2 c1 in \<open>auto simp: same_shared_def mstate_defs arc_new_at_def\<close>)
    obtain s4 m4 where 4: "sweep c ?s3 = Some s4" "runs (me ?s3) ?m3 m4" "at_pc s4 st pl Idle m4" "keeps ?s3 s4"
      "map current (cells s4) = map current (cells ?s3)"
      by (rule sweep_runs [OF at3]) (use c1 in \<open>auto simp: arc_new_at_def\<close>)
    have v4: "vals s4 = vals ?s3" using vals_keep [OF at3 4(3) _ 4(5)] 4(4) by (simp add: keeps_def)
    have "map current (cells s1) = map current (cells s)" by (rule 1(6))
    then have v3: "vals ?s3 = (vals s)[c := new]"
      by (intro vals_install [OF at c, of ?b]) (use b c1 in \<open>simp_all add: arc_new_at_def map_update\<close>)
    have me3: "me ?s3 = me s" "sys.more ?s3 = sys.more s" "fallback_depth ?s3 = fallback_depth s"
      using c1 by (simp_all add: arc_new_at_def)
    have s3: "put_cell c ((the_cell c (put_cell c ((the_cell c ?s2)\<lparr>current := ?b\<rparr>) ?s2))
        \<lparr>retired := retired (the_cell c (put_cell c ((the_cell c ?s2)\<lparr>current := ?b\<rparr>) ?s2)) @ [?a]\<rparr>)
        (put_cell c ((the_cell c ?s2)\<lparr>current := ?b\<rparr>) ?s2) = ?s3"
      using c1(1,2) by (simp add: arc_new_at_def)
    have "update c f s = Some (Some r, s4)"
      using Some nr v x 1(2) c1 4(1) s3 by (simp add: update_def deref_def arc_new_def Let_def)
    moreover have "runs (me s) m m4"
      using run1 runs_internal [OF i1] runs_internal [OF i2] 4(2) d1(7) c1 me3
      by (auto simp: arc_new_at_def intro: rtranclp_trans)
    ultimately show ?thesis using Some nr 4(3,4) v3 v4 me3 by (intro that [of s4 m4]) (simp_all add: keeps_defs)
  qed
qed

section \<open>Owned handles\<close>

lemma drop_arc_runs:
  assumes at: "at_pc s st pl (DropArc a) m"
  obtains s' m' where "arc_drop a s = Some s'" "runs (me s) m m'" "at_pc s' st pl Idle m'" "keeps s s'" "cells s' = cells s"
proof -
  note d = at_pcD [OF at]
  let ?m = "goto (me s) Idle (drop_ref a m)" and ?s = "s\<lparr>heap := heap (drop_ref a m)\<rparr>"
  have i: "internal (me s) 0 m = Some ?m" using d by (simp add: internal_def step_fallback_def)
  have "\<not> fault ?m" using runs_keep [OF runs_internal [OF i d(7)]] d by blast
  then have nf: "\<not> fault (fold drop_ref [a] m)" by simp
  have dr: "arc_drop a s = Some ?s" using arc_drop_all_fold [OF nf, of s] d by (auto simp: bind_eq_Some_conv)
  have "at_pc ?s st pl Idle ?m"
  proof (rule at_pc_internal [OF at i])
    show "\<forall>b\<ge>heap_brk ?s. heap ?s b = None" using d fold_drop_None [of m _ "[a]"] by simp
  qed (use d fold_drop_ref_sel [of "[a]" m] fold_drop_brk [of "[a]" m] in \<open>simp_all add: same_shared_def mstate_defs\<close>)
  moreover have "keeps s ?s" using fold_drop_heap [of "[a]" m] d by (fastforce simp: keeps_defs)
  ultimately show ?thesis using dr runs_internal [OF i d(7)] that by simp
qed

text \<open>Dropping a handle.\<close>

lemma pool_drop_runs:
  assumes at: "at_pc s st pl Idle m" and a: "a \<in> set pl"
  obtains s' m' where "arc_drop a s = Some s'" "runs (me s) m m'" "at_pc s' st (remove1 a pl) Idle m'" "keeps s s'"
    "cells s' = cells s"
proof -
  note d = at_pcD [OF at]
  obtain us vs where us: "pl = us @ a # vs" "a \<notin> set us" using split_list_first [OF a] by auto
  then have r: "remove1 a pl = us @ vs" by (simp add: remove1_append)
  let ?m = "goto (me s) (DropArc a) (m\<lparr>pool := us @ vs\<rparr>)"
  have u: "user (me s) (DropPool (length us)) m = Some ?m" using d us by (simp add: user_def)
  have at1: "at_pc s st (us @ vs) (DropArc a) ?m"
    by (rule at_pc_user [OF at u]) (use d in \<open>auto simp: same_shared_def mstate_defs\<close>)
  show ?thesis
    by (rule drop_arc_runs [OF at1]) (use r runs_user [OF u d(7)] in \<open>auto intro: that rtranclp_trans\<close>)
qed

lemma load_runs:
  fixes s :: "('v, 'm) sys_scheme"
  assumes at: "at_pc s st pl Idle m" and c: "c < length (cells s)"
  obtains s' m' where
    "load_arc_if c keep s = Some (if keep (vals s ! c) then Some (current (the_cell c s)) else None, s')"
    "runs (me s) m m'" "keeps s s'" "map current (cells s') = map current (cells s)"
    "at_pc s' st (if keep (vals s ! c) then current (the_cell c s) # pl else pl) Idle m'"
proof -
  note d = at_pcD [OF at]
  let ?a = "current (the_cell c s)" and ?k = "LoadK keep :: 'v rkind"
  obtain pn l h where pin: "pin ?a (local_state s) (haz s) = (pn, l, h)" by (metis prod_cases3)
  let ?s = "s\<lparr>local_state := l, haz := h\<rparr>"
  have u: "user (me s) (StartLoad c keep) m = Some (goto (me s) (LoadCurrent ?k c) m)"
    using d c by (simp add: user_def)
  have at0: "at_pc s st pl (LoadCurrent ?k c) (goto (me s) (LoadCurrent ?k c) m)"
    by (rule at_pc_user [OF at u]) (use d in \<open>auto simp: same_shared_def mstate_defs\<close>)
  obtain m' where m': "runs (me s) (goto (me s) (LoadCurrent ?k c) m) m'" "at_pc ?s st pl
    (case pn of None \<Rightarrow> no_slot ?k c | Some pn \<Rightarrow> Validate ?k c pn ?a) m'"
    by (rule protect_runs [OF at0 c pin])
  have run: "runs (me s) m m'" using runs_user [OF u d(7)] m'(1) by simp
  obtain x where x: "heap s ?a = Some x" using at_pc_current(1) [OF at c] by auto
  have v: "vals s ! c = arc_val x" using c x by (simp add: vals_nth)
  show ?thesis
  proof (cases pn)
    case None
    then have at1: "at_pc ?s st pl (LockedLock ?k c) m'" using m'(2) by (simp add: no_slot_def)
    obtain s1 m1 g where 1: "load_arc_locked c ?s = Some (?a, s1)" "runs (me s) m' m1"
      "at_pc s1 (locked_frames ?k c ?a g @ st) pl (locked_pc ?k ?a) m1" "keeps ?s s1" "map current (cells s1) = map current (cells s)"
      by (rule locked_runs [OF at1]) (use c in auto)
    have at2: "at_pc s1 st pl (LockedKeep keep ?a) m1" using 1(3) by (simp add: locked_frames_def locked_pc_def)
    note d2 = at_pcD [OF at2]
    have k: "keeps s s1" using 1(4) by (simp add: keeps_defs)
    have c1: "c < length (cells s1)" using arg_cong [OF 1(5), of length] c by simp
    have "current (the_cell c s1) = ?a" using 1(5) c c1 by (metis nth_map)
    then obtain y where y: "heap s1 ?a = Some y" using at_pc_current(1) [OF at2 c1] by auto
    have vy: "arc_val y = arc_val x" using k x y by (auto simp: keeps_defs)
    have me: "me s1 = me s" using k by (simp add: keeps_defs)
    show ?thesis
    proof (cases "keep (arc_val x)")
      case True
      let ?m2 = "goto (me s) Idle (m1\<lparr>pool := ?a # pl\<rparr>)"
      have i: "internal (me s1) 0 m1 = Some ?m2" using d2 y vy True me by (simp add: internal_def step_fallback_def)
      have at3: "at_pc s1 st (?a # pl) Idle ?m2"
        by (rule at_pc_internal [OF at2 i]) (use d2 me in \<open>auto simp: same_shared_def mstate_defs\<close>)
      show ?thesis
        by (rule that [of s1 ?m2])
          (use True v vy y None 1 k at3 run me runs_internal [OF i] d2(7) in
            \<open>auto simp: load_arc_if_def protect_eq [OF pin] deref_def intro: rtranclp_trans\<close>)
    next
      case False
      let ?m2 = "goto (me s) (DropArc ?a) m1"
      have i: "internal (me s1) 0 m1 = Some ?m2" using d2 y vy False me by (simp add: internal_def step_fallback_def)
      have at3: "at_pc s1 st pl (DropArc ?a) ?m2"
        by (rule at_pc_internal [OF at2 i]) (use d2 me in \<open>auto simp: same_shared_def mstate_defs\<close>)
      obtain s4 m4 where 4: "arc_drop ?a s1 = Some s4" "runs (me s1) ?m2 m4" "at_pc s4 st pl Idle m4" "keeps s1 s4"
        "cells s4 = cells s1"
        by (rule drop_arc_runs [OF at3])
      have "keeps s s4" using k 4(1,4) y by (auto simp: keeps_defs arc_drop_def split: if_splits)
      then show ?thesis
        by (intro that [of s4 m4])
          (use False v vy y None 1 4 run me runs_internal [OF i] d2(7) in
            \<open>auto simp: load_arc_if_def protect_eq [OF pin] deref_def intro: rtranclp_trans\<close>)
    qed
  next
    case (Some pn')
    then have at1: "at_pc ?s st pl (Validate ?k c pn' ?a) m'" using m'(2) by simp
    note d1 = at_pcD [OF at1]
    let ?g = "stamps m' ?a"
    let ?m1 = "goto (me s) (LoadKeep keep c pn' ?a ?g) m'"
    have i: "internal (me ?s) 0 m' = Some ?m1" using d1 by (simp add: internal_def step_protect_def Let_def)
    have at2: "at_pc ?s st pl (LoadKeep keep c pn' ?a ?g) ?m1"
      by (rule at_pc_internal [OF at1 i]) (use d1 in \<open>auto simp: same_shared_def mstate_defs\<close>)
    note d2 = at_pcD [OF at2]
    have run2: "runs (me s) m ?m1" using run runs_internal [OF i] d1(7) by simp
    show ?thesis
    proof (cases "keep (arc_val x)")
      case False
      let ?m2 = "goto (me s) (Release c pn' ?a) ?m1"
      have i2: "internal (me ?s) 0 ?m1 = Some ?m2" using d2 x False by (simp add: internal_def step_load_def)
      have at3: "at_pc ?s st pl (Release c pn' ?a) ?m2"
        by (rule at_pc_internal [OF at2, where a = 0]) (use d2 i2 in \<open>auto simp: same_shared_def mstate_defs\<close>)
      obtain s4 m4 where 4: "release c pn' ?s = Some s4" "runs (me ?s) ?m2 m4" "at_pc s4 st pl Idle m4" "keeps ?s s4"
        "map current (cells s4) = map current (cells ?s)"
        by (rule release_runs [OF at3]) (use c in auto)
      show ?thesis
        by (rule that [of s4 m4])
          (use False v x Some 4 run2 runs_internal [OF i2] d2(7) in
            \<open>auto simp: load_arc_if_def protect_eq [OF pin] deref_def keeps_defs intro: rtranclp_trans\<close>)
    next
      case True
      let ?m2 = "goto (me s) (LoadInc c pn' ?a ?g) ?m1"
      have i2: "internal (me ?s) 0 ?m1 = Some ?m2" using d2 x True by (simp add: internal_def step_load_def)
      have at3: "at_pc ?s st pl (LoadInc c pn' ?a ?g) ?m2"
        by (rule at_pc_internal [OF at2, where a = 0]) (use d2 i2 in \<open>auto simp: same_shared_def mstate_defs\<close>)
      note d3 = at_pcD [OF at3]
      let ?h = "(heap s)(?a \<mapsto> x\<lparr>strong := strong x + 1\<rparr>)"
      let ?s3 = "?s\<lparr>heap := ?h\<rparr>" and ?m3 = "goto (me s) (Release c pn' ?a) (?m2\<lparr>heap := ?h, pool := ?a # pl\<rparr>)"
      have i3: "internal (me ?s) 0 ?m2 = Some ?m3" using d3 x by (simp add: internal_def step_load_def clone_ref_def arc_clone_def)
      have at4: "at_pc ?s3 st (?a # pl) (Release c pn' ?a) ?m3"
        by (rule at_pc_internal [OF at3, where a = 0]) (use d3 i3 x in \<open>auto simp: same_shared_def mstate_defs\<close>)
      obtain s4 m4 where 4: "release c pn' ?s3 = Some s4" "runs (me ?s3) ?m3 m4" "at_pc s4 st (?a # pl) Idle m4" "keeps ?s3 s4"
        "map current (cells s4) = map current (cells ?s3)"
        by (rule release_runs [OF at4]) (use c in auto)
      have "keeps s s4" using 4(4) x by (auto simp: keeps_defs split: if_splits)
      moreover have "runs (me s) m m4"
        using run2 runs_internal [OF i2] runs_internal [OF i3] 4(2) d2(7) by (auto intro: rtranclp_trans)
      ultimately show ?thesis
        by (intro that [of s4 m4])
          (use True v x Some 4 in \<open>simp_all add: load_arc_if_def protect_eq [OF pin] deref_def arc_clone_def\<close>)
    qed
  qed
qed

end
