(* ===== verification/SnapSpec.thy ===== *)
theory SnapSpec
  imports SnapSeq HandlerList
begin

text \<open>
  The contract of a cell, as its clients use it. \<open>cell_ok st pl s\<close>: the state \<open>s\<close> of the running thread is
  one the interleaving machine can be in, with the thread inside the reads \<open>st\<close> and the owned handles
  \<open>pl\<close> given out; \<open>vals s\<close> is what the cells hold. Each function of \<^verbatim>\<open>SnapCell\<close> then returns, keeps
  \<open>cell_ok\<close>, and acts on \<open>vals\<close> as on plain variables. The locale \<open>value_cells\<close> is that contract,
  \<open>handler_cells\<close> its use for handler lists; both are interpreted on the cells' own functions.
\<close>

section \<open>Waiting\<close>

definition fb_frames :: "frame list \<Rightarrow> nat" where
  "fb_frames st = length (concat (map frame_fb st))"

lemma fb_frames_simps [simp]:
  "fb_frames [] = 0" "fb_frames (Hz c pn p g # st) = fb_frames st" "fb_frames (Fb c a g # st) = Suc (fb_frames st)"
  by (simp_all add: fb_frames_def)

lemma fb_frames_le: "fb_frames st \<le> length st"
proof (induction st)
  case (Cons f st)
  then show ?case by (cases f) simp_all
qed simp

lemma fb_frames_0: "fb_frames st = 0 \<longleftrightarrow> concat (map frame_fb st) = []"
  unfolding fb_frames_def by (rule length_0_conv)

text \<open>No other thread announces anything, and the cell's own fallback reads make the caller skip them.\<close>

lemma at_pc_others_quiet:
  assumes at: "at_pc s st pl Idle m" and p: "p \<noteq> null"
  shows "\<not> others_protect p (local_state s) (haz s)"
proof -
  note d = at_pcD [OF at]
  obtain xs where xs: "path (record_at (haz s)) (HEAD (haz s)) xs" "set xs \<subseteq> {1..n_records (haz s)}"
    using at_pc_chain [OF at] by (auto simp: chain_ok_def)
  have rec: "rec_inv m" using d(1) by (simp add: inv_def)
  have own: "own_record (thr (me s) m) = (if local_alive (local_state s) then local_record (local_state s) else null)"
    using d(8) by (simp add: own_record_def)
  have "load_slot (haz s) (r, j) = null" if r: "r \<in> set xs" "r \<noteq> own_record (thr (me s) m)" and j: "j < SLOTS" for r j
  proof (cases "\<exists>i<length (threads m). rec_of (thr i m) = r")
    case True
    then obtain i where i: "i < length (threads m)" "rec_of (thr i m) = r" by blast
    have r0: "r \<noteq> null" using r(1) xs(2) by auto
    have "i \<noteq> me s" using i(2) r(2) r0 d(8) by (auto simp: rec_of_def pc_rec_def split: if_splits)
    then have "pins (thr i m) = []" using at i(1) by (auto simp: at_pc_def pins_def pc_pins_def)
    then have "pin_at (thr i m) j = null" by (simp add: pin_at_def)
    then show ?thesis using rec i r0 j d(3) by (auto simp: rec_inv_def rec_ok_def load_slot_def)
  next
    case False
    moreover have "0 < r \<and> r \<le> n_records (haz m)" using r(1) xs(2) d(3) by auto
    ultimately have "free_ok (haz m) r" using rec by (auto simp: rec_inv_def)
    then show ?thesis using j d(3) by (simp add: free_ok_def load_slot_def)
  qed
  then show ?thesis using p own by (auto simp: others_protect_eq [OF xs] record_announces_def list_ex_iff)
qed

lemma at_pc_fallback:
  assumes at: "at_pc s st pl Idle m" and c: "c < length (cells s)" and "fb_frames st = 0"
  shows "fallback_readers (the_cell c s) = 0"
proof -
  note d = at_pcD [OF at]
  have "fb_cells t = []" if "t \<in> set (threads m)" for t
    using that at assms(3) d(8) by (auto simp: in_set_conv_nth at_pc_def fb_cells_def pc_fb_def fb_frames_0)
  then have "thread_sum (\<lambda>t. count_list (fb_cells t) c) m = 0" by (simp add: thread_sum_def)
  then show ?thesis using d(1,6) c by (simp add: inv_def fb_inv_def)
qed

lemma wait_returns:
  assumes at: "at_pc s st pl Idle m" and c: "c < length (cells s)"
    and depth: "fallback_depth s = of_nat (fb_frames st)" "fb_frames st < 2 ^ 64"
  shows "wait_for_retired_readers c s = Some s"
proof -
  note d = at_pcD [OF at]
  have wl: "writer_lock (the_cell c s) = None" using at_pc_unlocked [OF at c] by (simp add: pc_crit_def)
  have same: "unlock c (put_cell c ((the_cell c s)\<lparr>writer_lock := Some (me s)\<rparr>) s) = s"
  proof -
    have "(the_cell c s)\<lparr>writer_lock := None\<rparr> = the_cell c s" using wl by (cases "the_cell c s") simp
    then show ?thesis using c by (simp add: unlock_def)
  qed
  have "p \<noteq> null" if "p \<in> set (retired (the_cell c s))" for p
  proof -
    have "mem_inv m" using d(1) by (simp add: inv_def)
    then show ?thesis using cell_live [of m c p] that c d(4,6) by (metis mem_inv_def)
  qed
  then have "list_all (\<lambda>p. \<not> others_protect p (local_state s) (haz s)) (retired (the_cell c s))"
    using at_pc_others_quiet [OF at] by (simp add: list_all_iff)
  then have rc: "retired_clear c s = Some True"
    using wl same c by (simp add: retired_clear_def lock_def Let_def)
  have "0 < fallback_depth s \<or> fallback_readers (the_cell c s) = 0"
  proof (cases "fb_frames st = 0")
    case False
    then have "unat (fallback_depth s) \<noteq> 0" using depth by (simp add: unat_of_nat)
    then show ?thesis by (simp add: word_gt_0 unat_eq_0)
  qed (use at_pc_fallback [OF at c] in simp)
  then show ?thesis unfolding wait_for_retired_readers_def by (subst wait_loop.simps) (auto simp: rc)
qed

section \<open>A new cell\<close>

definition add_cell :: "addr \<Rightarrow> 'v \<Rightarrow> 'v machine \<Rightarrow> 'v machine" where
  "add_cell a v m = (arc_new_at a v m)\<lparr>cells := cells m @ [init_cell a],
     stamps := (stamps m)(a := clock m), clock := Suc (clock m)\<rparr>"

lemma add_cell_sel [simp]:
  "haz (add_cell a v m) = haz m" "threads (add_cell a v m) = threads m" "pool (add_cell a v m) = pool m"
  "fault (add_cell a v m) = fault m" "cells (add_cell a v m) = cells m @ [init_cell a]"
  "heap (add_cell a v m) = (heap m)(a \<mapsto> \<lparr>strong = 1, arc_val = v\<rparr>)"
  "heap_brk (add_cell a v m) = max (heap_brk m) (Suc a)"
  "stamps (add_cell a v m) = (stamps m)(a := clock m)" "clock (add_cell a v m) = Suc (clock m)"
  by (simp_all add: add_cell_def arc_new_at_def)

lemma thread_sum_add_cell [simp]: "thread_sum f (add_cell a v m) = thread_sum f m"
  by (simp add: thread_sum_def)

lemma mem_inv_add_cell:
  assumes mem: "mem_inv m" and a: "heap m a = None" "a \<noteq> null" and idle: "\<forall>t\<in>set (threads m). pc t = Idle"
  shows "mem_inv (add_cell a v m)"
proof -
  have cr: "cell_refs (add_cell a v m) x = cell_refs m x + of_bool (a = x)" for x
    by (simp add: cell_refs_def cref_def init_cell_def)
  then have rf: "refs (add_cell a v m) x = refs m x + of_bool (a = x)" for x by (simp add: refs_def)
  have r0: "refs m a = 0" using mem_inv_live [OF mem, of a] a(1) by simp
  then have c0: "cell_refs m a = 0" by (simp add: refs_def)
  have "thread_sum (\<lambda>t. count_list (pc_new (pc t)) x) m = 0" for x
    using idle by (simp add: thread_sum_def pc_new_def)
  then have new: "cell_refs m x \<le> 1" for x using mem unfolding mem_inv_def by (metis add.right_neutral)
  show ?thesis
    unfolding mem_inv_def
  proof (intro conjI allI impI)
    fix x
    show "rc (add_cell a v m) x = refs (add_cell a v m) x"
      using mem r0 rf [of x] by (cases "x = a") (auto simp: rc_def mem_inv_def)
    show "cell_refs (add_cell a v m) x + thread_sum (\<lambda>t. count_list (pc_new (pc t)) x) (add_cell a v m) \<le> 1"
      using new [of x] c0 cr [of x] \<open>thread_sum (\<lambda>t. count_list (pc_new (pc t)) x) m = 0\<close> by (cases "a = x") auto
  next
    fix x y assume "heap (add_cell a v m) x = Some y"
    then show "0 < strong y" using mem by (auto simp: mem_inv_def split: if_splits)
  qed (use mem a in \<open>auto simp: mem_inv_def\<close>)
qed

lemma inv_add_cell:
  assumes inv: "inv m" and a: "heap m a = None" "a \<noteq> null" and idle: "\<forall>t\<in>set (threads m). pc t = Idle"
  shows "inv (add_cell a v m)"
proof -
  have ok: "cells_ok m" and mem: "mem_inv m" and ref: "ref_inv m" and lock: "lock_inv m" and fb: "fb_inv m"
    using inv by (auto simp: inv_def)
  have pcI: "pc (thr i m) = Idle" if "i < length (threads m)" for i using idle that nth_mem by blast
  have "cells_ok (add_cell a v m)" using ok by (fastforce simp: cells_ok_def)
  moreover have "rec_inv (add_cell a v m)" using inv by (simp add: inv_def rec_inv_def)
  moreover have "lock_inv (add_cell a v m)"
    using lock pcI by (auto simp: lock_inv_def nth_append pc_crit_def init_cell_def)
  moreover have "fb_inv (add_cell a v m)"
  proof -
    have "length (cells m) \<notin> set (fb_cells t)" if t: "t \<in> set (threads m)" for t
    proof
      assume "length (cells m) \<in> set (fb_cells t)"
      then obtain f where f: "f \<in> set (stack t)" "length (cells m) \<in> fst ` set (frame_fb f)"
        using idle t by (auto simp: fb_cells_def pc_fb_def)
      then have "frame_cell f = length (cells m)" by (cases f rule: frame.exhaust) auto
      then show False using ok t f(1) unfolding cells_ok_def by (metis less_irrefl)
    qed
    then have "thread_sum (\<lambda>t. count_list (fb_cells t) (length (cells m))) m = 0"
      by (simp add: thread_sum_def count_list_0_iff)
    then show ?thesis using fb by (auto simp: fb_inv_def nth_append init_cell_def less_Suc_eq)
  qed
  moreover have "mem_inv (add_cell a v m)" by (rule mem_inv_add_cell [OF mem a idle])
  moreover have "stamp_inv (add_cell a v m)"
    using inv pcI by (auto simp: inv_def stamp_inv_def less_Suc_eq)
  moreover have "scan_inv (add_cell a v m)" using pcI by (simp add: scan_inv_def pc_scan_def)
  moreover have "ref_inv (add_cell a v m)"
  proof -
    have "live_read (add_cell a v m) x" if x: "live_read m x" for x
    proof -
      obtain c p g pn where c: "x = (c, p, g, pn)" by (cases x)
      have "p \<noteq> a" using cell_live [OF mem, of c p] x c a(1) by (auto simp: live_read_def)
      then show ?thesis using x c by (auto simp: live_read_def nth_append)
    qed
    then show ?thesis using ref by (auto simp: ref_inv_def)
  qed
  ultimately show ?thesis by (simp add: inv_def)
qed

lemma new_at:
  fixes s :: "('v, 'm) sys_scheme"
  assumes at: "at_pc s st pl Idle m" and new: "SnapCell_new v s = (c, s')"
  shows "c = length (cells s)" "\<exists>m'. at_pc s' st pl Idle m'" "vals s' = vals s @ [v]"
    "sys.more s' = sys.more s" "me s' = me s" "fallback_depth s' = fallback_depth s"
proof -
  note d = at_pcD [OF at]
  let ?a = "alloc_addr s"
  have a: "heap s ?a = None" "?a \<noteq> null" using alloc_addr_fresh [of s] d by auto
  have s': "s' = (arc_new_at ?a v s)\<lparr>cells := cells s @ [init_cell ?a]\<rparr>" "c = length (cells s)"
    using new by (auto simp: SnapCell_new_def arc_new_def Let_def arc_new_at_def init_cell_def)
  show "c = length (cells s)" "sys.more s' = sys.more s" "me s' = me s" "fallback_depth s' = fallback_depth s"
    using s' by (simp_all add: arc_new_at_def)
  have idle: "\<forall>t\<in>set (threads m). pc t = Idle"
  proof
    fix t assume "t \<in> set (threads m)"
    then obtain i where "i < length (threads m)" "t = thr i m" by (auto simp: in_set_conv_nth)
    then show "pc t = Idle" using at by (cases "i = me s") (auto simp: at_pc_def)
  qed
  have "inv (add_cell ?a v m)" by (rule inv_add_cell) (use a d idle in simp_all)
  then have "at_pc s' st pl Idle (add_cell ?a v m)"
    using at s'(1) by (auto simp: at_pc_def same_shared_def arc_new_at_def)
  then show "\<exists>m'. at_pc s' st pl Idle m'" ..
  have "heap s (current x) \<noteq> None" if "x \<in> set (cells s)" for x
    using that at_pc_current(1) [OF at] by (auto simp: in_set_conv_nth)
  then have "current x \<noteq> ?a" if "x \<in> set (cells s)" for x using that a(1) by metis
  then show "vals s' = vals s @ [v]" using s'(1) by (simp add: vals_def arc_new_at_def init_cell_def)
qed

section \<open>The invariant and the laws\<close>

definition cell_ok :: "frame list \<Rightarrow> addr list \<Rightarrow> ('v, 'm) sys_scheme \<Rightarrow> bool" where
  "cell_ok st pl s \<longleftrightarrow> (\<exists>m. at_pc s st pl Idle m) \<and> fallback_depth s = of_nat (fb_frames st) \<and> length st < 2 ^ 64"

text \<open>What a function leaves to its client: the invariant, what the cells hold, the client's state.\<close>

definition same_view :: "('v, 'm) sys_scheme \<Rightarrow> ('v, 'm) sys_scheme \<Rightarrow> bool" where
  "same_view s s' \<longleftrightarrow> vals s' = vals s \<and> sys.more s' = sys.more s"

lemma cell_okI:
  assumes "at_pc s st pl Idle m" "fallback_depth s = of_nat (fb_frames st)" "length st < 2 ^ 64"
  shows "cell_ok st pl s"
  using assms by (auto simp: cell_ok_def)

lemma saturating_count:
  assumes "n + 1 < 2 ^ 64"
  shows "usize_saturating_add (of_nat n) 1 = of_nat (Suc n)" "usize_saturating_sub (of_nat (Suc n)) 1 = of_nat n"
proof -
  have u: "unat (of_nat n :: usize) = n" "unat (of_nat (Suc n) :: usize) = Suc n" using assms by (simp_all add: unat_of_nat del: of_nat_Suc)
  have "of_nat n + 1 = (of_nat (Suc n) :: usize)" by simp
  moreover have "\<not> of_nat (Suc n) < (of_nat n :: usize)" using u by (simp add: word_less_nat_alt)
  ultimately show "usize_saturating_add (of_nat n) 1 = of_nat (Suc n)" by (simp add: usize_saturating_add_def add.commute)
  have "\<not> of_nat (Suc n) < (1 :: usize)" using u by (simp add: word_less_nat_alt)
  then show "usize_saturating_sub (of_nat (Suc n)) 1 = of_nat n" by (simp add: usize_saturating_sub_def)
qed

lemma read_law:
  fixes s :: "('v, 'm) sys_scheme"
  assumes ok: "cell_ok st pl s" and c: "c < length (vals s)" and room: "length st + 1 < 2 ^ 64"
  obtains fr s1 where "cell_ok (fr # st) pl s1" "same_view s s1"
    "\<And>f :: 'v \<Rightarrow> (('v, 'm) sys_scheme, 'a) prog. read c f s = do { (out, s2) \<leftarrow> f (vals s ! c) s1; read_leave fr out s2 }"
proof -
  obtain m where m: "at_pc s st pl Idle m" and d: "fallback_depth s = of_nat (fb_frames st)"
    using ok by (auto simp: cell_ok_def)
  obtain fr s1 m1 where 1: "at_pc s1 (fr # st) pl Idle m1" "keeps_client s s1" "vals s1 = vals s"
    "fallback_depth s1 = (case fr of Hz c pn p g \<Rightarrow> fallback_depth s | Fb c a g \<Rightarrow> usize_saturating_add (fallback_depth s) 1)"
    "\<And>f :: 'v \<Rightarrow> (('v, 'm) sys_scheme, 'a) prog. read c f s = do { (out, s2) \<leftarrow> f (vals s ! c) s1; read_leave fr out s2 }"
    by (rule read_enter [OF m]) (use c in auto)
  have "fb_frames st + 1 < 2 ^ 64" using fb_frames_le [of st] room by simp
  then have "fallback_depth s1 = of_nat (fb_frames (fr # st))"
    using 1(4) d saturating_count(1) [of "fb_frames st"] by (cases fr) simp_all
  then have "cell_ok (fr # st) pl s1" using 1(1) room by (auto intro: cell_okI)
  moreover have "same_view s s1" using 1(2,3) by (simp add: same_view_def keeps_client_def)
  ultimately show ?thesis using 1(5) by (rule that)
qed

lemma leave_law:
  assumes ok: "cell_ok (fr # st) pl s" and out: "out \<noteq> Abort"
  obtains s' where "read_leave fr out s = Some (out, s')" "cell_ok st pl s'" "same_view s s'"
proof -
  obtain m where m: "at_pc s (fr # st) pl Idle m" and d: "fallback_depth s = of_nat (fb_frames (fr # st))" "length st + 1 < 2 ^ 64"
    using ok by (auto simp: cell_ok_def)
  obtain s' m' where 1: "read_leave fr out s = Some (out, s')" "at_pc s' st pl Idle m'" "keeps_client s s'"
    "map current (cells s') = map current (cells s)"
    "fallback_depth s' = (case fr of Hz c pn p g \<Rightarrow> fallback_depth s | Fb c a g \<Rightarrow> usize_saturating_sub (fallback_depth s) 1)"
    by (rule read_leave_runs [OF m out])
  have "fb_frames st + 1 < 2 ^ 64" using fb_frames_le [of st] d(2) by simp
  then have "fallback_depth s' = of_nat (fb_frames st)"
    using 1(5) d(1) saturating_count(2) [of "fb_frames st"] by (cases fr) simp_all
  then have "cell_ok st pl s'" using 1(2) d(2) by (auto intro: cell_okI)
  then show ?thesis using that 1 vals_keep [OF m 1(2,3,4)] by (simp add: same_view_def keeps_client_def)
qed

lemma update_law:
  assumes ok: "cell_ok st pl s" and c: "c < length (vals s)"
  obtains s' where "update c f s = Some (map_option snd (f (vals s ! c)), s')" "cell_ok st pl s'" "sys.more s' = sys.more s"
    "vals s' = (case f (vals s ! c) of None \<Rightarrow> vals s | Some (v, r) \<Rightarrow> (vals s)[c := v])"
proof -
  obtain m where m: "at_pc s st pl Idle m" and d: "fallback_depth s = of_nat (fb_frames st)" "length st < 2 ^ 64"
    using ok by (auto simp: cell_ok_def)
  show ?thesis by (rule update_runs [OF m, of c f]) (use c d in \<open>auto intro!: that cell_okI\<close>)
qed

lemma wait_law:
  assumes "cell_ok st pl s" "c < length (vals s)"
  shows "wait_for_retired_readers c s = Some s"
proof -
  obtain m where "at_pc s st pl Idle m" "fallback_depth s = of_nat (fb_frames st)" "fb_frames st < 2 ^ 64"
    using assms(1) fb_frames_le [of st] by (auto simp: cell_ok_def)
  then show ?thesis using wait_returns assms(2) by simp
qed

lemma new_law:
  assumes ok: "cell_ok st pl s" and new: "SnapCell_new v s = (c, s')"
  shows "c = length (vals s)" "cell_ok st pl s'" "vals s' = vals s @ [v]" "sys.more s' = sys.more s"
proof -
  obtain m where m: "at_pc s st pl Idle m" and d: "fallback_depth s = of_nat (fb_frames st)" "length st < 2 ^ 64"
    using ok by (auto simp: cell_ok_def)
  note n = new_at [OF m new]
  show "c = length (vals s)" "vals s' = vals s @ [v]" "sys.more s' = sys.more s" using n by simp_all
  show "cell_ok st pl s'" using n(2,6) d by (auto intro: cell_okI)
qed

lemma load_law:
  assumes ok: "cell_ok st pl s" and c: "c < length (vals s)"
  obtains s' where "same_view s s'" and
    "if keep (vals s ! c)
     then \<exists>a. load_arc_if c keep s = Some (Some a, s') \<and> deref a s' = Some (vals s ! c) \<and> cell_ok st (a # pl) s'
     else load_arc_if c keep s = Some (None, s') \<and> cell_ok st pl s'"
proof -
  obtain m where m: "at_pc s st pl Idle m" and d: "fallback_depth s = of_nat (fb_frames st)" "length st < 2 ^ 64"
    using ok by (auto simp: cell_ok_def)
  let ?a = "current (the_cell c s)" and ?k = "keep (vals s ! c)"
  obtain s' m' where 1: "load_arc_if c keep s = Some (if ?k then Some ?a else None, s')" "keeps s s'"
    "map current (cells s') = map current (cells s)" "at_pc s' st (if ?k then ?a # pl else pl) Idle m'"
    by (rule load_runs [OF m]) (use c in auto)
  have v: "vals s' = vals s" using vals_keep [OF m 1(4) _ 1(3)] 1(2) by (simp add: keeps_def)
  have cs: "c < length (cells s)" "c < length (cells s')" using c arg_cong [OF 1(3), of length] by simp_all
  then have cur: "current (the_cell c s') = ?a" using 1(3) by (metis nth_map)
  have "deref ?a s' = Some (vals s ! c)"
    using at_pc_current(1) [OF 1(4) cs(2)] vals_nth [OF cs(2)] v cur by (auto simp: deref_def)
  moreover have "cell_ok st (if ?k then ?a # pl else pl) s'" using 1(2,4) d by (auto intro: cell_okI simp: keeps_def)
  ultimately show ?thesis using 1(1,2) v by (intro that [of s']) (auto simp: same_view_def keeps_defs)
qed

lemma drop_law:
  assumes ok: "cell_ok st pl s" and a: "a \<in> set pl"
  obtains s' where "arc_drop a s = Some s'" "cell_ok st (remove1 a pl) s'" "same_view s s'"
proof -
  obtain m where m: "at_pc s st pl Idle m" and d: "fallback_depth s = of_nat (fb_frames st)" "length st < 2 ^ 64"
    using ok by (auto simp: cell_ok_def)
  obtain s' m' where 1: "arc_drop a s = Some s'" "at_pc s' st (remove1 a pl) Idle m'" "keeps s s'" "cells s' = cells s"
    by (rule pool_drop_runs [OF m a])
  have "vals s' = vals s" using vals_keep [OF m 1(2)] 1(3,4) by (simp add: keeps_def)
  then have "same_view s s'" using 1(3) by (simp add: same_view_def keeps_defs)
  moreover have "cell_ok st (remove1 a pl) s'" using 1(2,3) d by (auto intro: cell_okI simp: keeps_def)
  ultimately show ?thesis using 1(1) that by blast
qed

text \<open>The client may change its own state.\<close>

lemma cell_ok_cong:
  assumes "haz s' = haz s" "heap s' = heap s" "heap_brk s' = heap_brk s" "cells s' = cells s" "me s' = me s"
    "local_state s' = local_state s" "fallback_depth s' = fallback_depth s"
  shows "cell_ok st pl s' \<longleftrightarrow> cell_ok st pl s" "vals s' = vals s"
  using assms by (simp_all add: cell_ok_def at_pc_def same_shared_def vals_def)

section \<open>The interface\<close>

text \<open>
  Cells as their clients see them: \<open>ok\<close> is the invariant, \<open>val\<close> what the cells hold, \<open>more\<close> the client's own
  state. \<open>upd\<close> installs what its closure computes; the closure of \<open>rd\<close> runs on the value of the cell, may
  use the cells itself, and is followed by its own outcome.
\<close>

locale value_cells =
  fixes ok :: "'f list \<Rightarrow> 'p list \<Rightarrow> 's \<Rightarrow> bool"
    and val :: "'s \<Rightarrow> 'v list"
    and more :: "'s \<Rightarrow> 'c"
    and upd :: "nat \<Rightarrow> ('v \<Rightarrow> ('v \<times> unit) option) \<Rightarrow> 's \<Rightarrow> (unit option \<times> 's) option"
    and rd :: "nat \<Rightarrow> ('v \<Rightarrow> ('s, 'a) prog) \<Rightarrow> ('s, 'a) prog"
    and max_depth :: nat
  assumes upd_law: "ok st pl s \<Longrightarrow> c < length (val s) \<Longrightarrow>
      \<exists>s'. upd c f s = Some (map_option snd (f (val s ! c)), s') \<and> ok st pl s' \<and> more s' = more s \<and>
        val s' = (case f (val s ! c) of None \<Rightarrow> val s | Some (v, r) \<Rightarrow> (val s)[c := v])"
    and rd_law: "ok st pl s \<Longrightarrow> c < length (val s) \<Longrightarrow> length st + 1 < max_depth \<Longrightarrow>
      \<exists>fr s1. ok (fr # st) pl s1 \<and> val s1 = val s \<and> more s1 = more s \<and>
        (g (val s ! c) s1 = None \<longrightarrow> rd c g s = None) \<and>
        (\<forall>s2. g (val s ! c) s1 = Some (Abort, s2) \<longrightarrow> rd c g s = Some (Abort, s2)) \<and>
        (\<forall>out s2 pl'. g (val s ! c) s1 = Some (out, s2) \<and> out \<noteq> Abort \<and> ok (fr # st) pl' s2 \<longrightarrow>
           (\<exists>s3. rd c g s = Some (out, s3) \<and> ok st pl' s3 \<and> val s3 = val s2 \<and> more s3 = more s2))"
begin

text \<open>A closure that only looks at the value.\<close>

lemma query:
  assumes "ok st pl s" "c < length (val s)" "length st + 1 < max_depth"
  shows "\<exists>s'. rd c (\<lambda>v s. Some (Ret (g v), s)) s = Some (Ret (g (val s ! c)), s') \<and> ok st pl s' \<and> val s' = val s \<and>
    more s' = more s"
  using rd_law [OF assms, of "\<lambda>v s. Some (Ret (g v), s)"] by fastforce

end

text \<open>Cells that hold handler lists, each by descending priority.\<close>

definition insert_entry :: "'h HandlerEntry \<Rightarrow> 'h HandlerEntry list \<Rightarrow> 'h HandlerEntry list" where
  "insert_entry e es = takeWhile (\<lambda>x. prio_key x \<le> prio_key e) es @ e # dropWhile (\<lambda>x. prio_key x \<le> prio_key e) es"

definition remove_entry :: "HandlerId \<Rightarrow> 'h HandlerEntry list \<Rightarrow> 'h HandlerEntry list" where
  "remove_entry hid es = takeWhile (\<lambda>e. entry_id e \<noteq> hid) es @ tl (dropWhile (\<lambda>e. entry_id e \<noteq> hid) es)"

lemma insert_entry_by_priority: "by_priority es \<Longrightarrow> by_priority (insert_entry e es)"
  unfolding by_priority_def insert_entry_def by (rule sorted_insert_after)

lemma insert_entry_dispatch_order: "insert_entry e (dispatch_order hist) = dispatch_order (hist @ [e])"
  using insert_closure_dispatch_order [of e hist] insert_closure_eq [of "dispatch_order hist" e] by (simp add: insert_entry_def)

lemma remove_entry_by_priority:
  assumes "by_priority es" shows "by_priority (remove_entry hid es)"
proof -
  define t d where td: "t = takeWhile (\<lambda>e. entry_id e \<noteq> hid) es" "d = dropWhile (\<lambda>e. entry_id e \<noteq> hid) es"
  then have "sorted (map prio_key (t @ d))" using assms by (simp add: by_priority_def)
  then have "sorted (map prio_key (t @ tl d))" by (cases d) (auto simp: sorted_append)
  then show ?thesis by (simp add: by_priority_def remove_entry_def td)
qed

lemma position_takeWhile:
  "position P xs = (if \<exists>x\<in>set xs. P x then Some (length (takeWhile (\<lambda>x. \<not> P x) xs)) else None)"
  by (induction xs) auto

lemma remove_id_closure_entry:
  "remove_id_closure hid es = (if hid \<in> set (ids es) then Some (remove_entry hid es, ()) else None)"
proof -
  have "take (length (takeWhile P es)) es = takeWhile P es" "drop (length (takeWhile P es) + 1) es = tl (dropWhile P es)" for P
    by (metis append_eq_conv_conj takeWhile_dropWhile_id) (metis Suc_eq_plus1 append_eq_conv_conj drop_Suc drop_tl takeWhile_dropWhile_id)
  then show ?thesis by (auto simp: remove_id_closure_def position_takeWhile remove_entry_def ids_def Let_def)
qed

definition lists_ok :: "'h HandlerEntry list list \<Rightarrow> bool" where
  "lists_ok vs \<longleftrightarrow> (\<forall>es\<in>set vs. by_priority es)"

lemma lists_ok_update: "lists_ok vs \<Longrightarrow> by_priority es \<Longrightarrow> lists_ok (vs[c := es])"
  by (auto simp: lists_ok_def dest!: set_update_subset_insert [THEN subsetD])

lemma lists_ok_nth: "lists_ok vs \<Longrightarrow> c < length vs \<Longrightarrow> by_priority (vs ! c)"
  by (simp add: lists_ok_def)

locale handler_cells = value_cells ok val more upd rd max_depth
  for ok :: "'f list \<Rightarrow> 'p list \<Rightarrow> 's \<Rightarrow> bool" and val :: "'s \<Rightarrow> 'h HandlerEntry list list" and more :: "'s \<Rightarrow> 'c"
    and upd and rd :: "nat \<Rightarrow> ('h HandlerEntry list \<Rightarrow> ('s, 'a) prog) \<Rightarrow> ('s, 'a) prog" and max_depth
begin

lemma insert_list:
  assumes "ok st pl s" "c < length (val s)" "lists_ok (val s)"
  shows "\<exists>s'. upd c (insert_closure e) s = Some (Some (), s') \<and> ok st pl s' \<and> more s' = more s \<and> lists_ok (val s') \<and>
    val s' = (val s)[c := insert_entry e (val s ! c)]"
proof -
  have b: "by_priority (val s ! c)" using lists_ok_nth assms by blast
  then have "insert_closure e (val s ! c) = Some (insert_entry e (val s ! c), ())"
    by (simp add: insert_closure_eq insert_entry_def)
  then show ?thesis using upd_law [OF assms(1,2), of "insert_closure e"] lists_ok_update [OF assms(3)] insert_entry_by_priority [OF b]
    by auto
qed

lemma remove_list:
  assumes "ok st pl s" "c < length (val s)" "lists_ok (val s)"
  shows "\<exists>s'. upd c (remove_id_closure hid) s = Some (if hid \<in> set (ids (val s ! c)) then Some () else None, s') \<and>
    ok st pl s' \<and> more s' = more s \<and> lists_ok (val s') \<and>
    val s' = (if hid \<in> set (ids (val s ! c)) then (val s)[c := remove_entry hid (val s ! c)] else val s)"
  using upd_law [OF assms(1,2), of "remove_id_closure hid"] lists_ok_update [OF assms(3)] assms(3)
    remove_entry_by_priority [OF lists_ok_nth [OF assms(3,2)]]
  by (auto simp: remove_id_closure_entry)

lemma clear_list:
  assumes "ok st pl s" "c < length (val s)" "lists_ok (val s)"
  shows "\<exists>s'. upd c remove_all_closure s = Some (if val s ! c = [] then None else Some (), s') \<and>
    ok st pl s' \<and> more s' = more s \<and> lists_ok (val s') \<and> val s' = (val s)[c := []]"
proof (cases "val s ! c")
  case Nil
  then have "val s = (val s)[c := []]" by (metis list_update_id)
  then show ?thesis using upd_law [OF assms(1,2), of remove_all_closure] assms(3) Nil
    by (auto simp: remove_all_closure_def lists_ok_def)
next
  case (Cons e es)
  then show ?thesis using upd_law [OF assms(1,2), of remove_all_closure] lists_ok_update [OF assms(3), of "[]" c]
    by (auto simp: remove_all_closure_def by_priority_def)
qed

end

interpretation vc: value_cells cell_ok vals "sys.more :: ('v, 'm) sys_scheme \<Rightarrow> 'm" update
  "read :: nat \<Rightarrow> ('v \<Rightarrow> (('v, 'm) sys_scheme, 'a) prog) \<Rightarrow> (('v, 'm) sys_scheme, 'a) prog" "2 ^ 64"
proof
  fix st pl c f and s :: "('v, 'm) sys_scheme"
  assume "cell_ok st pl s" "c < length (vals s)"
  then show "\<exists>s'. update c f s = Some (map_option snd (f (vals s ! c)), s') \<and> cell_ok st pl s' \<and> sys.more s' = sys.more s \<and>
      vals s' = (case f (vals s ! c) of None \<Rightarrow> vals s | Some (v, r) \<Rightarrow> (vals s)[c := v])"
    by (rule update_law [of st pl s c f]) blast
next
  fix st pl c and f :: "'v \<Rightarrow> (('v, 'm) sys_scheme, 'a) prog" and s :: "('v, 'm) sys_scheme"
  assume "cell_ok st pl s" "c < length (vals s)" "length st + 1 < 2 ^ 64"
  then obtain fr s1 where 1: "cell_ok (fr # st) pl s1" "same_view s s1"
    "\<And>f :: 'v \<Rightarrow> (('v, 'm) sys_scheme, 'a) prog. read c f s = do { (out, s2) \<leftarrow> f (vals s ! c) s1; read_leave fr out s2 }"
    by (rule read_law [where 'a = 'a]) (rule that)
  have "\<exists>s3. read c f s = Some (out, s3) \<and> cell_ok st pl' s3 \<and> vals s3 = vals s2 \<and> sys.more s3 = sys.more s2"
    if "f (vals s ! c) s1 = Some (out, s2) \<and> out \<noteq> Abort \<and> cell_ok (fr # st) pl' s2" for out s2 pl'
    using that by (elim conjE) (rule leave_law [of fr st pl' s2 out], auto simp: 1(3) same_view_def)
  moreover have "f (vals s ! c) s1 = Some (Abort, s2) \<longrightarrow> read c f s = Some (Abort, s2)" for s2
    by (simp add: 1(3) read_leave_def)
  ultimately show "\<exists>fr s1. cell_ok (fr # st) pl s1 \<and> vals s1 = vals s \<and> sys.more s1 = sys.more s \<and>
      (f (vals s ! c) s1 = None \<longrightarrow> read c f s = None) \<and>
      (\<forall>s2. f (vals s ! c) s1 = Some (Abort, s2) \<longrightarrow> read c f s = Some (Abort, s2)) \<and>
      (\<forall>out s2 pl'. f (vals s ! c) s1 = Some (out, s2) \<and> out \<noteq> Abort \<and> cell_ok (fr # st) pl' s2 \<longrightarrow>
         (\<exists>s3. read c f s = Some (out, s3) \<and> cell_ok st pl' s3 \<and> vals s3 = vals s2 \<and> sys.more s3 = sys.more s2))"
    using 1(1,2) by (intro exI [of _ fr] exI [of _ s1]) (auto simp: 1(3) same_view_def)
qed

interpretation hc: handler_cells cell_ok vals "sys.more :: ('h HandlerEntry list, 'm) sys_scheme \<Rightarrow> 'm" update read "2 ^ 64"
  by unfold_locales

section \<open>The first state\<close>

lemma start_at:
  assumes "haz s = empty_domain" "heap s = (\<lambda>_. None)" "heap_brk s = 1" "cells s = []" "me s = 0"
    "local_state s = new_local" "fallback_depth s = 0"
  shows "at_pc s [] [] Idle (init_machine 1 [])"
proof -
  have "heap (init_machine 1 []) = (\<lambda>_. None)" by (auto simp: init_machine_def)
  moreover have "inv (init_machine 1 [])" by (rule inv_init)
  ultimately show ?thesis using assms by (simp add: at_pc_def same_shared_def init_machine_def init_thread_def)
qed

lemma start_ok:
  assumes "haz s = empty_domain" "heap s = (\<lambda>_. None)" "heap_brk s = 1" "cells s = []" "me s = 0"
    "local_state s = new_local" "fallback_depth s = 0"
  shows "cell_ok [] [] s" "vals s = []"
  using start_at [OF assms] assms by (auto intro: cell_okI simp: vals_def)

end
