(* ===== verification/RegistrySpec.thy ===== *)
theory RegistrySpec
  imports Exec SnapSpec
begin

text \<open>
  The specification of the two registries: handler lists are plain values, there is no memory, no hazard
  domain, no lock and no reference count. A registration puts an entry behind those of
  equal or higher priority, a removal takes the first entry with the id out, a dispatch
  runs over the list as it was when the dispatch began. \<open>spec_exec\<close> runs programs against it, with the same
  fuel as \<open>exec\<close>; \<^verbatim>\<open>Refine\<close> shows that \<open>exec\<close> implements it.
\<close>

record ('n, 'u) spec_state =
  sp_lists :: "'n entry list list"
  sp_client :: "('n, 'u) client"
  sp_handles :: "bool list"

type_synonym ('n, 'u, 'a) sprog = "(('n, 'u) spec_state, 'a) prog"

abbreviation sp_reg :: "nat \<Rightarrow> ('n, 'u) spec_state \<Rightarrow> 'n SyncRegistry" where
  "sp_reg rid s \<equiv> regs (sp_client s) ! rid"

abbreviation sp_areg :: "nat \<Rightarrow> ('n, 'u) spec_state \<Rightarrow> 'n AsyncRegistry" where
  "sp_areg rid s \<equiv> aregs (sp_client s) ! rid"

definition sp_with_client :: "(('n, 'u) client \<Rightarrow> ('n, 'u) client) \<Rightarrow> ('n, 'u) spec_state \<Rightarrow> ('n, 'u) spec_state" where
  "sp_with_client f s = s\<lparr>sp_client := f (sp_client s)\<rparr>"

definition sp_list :: "nat \<Rightarrow> ('n, 'u) spec_state \<Rightarrow> 'n entry list" where
  "sp_list c s = sp_lists s ! c"

definition sp_set_list :: "nat \<Rightarrow> 'n entry list \<Rightarrow> ('n, 'u) spec_state \<Rightarrow> ('n, 'u) spec_state" where
  "sp_set_list c es s = s\<lparr>sp_lists := (sp_lists s)[c := es]\<rparr>"

section \<open>Lists\<close>

definition sp_insert :: "nat \<Rightarrow> 'n entry \<Rightarrow> ('n, 'u) spec_state \<Rightarrow> ('n, 'u) spec_state" where
  "sp_insert c e s = sp_set_list c (insert_entry e (sp_list c s)) s"

definition sp_remove :: "nat \<Rightarrow> HandlerId \<Rightarrow> ('n, 'u) spec_state \<Rightarrow> bool \<times> ('n, 'u) spec_state" where
  "sp_remove c hid s =
     (if hid \<in> set (ids (sp_list c s)) then (True, sp_set_list c (remove_entry hid (sp_list c s)) s) else (False, s))"

definition sp_clear :: "nat \<Rightarrow> ('n, 'u) spec_state \<Rightarrow> ('n, 'u) spec_state" where
  "sp_clear c s = sp_set_list c [] s"

section \<open>The synchronous registry\<close>

definition spec_new :: "('n, 'u) spec_state \<Rightarrow> nat \<times> ('n, 'u) spec_state" where
  "spec_new s =
     (length (regs (sp_client s)),
      sp_with_client (\<lambda>k. k\<lparr>regs := regs k @ [\<lparr>handlers = length (sp_lists s), id_generator = HandlerIdGenerator_new,
        panic_callback = None, panics = 0, reg_alive = True\<rparr>]\<rparr>) (s\<lparr>sp_lists := sp_lists s @ [[]]\<rparr>))"

definition spec_next_id :: "nat \<Rightarrow> ('n, 'u) spec_state \<Rightarrow> HandlerId \<times> ('n, 'u) spec_state" where
  "spec_next_id rid s =
     (let (hid, g) = HandlerIdGenerator_next (id_generator (sp_reg rid s))
      in (hid, sp_with_client (set_reg rid ((sp_reg rid s)\<lparr>id_generator := g\<rparr>)) s))"

definition spec_register :: "nat \<Rightarrow> i32 \<Rightarrow> 'n \<Rightarrow> ('n, 'u) spec_state \<Rightarrow> HandlerId \<times> ('n, 'u) spec_state" where
  "spec_register rid priority n s =
     (let (hid, s1) = spec_next_id rid s
      in (hid, sp_insert (handlers (sp_reg rid s1))
            \<lparr>entry_id = hid, entry_priority = priority, entry_handler = Plain n\<rparr> s1))"

definition spec_register_once :: "nat \<Rightarrow> 'n \<Rightarrow> ('n, 'u) spec_state \<Rightarrow> HandlerId \<times> ('n, 'u) spec_state" where
  "spec_register_once rid n s =
     (let (hid, s1) = spec_next_id rid s;
          slot = length (once_slots (sp_client s1));
          s2 = sp_with_client (\<lambda>k. k\<lparr>once_slots := once_slots k @ [Some n]\<rparr>) s1
      in (hid, sp_insert (handlers (sp_reg rid s2))
            \<lparr>entry_id = hid, entry_priority = 0, entry_handler = OnceClosure slot rid hid\<rparr> s2))"

definition spec_unregister :: "nat \<Rightarrow> HandlerId \<Rightarrow> ('n, 'u) spec_state \<Rightarrow> bool \<times> ('n, 'u) spec_state" where
  "spec_unregister rid hid s = sp_remove (handlers (sp_reg rid s)) hid s"

definition spec_upgrade :: "nat option \<Rightarrow> ('n, 'u) spec_state \<Rightarrow> nat option" where
  "spec_upgrade r s = (case r of None \<Rightarrow> None | Some rid \<Rightarrow>
     if rid < length (regs (sp_client s)) \<and> reg_alive (sp_reg rid s) then Some rid else None)"

definition spec_drop_registration :: "nat option \<Rightarrow> HandlerId \<Rightarrow> ('n, 'u) spec_state \<Rightarrow> ('n, 'u) spec_state" where
  "spec_drop_registration r hid s =
     (case spec_upgrade r s of None \<Rightarrow> s | Some rid \<Rightarrow> snd (spec_unregister rid hid s))"

definition spec_once_call ::
  "('n, 'e, 'u) code \<Rightarrow> ('n, 'e, 'u, ('n, 'u) spec_state) runner \<Rightarrow> nat \<Rightarrow> nat \<Rightarrow> HandlerId \<Rightarrow> 'e \<Rightarrow> ('n, 'u, unit) sprog" where
  "spec_once_call code R slot rid hid event s =
     (let s1 = sp_with_client (\<lambda>k. k\<lparr>once_slots := (once_slots k)[slot := None]\<rparr>) s
      in case once_slots (sp_client s) ! slot of
           None \<Rightarrow> Some (Ret (), s1)
         | Some n \<Rightarrow>
             then_drop (run_unit R (handler_code code n event) s1)
               (\<lambda>s2. Some (Ret (), spec_drop_registration (Some rid) hid s2)))"

definition spec_call ::
  "('n, 'e, 'u) code \<Rightarrow> ('n, 'e, 'u, ('n, 'u) spec_state) runner \<Rightarrow> 'n stored \<Rightarrow> 'e \<Rightarrow> ('n, 'u, unit) sprog" where
  "spec_call code R h event s =
     (case h of
        Plain n \<Rightarrow> run_unit R (handler_code code n event) s
      | OnceClosure slot rid hid \<Rightarrow> spec_once_call code R slot rid hid event s
      | AsyncClosure n \<Rightarrow> None)"

definition spec_handle_panic ::
  "('n, 'e, 'u) code \<Rightarrow> ('n, 'e, 'u, ('n, 'u) spec_state) runner \<Rightarrow> nat \<Rightarrow> HandlerId \<Rightarrow> payload \<Rightarrow> ('n, 'u, unit) sprog" where
  "spec_handle_panic code R rid hid payload s =
     (let s1 = sp_with_client (set_reg rid ((sp_reg rid s)\<lparr>panics := panics (sp_reg rid s) + 1\<rparr>)) s
      in report_panic code R (panic_callback (sp_reg rid s1)) hid payload s1)"

definition spec_notify ::
  "('n, 'e, 'u) code \<Rightarrow> ('n, 'e, 'u, ('n, 'u) spec_state) runner \<Rightarrow> nat \<Rightarrow> 'e \<Rightarrow> ('n, 'u, unit) sprog" where
  "spec_notify code R rid event s =
     dispatch (\<lambda>h. spec_call code R h event) (spec_handle_panic code R rid) (sp_list (handlers (sp_reg rid s)) s) s"

section \<open>The asynchronous registry\<close>

definition spec_async_new :: "('n, 'u) spec_state \<Rightarrow> nat \<times> ('n, 'u) spec_state" where
  "spec_async_new s =
     (length (aregs (sp_client s)),
      sp_with_client (\<lambda>k. k\<lparr>aregs := aregs k @ [\<lparr>a_handlers = length (sp_lists s), a_id_generator = HandlerIdGenerator_new,
        a_panic_callback = None, a_reg_alive = True\<rparr>]\<rparr>) (s\<lparr>sp_lists := sp_lists s @ [[]]\<rparr>))"

definition spec_async_register :: "nat \<Rightarrow> i32 \<Rightarrow> 'n \<Rightarrow> ('n, 'u) spec_state \<Rightarrow> HandlerId \<times> ('n, 'u) spec_state" where
  "spec_async_register rid priority n s =
     (let (hid, g) = HandlerIdGenerator_next (a_id_generator (sp_areg rid s));
          s1 = sp_with_client (set_areg rid ((sp_areg rid s)\<lparr>a_id_generator := g\<rparr>)) s
      in (hid, sp_insert (a_handlers (sp_areg rid s1))
            \<lparr>entry_id = hid, entry_priority = priority, entry_handler = AsyncClosure n\<rparr> s1))"

definition spec_async_unregister :: "nat \<Rightarrow> HandlerId \<Rightarrow> ('n, 'u) spec_state \<Rightarrow> bool \<times> ('n, 'u) spec_state" where
  "spec_async_unregister rid hid s = sp_remove (a_handlers (sp_areg rid s)) hid s"

definition spec_async_drop_registration :: "nat option \<Rightarrow> HandlerId \<Rightarrow> ('n, 'u) spec_state \<Rightarrow> ('n, 'u) spec_state" where
  "spec_async_drop_registration r hid s =
     (case r of None \<Rightarrow> s | Some rid \<Rightarrow>
        if rid < length (aregs (sp_client s)) \<and> a_reg_alive (sp_areg rid s)
        then snd (spec_async_unregister rid hid s) else s)"

definition spec_async_handle_panic ::
  "('n, 'e, 'u) code \<Rightarrow> ('n, 'e, 'u, ('n, 'u) spec_state) runner \<Rightarrow> nat \<Rightarrow> HandlerId \<Rightarrow> payload \<Rightarrow> ('n, 'u, unit) sprog" where
  "spec_async_handle_panic code R rid hid payload s =
     report_panic code R (a_panic_callback (sp_areg rid s)) hid payload s"

text \<open>A dispatch that is not finished holds its place in the table of handles.\<close>

definition spec_drop_handle :: "nat \<Rightarrow> ('n, 'u) spec_state \<Rightarrow> ('n, 'u) spec_state option" where
  "spec_drop_handle h s =
     (if h < length (sp_handles s) \<and> sp_handles s ! h then Some (s\<lparr>sp_handles := (sp_handles s)[h := False]\<rparr>) else None)"

definition spec_start ::
  "(nat \<Rightarrow> 'n entry list \<Rightarrow> ('n, 'u, ('n, 'e) notify_future) sprog) \<Rightarrow> nat \<Rightarrow> ('n, 'u, ('n, 'e) notify_future) sprog" where
  "spec_start body rid s =
     (let list = sp_list (a_handlers (sp_areg rid s)) s;
          h = length (sp_handles s)
      in if not_empty list then list_scope (spec_drop_handle h) (body h list (s\<lparr>sp_handles := sp_handles s @ [True]\<rparr>))
         else Some (Ret NotifyFinished, s))"

definition spec_poll ::
  "('n, 'e, 'u) code \<Rightarrow> ('n, 'e, 'u, ('n, 'u) spec_state) runner \<Rightarrow> ('n, 'e) notify_future \<Rightarrow>
   ('n, 'u, ('n, 'e) notify_future) sprog" where
  "spec_poll code R fut s =
     (case fut of
        NotifyStart rid event \<Rightarrow>
          spec_start (\<lambda>h. notify_list code R (spec_async_handle_panic code R rid) rid h event) rid s
      | NotifyOne rid h only cu \<Rightarrow>
          list_scope (spec_drop_handle h) (poll_one code R (spec_async_handle_panic code R rid) rid h only cu s)
      | NotifyJoin rid h many sl running \<Rightarrow>
          list_scope (spec_drop_handle h) (poll_join code R (spec_async_handle_panic code R rid) rid h many sl running s)
      | SequentialStart rid event \<Rightarrow>
          spec_start (\<lambda>h. sequential_from code R (spec_async_handle_panic code R rid) rid h event) rid s
      | SequentialAt rid h event entry cu rest \<Rightarrow>
          list_scope (spec_drop_handle h)
            (sequential_resume code R (spec_async_handle_panic code R rid) rid h event entry cu rest s)
      | NotifyFinished \<Rightarrow> Some (Unwind (PStr ''`async fn` resumed after completion''), s))"

definition spec_cancel :: "('n, 'e) notify_future \<Rightarrow> ('n, 'u, unit) sprog" where
  "spec_cancel fut s =
     (case fut of
        NotifyOne rid h only cu \<Rightarrow> calmly (spec_drop_handle h s)
      | NotifyJoin rid h many sl running \<Rightarrow>
          (case drop_slots sl of
             Abort \<Rightarrow> Some (Abort, s)
           | out \<Rightarrow> map_option (\<lambda>s'. (out, s')) (spec_drop_handle h s))
      | SequentialAt rid h event entry cu rest \<Rightarrow> calmly (spec_drop_handle h s)
      | _ \<Rightarrow> Some (Ret (), s))"

section \<open>Programs\<close>

definition sp_on_sync :: "nat \<Rightarrow> ('n, 'u, 'a) sprog \<Rightarrow> ('n, 'u, 'a) sprog" where
  "sp_on_sync rid f s = (if rid < length (regs (sp_client s)) then f s else None)"

definition sp_on_async :: "nat \<Rightarrow> ('n, 'u, 'a) sprog \<Rightarrow> ('n, 'u, 'a) sprog" where
  "sp_on_async rid f s = (if rid < length (aregs (sp_client s)) then f s else None)"

definition spec_sync_op ::
  "('n, 'e, 'u) code \<Rightarrow> ('n, 'e, 'u, ('n, 'u) spec_state) runner \<Rightarrow> ('n, 'e) op \<Rightarrow> ('n, 'u, ('n, 'e) answer) sprog" where
  "spec_sync_op code R c s =
     (case c of
        SyncNew k \<Rightarrow> answer_with ARegistry (returning (Some (spec_new s)))
      | Register rid p n \<Rightarrow> sp_on_sync rid (\<lambda>s. answer_with AId (returning (Some (spec_register rid p n s)))) s
      | RegisterOnce rid n \<Rightarrow> sp_on_sync rid (\<lambda>s. answer_with AId (returning (Some (spec_register_once rid n s)))) s
      | RegisterGuard rid p n \<Rightarrow>
          sp_on_sync rid (\<lambda>s. answer_with (\<lambda>hid. AGuard (HandlerGuard_new hid (Some rid)))
            (returning (Some (spec_register rid p n s)))) s
      | GuardDrop g \<Rightarrow> Some (Ret AUnit, spec_drop_registration (guard_registry g) (guard_id g) s)
      | GuardForget g \<Rightarrow> Some (Ret (AGuard (HandlerGuard_forget g)), s)
      | Unregister rid i \<Rightarrow> sp_on_sync rid (\<lambda>s. answer_with ABool (returning (Some (spec_unregister rid i s)))) s
      | UnregisterAndWait rid i \<Rightarrow> sp_on_sync rid (\<lambda>s. answer_with ABool (returning (Some (spec_unregister rid i s)))) s
      | Clear rid \<Rightarrow> sp_on_sync rid (\<lambda>s. Some (Ret AUnit, sp_clear (handlers (sp_reg rid s)) s)) s
      | ClearAndWait rid \<Rightarrow> sp_on_sync rid (\<lambda>s. Some (Ret AUnit, sp_clear (handlers (sp_reg rid s)) s)) s
      | Contains rid i \<Rightarrow>
          sp_on_sync rid (\<lambda>s. Some (Ret (ABool (i \<in> set (ids (sp_list (handlers (sp_reg rid s)) s)))), s)) s
      | HandlerCount rid \<Rightarrow>
          sp_on_sync rid (\<lambda>s. Some (Ret (ACount (of_nat (length (sp_list (handlers (sp_reg rid s)) s)))), s)) s
      | IsEmpty rid \<Rightarrow>
          sp_on_sync rid (\<lambda>s. Some (Ret (ABool (\<not> not_empty (sp_list (handlers (sp_reg rid s)) s))), s)) s
      | PanicCount rid \<Rightarrow> sp_on_sync rid (\<lambda>s. Some (Ret (APanics (panics (sp_reg rid s))), s)) s
      | OnPanic rid n \<Rightarrow>
          sp_on_sync rid (\<lambda>s. Some (Ret AUnit, sp_with_client (set_reg rid ((sp_reg rid s)
            \<lparr>panic_callback := Some (PanicCallbackHolder_new (\<lambda>info. (n, info)))\<rparr>)) s)) s
      | ClearPanicCallback rid \<Rightarrow>
          sp_on_sync rid (\<lambda>s. Some (Ret AUnit, sp_with_client (set_reg rid ((sp_reg rid s)\<lparr>panic_callback := None\<rparr>)) s)) s
      | Notify rid e \<Rightarrow> sp_on_sync rid (\<lambda>s. answer_with (\<lambda>_. AUnit) (spec_notify code R rid e s)) s
      | _ \<Rightarrow> None)"

definition spec_async_op ::
  "('n, 'e, 'u) code \<Rightarrow> ('n, 'e, 'u, ('n, 'u) spec_state) runner \<Rightarrow> ('n, 'e) op \<Rightarrow> ('n, 'u, ('n, 'e) answer) sprog" where
  "spec_async_op code R c s =
     (case c of
        AsyncNew k \<Rightarrow> answer_with ARegistry (returning (Some (spec_async_new s)))
      | AsyncRegister rid p n \<Rightarrow> sp_on_async rid (\<lambda>s. answer_with AId (returning (Some (spec_async_register rid p n s)))) s
      | AsyncRegisterGuard rid p n \<Rightarrow>
          sp_on_async rid (\<lambda>s. answer_with (\<lambda>hid. AGuard (AsyncHandlerGuard_new hid (Some rid)))
            (returning (Some (spec_async_register rid p n s)))) s
      | AsyncGuardDrop g \<Rightarrow> Some (Ret AUnit, spec_async_drop_registration (guard_registry g) (guard_id g) s)
      | AsyncUnregister rid i \<Rightarrow> sp_on_async rid (\<lambda>s. answer_with ABool (returning (Some (spec_async_unregister rid i s)))) s
      | AsyncClear rid \<Rightarrow> sp_on_async rid (\<lambda>s. Some (Ret AUnit, sp_clear (a_handlers (sp_areg rid s)) s)) s
      | AsyncContains rid i \<Rightarrow>
          sp_on_async rid (\<lambda>s. Some (Ret (ABool (i \<in> set (ids (sp_list (a_handlers (sp_areg rid s)) s)))), s)) s
      | AsyncHandlerCount rid \<Rightarrow>
          sp_on_async rid (\<lambda>s. Some (Ret (ACount (of_nat (length (sp_list (a_handlers (sp_areg rid s)) s)))), s)) s
      | AsyncIsEmpty rid \<Rightarrow>
          sp_on_async rid (\<lambda>s. Some (Ret (ABool (\<not> not_empty (sp_list (a_handlers (sp_areg rid s)) s))), s)) s
      | AsyncOnPanic rid n \<Rightarrow>
          sp_on_async rid (\<lambda>s. Some (Ret AUnit, sp_with_client (set_areg rid ((sp_areg rid s)
            \<lparr>a_panic_callback := Some (PanicCallbackHolder_new (\<lambda>info. (n, info)))\<rparr>)) s)) s
      | AsyncClearPanicCallback rid \<Rightarrow>
          sp_on_async rid (\<lambda>s. Some (Ret AUnit, sp_with_client (set_areg rid ((sp_areg rid s)\<lparr>a_panic_callback := None\<rparr>)) s)) s
      | AsyncPoll f \<Rightarrow>
          (case future_registry f of
             None \<Rightarrow> answer_with APoll (spec_poll code R f s)
           | Some rid \<Rightarrow> sp_on_async rid (\<lambda>s. answer_with APoll (spec_poll code R f s)) s)
      | AsyncCancel f \<Rightarrow> answer_with (\<lambda>_. AUnit) (spec_cancel f s)
      | _ \<Rightarrow> None)"

definition spec_do_op ::
  "('n, 'e, 'u) code \<Rightarrow> ('n, 'e, 'u, ('n, 'u) spec_state) runner \<Rightarrow> ('n, 'e) op \<Rightarrow> ('n, 'u, ('n, 'e) answer) sprog" where
  "spec_do_op code R c s = (if is_async c then spec_async_op code R c s else spec_sync_op code R c s)"

definition spec_act_step ::
  "('n, 'e, 'u) code \<Rightarrow> ('n, 'e, 'u, ('n, 'u) spec_state) runner \<Rightarrow> (('n, 'e, 'u, 'r) act \<Rightarrow> ('n, 'u, 'r) sprog) \<Rightarrow>
   ('n, 'e, 'u, 'r) act \<Rightarrow> ('n, 'u, 'r) sprog" where
  "spec_act_step code R go a s =
     (case a of
        Done x \<Rightarrow> Some (Ret x, s)
      | Panic p \<Rightarrow> Some (Unwind p, s)
      | Ask k \<Rightarrow> go (k (user_state (sp_client s))) s
      | Change f a' \<Rightarrow> go a' (sp_with_client (\<lambda>k. k\<lparr>user_state := f (user_state k)\<rparr>) s)
      | Call c k \<Rightarrow> and_then (spec_do_op code R c s) (\<lambda>x. go (k x)))"

fun spec_unit :: "('n, 'e, 'u) code \<Rightarrow> nat \<Rightarrow> ('n, 'e, 'u, unit) act \<Rightarrow> ('n, 'u, unit) sprog"
and spec_build :: "('n, 'e, 'u) code \<Rightarrow> nat \<Rightarrow> ('n, 'e, 'u, 'n) act \<Rightarrow> ('n, 'u, 'n) sprog"
and spec_poll_act :: "('n, 'e, 'u) code \<Rightarrow> nat \<Rightarrow> ('n, 'e, 'u, 'n poll) act \<Rightarrow> ('n, 'u, 'n poll) sprog" where
  "spec_unit code 0 a s = None"
| "spec_unit code (Suc n) a s =
     spec_act_step code \<lparr>run_unit = spec_unit code n, run_build = spec_build code n, run_poll = spec_poll_act code n\<rparr>
       (spec_unit code n) a s"
| "spec_build code 0 a s = None"
| "spec_build code (Suc n) a s =
     spec_act_step code \<lparr>run_unit = spec_unit code n, run_build = spec_build code n, run_poll = spec_poll_act code n\<rparr>
       (spec_build code n) a s"
| "spec_poll_act code 0 a s = None"
| "spec_poll_act code (Suc n) a s =
     spec_act_step code \<lparr>run_unit = spec_unit code n, run_build = spec_build code n, run_poll = spec_poll_act code n\<rparr>
       (spec_poll_act code n) a s"

definition spec_exec :: "('n, 'e, 'u) code \<Rightarrow> nat \<Rightarrow> ('n, 'e, 'u, ('n, 'u) spec_state) runner" where
  "spec_exec code n = \<lparr>run_unit = spec_unit code n, run_build = spec_build code n, run_poll = spec_poll_act code n\<rparr>"

definition empty_spec :: "'u \<Rightarrow> ('n, 'u) spec_state" where
  "empty_spec u = \<lparr>sp_lists = [], sp_client = \<lparr>regs = [], aregs = [], once_slots = [], user_state = u\<rparr>, sp_handles = []\<rparr>"

definition spec_main :: "('n, 'e, 'u) code \<Rightarrow> nat \<Rightarrow> ('n, 'e, 'u, unit) act \<Rightarrow> 'u \<Rightarrow> (unit outcome \<times> 'u) option" where
  "spec_main code n a u =
     map_option (\<lambda>(out, s). (out, user_state (sp_client s))) (spec_unit code n a (empty_spec u))"

end
