(* ===== verification/Refine.thy ===== *)
theory Refine
  imports RegistrySpec
begin

text \<open>
  \<open>exec\<close> implements \<open>spec_exec\<close>. \<open>world_ok st w\<close> is the invariant of the running program's world inside the
  reads \<open>st\<close>: the cells satisfy their contract, every handle a dispatch owns is one of the
  handles given out, the lists are by descending priority, and registries own existing cells. \<open>view\<close>
  forgets the memory. \<open>sim st r r'\<close>: the results \<open>r\<close> of the code and \<open>r'\<close> of the specification agree, and the code
  keeps the invariant.
\<close>

section \<open>The invariant and the abstraction\<close>

definition live_arcs :: "('n, 'u) world \<Rightarrow> addr list" where
  "live_arcs w = List.map_filter id (arcs w)"

definition cells_in_range :: "nat \<Rightarrow> ('n, 'u) client \<Rightarrow> bool" where
  "cells_in_range n k \<longleftrightarrow> (\<forall>r\<in>set (regs k). handlers r < n) \<and> (\<forall>r\<in>set (aregs k). a_handlers r < n)"

definition world_ok :: "frame list \<Rightarrow> ('n, 'u) world \<Rightarrow> bool" where
  "world_ok st w \<longleftrightarrow> (\<exists>pl. cell_ok st pl w \<and> mset pl = mset (live_arcs w)) \<and> lists_ok (vals w) \<and>
     cells_in_range (length (vals w)) (client_state w)"

definition view :: "('n, 'u) world \<Rightarrow> ('n, 'u) spec_state" where
  "view w = \<lparr>sp_lists = vals w, sp_client = client_state w, sp_handles = map (\<lambda>x. \<not> Option.is_none x) (arcs w)\<rparr>"

lemma view_sel [simp]:
  "sp_lists (view w) = vals w" "sp_client (view w) = client_state w"
  "sp_handles (view w) = map (\<lambda>x. \<not> Option.is_none x) (arcs w)"
  by (simp_all add: view_def)

lemma more_eq_iff:
  "sys.more w' = sys.more w \<longleftrightarrow> client_state w' = client_state w \<and> arcs w' = arcs w" for w w' :: "('n, 'u) world"
  by (cases w; cases w') simp

definition sim :: "frame list \<Rightarrow> ('a outcome \<times> ('n, 'u) world) option \<Rightarrow> ('a outcome \<times> ('n, 'u) spec_state) option \<Rightarrow> bool" where
  "sim st r r' \<longleftrightarrow> r' = map_option (\<lambda>(out, w). (out, view w)) r \<and>
     (\<forall>out w. r = Some (out, w) \<longrightarrow> out \<noteq> Abort \<longrightarrow> world_ok st w)"

section \<open>Composition\<close>

lemma sim_None [simp]: "sim st None None"
  by (simp add: sim_def)

lemma sim_Some: "world_ok st w \<Longrightarrow> s = view w \<Longrightarrow> sim st (Some (out, w)) (Some (out, s))"
  by (simp add: sim_def)

lemma sim_eq: "sim st r r' \<Longrightarrow> r' = r'' \<Longrightarrow> sim st r r''"
  by simp

lemma sim_E:
  assumes "sim st r r'"
  obtains (stuck) "r = None" "r' = None"
  | (ret) x w where "r = Some (Ret x, w)" "r' = Some (Ret x, view w)" "world_ok st w"
  | (unwind) p w where "r = Some (Unwind p, w)" "r' = Some (Unwind p, view w)" "world_ok st w"
  | (abort) w where "r = Some (Abort, w)" "r' = Some (Abort, view w)"
proof (cases r)
  case None
  then show ?thesis using assms stuck by (simp add: sim_def)
next
  case (Some y)
  then obtain out w where "r = Some (out, w)" by (cases y) auto
  then show ?thesis using assms ret unwind abort by (cases out) (auto simp: sim_def)
qed

lemma sim_and_then:
  assumes "sim st r r'" "\<And>x w. world_ok st w \<Longrightarrow> sim st (f x w) (g x (view w))"
  shows "sim st (and_then r f) (and_then r' g)"
  using assms(1)
proof (rule sim_E)
  fix x w assume "r = Some (Ret x, w)" "r' = Some (Ret x, view w)" "world_ok st w"
  then show ?thesis using assms(2) [of w x] by (simp add: and_then_def)
qed (auto simp: and_then_def sim_def)

lemma sim_catch: "sim st r r' \<Longrightarrow> sim st (catch_unwind r) (catch_unwind r')"
  by (erule sim_E) (auto simp: catch_unwind_def sim_def)

lemma sim_then_drop:
  assumes "sim st r r'" "\<And>w. world_ok st w \<Longrightarrow> sim st (f w) (g (view w))"
  shows "sim st (then_drop r f) (then_drop r' g)"
  using assms(1)
proof (rule sim_E)
  fix p w assume w: "r = Some (Unwind p, w)" "r' = Some (Unwind p, view w)" "world_ok st w"
  from assms(2) [OF w(3)] show ?thesis by (rule sim_E) (use w in \<open>auto simp: then_drop_def sim_def\<close>)
next
  fix x w assume w: "r = Some (Ret x, w)" "r' = Some (Ret x, view w)" "world_ok st w"
  then show ?thesis using sim_and_then [OF assms(2) [OF w(3)], of "\<lambda>_ s'. Some (Ret x, s')" "\<lambda>_ s'. Some (Ret x, s')"]
    by (simp add: then_drop_def sim_Some)
qed (auto simp: then_drop_def sim_def)

lemma sim_answer: "sim st r r' \<Longrightarrow> sim st (answer_with f r) (answer_with f r')"
  unfolding answer_with_def by (rule sim_and_then) (auto intro: sim_Some)

lemma sim_answer_Ret: "sim st r (Some (Ret x, s)) \<Longrightarrow> sim st (answer_with f r) (Some (Ret (f x), s))"
  using sim_answer [of st r "Some (Ret x, s)" f] by (simp add: answer_with_def and_then_def)

lemma sim_answer_unit: "sim st r (Some (Ret (), s)) \<Longrightarrow> sim st (answer_with (\<lambda>_. y) r) (Some (Ret y, s))"
  by (rule sim_answer_Ret)

section \<open>Runners\<close>

text \<open>\<open>runs_alike n R R'\<close>: the two runners agree wherever \<open>n\<close> more reads fit on the stack.\<close>

definition runs_alike ::
  "nat \<Rightarrow> ('n, 'e, 'u, ('n, 'u) world) runner \<Rightarrow> ('n, 'e, 'u, ('n, 'u) spec_state) runner \<Rightarrow> bool" where
  "runs_alike n R R' \<longleftrightarrow> (\<forall>st w. world_ok st w \<longrightarrow> length st + n < 2 ^ 64 \<longrightarrow>
     (\<forall>a. sim st (run_unit R a w) (run_unit R' a (view w))) \<and>
     (\<forall>a. sim st (run_build R a w) (run_build R' a (view w))) \<and>
     (\<forall>a. sim st (run_poll R a w) (run_poll R' a (view w))))"

lemma runs_alikeD:
  assumes "runs_alike n R R'" "length st + n < 2 ^ 64" "world_ok st w"
  shows "sim st (run_unit R a w) (run_unit R' a (view w))" "sim st (run_build R b w) (run_build R' b (view w))"
    "sim st (run_poll R q w) (run_poll R' q (view w))"
  using assms by (auto simp: runs_alike_def)

section \<open>Changing the client's state\<close>

lemma view_with_client: "view (with_client f w) = sp_with_client f (view w)"
  using cell_ok_cong(2) [of "with_client f w" w] by (simp add: view_def with_client_def sp_with_client_def)

lemma vals_with_client [simp]: "vals (with_client f w) = vals w"
  by (rule cell_ok_cong(2)) (simp_all add: with_client_def)

lemma client_with_client [simp]: "client_state (with_client f w) = f (client_state w)" "arcs (with_client f w) = arcs w"
  by (simp_all add: with_client_def)

lemma world_ok_client:
  assumes "world_ok st w" "cells_in_range (length (vals w)) (f (client_state w))"
  shows "world_ok st (with_client f w)"
proof -
  have "cell_ok st pl (with_client f w) \<longleftrightarrow> cell_ok st pl w" for pl
    by (rule cell_ok_cong(1)) (simp_all add: with_client_def)
  then show ?thesis using assms by (simp add: world_ok_def live_arcs_def)
qed

lemma in_range_set_reg:
  assumes "cells_in_range n k" "handlers x = handlers (regs k ! rid)"
  shows "cells_in_range n (set_reg rid x k)"
proof (cases "rid < length (regs k)")
  case True
  then show ?thesis using assms nth_mem [OF True]
    by (auto simp: cells_in_range_def set_reg_def dest!: set_update_subset_insert [THEN subsetD])
qed (use assms in \<open>simp add: cells_in_range_def set_reg_def list_update_beyond\<close>)

lemma in_range_set_areg:
  assumes "cells_in_range n k" "a_handlers x = a_handlers (aregs k ! rid)"
  shows "cells_in_range n (set_areg rid x k)"
proof (cases "rid < length (aregs k)")
  case True
  then show ?thesis using assms nth_mem [OF True]
    by (auto simp: cells_in_range_def set_areg_def dest!: set_update_subset_insert [THEN subsetD])
qed (use assms in \<open>simp add: cells_in_range_def set_areg_def list_update_beyond\<close>)

lemma world_ok_range: "world_ok st w \<Longrightarrow> cells_in_range (length (vals w)) (client_state w)"
  by (simp add: world_ok_def)

lemma world_ok_set_reg:
  "world_ok st w \<Longrightarrow> handlers x = handlers (the_reg rid w) \<Longrightarrow> world_ok st (with_client (set_reg rid x) w)"
  by (intro world_ok_client in_range_set_reg world_ok_range) auto

lemma world_ok_set_areg:
  "world_ok st w \<Longrightarrow> a_handlers x = a_handlers (the_areg rid w) \<Longrightarrow> world_ok st (with_client (set_areg rid x) w)"
  by (intro world_ok_client in_range_set_areg world_ok_range) auto

lemma world_ok_other:
  assumes "world_ok st w" "regs (f (client_state w)) = regs (client_state w)" "aregs (f (client_state w)) = aregs (client_state w)"
  shows "world_ok st (with_client f w)"
  using assms by (intro world_ok_client) (auto simp: world_ok_def cells_in_range_def)

section \<open>Lists\<close>

lemma world_ok_new:
  assumes "world_ok st w" "SnapCell_new [] w = (c, w')"
  shows "world_ok st w'" "c = length (vals w)" "view w' = (view w)\<lparr>sp_lists := vals w @ [[]]\<rparr>"
    "client_state w' = client_state w" "vals w' = vals w @ [[]]"
proof -
  obtain pl where pl: "cell_ok st pl w" "mset pl = mset (live_arcs w)" using assms(1) by (auto simp: world_ok_def)
  note n = new_law [OF pl(1) assms(2)]
  then have m: "client_state w' = client_state w" "arcs w' = arcs w" by (auto simp: more_eq_iff)
  show "c = length (vals w)" "client_state w' = client_state w" "vals w' = vals w @ [[]]" using n m by simp_all
  show "view w' = (view w)\<lparr>sp_lists := vals w @ [[]]\<rparr>" using n m by (simp add: view_def)
  have "live_arcs w' = live_arcs w" using m by (simp add: live_arcs_def)
  then show "world_ok st w'" using assms(1) n(2,3) pl(2) m unfolding world_ok_def
    by (auto simp: lists_ok_def by_priority_def cells_in_range_def less_Suc_eq)
qed

lemma world_ok_upd:
  assumes "world_ok st w" "cell_ok st pl w'" "mset pl = mset (live_arcs w)" "sys.more w' = sys.more w"
    and "lists_ok (vals w')" "length (vals w') = length (vals w)"
  shows "world_ok st w'"
  using assms by (auto simp: world_ok_def more_eq_iff live_arcs_def)

lemma reg_cell:
  "world_ok st w \<Longrightarrow> rid < length (regs (client_state w)) \<Longrightarrow> handlers (the_reg rid w) < length (vals w)"
  "world_ok st w \<Longrightarrow> rid < length (aregs (client_state w)) \<Longrightarrow> a_handlers (the_areg rid w) < length (vals w)"
  by (auto simp: world_ok_def cells_in_range_def)

lemma insert_world:
  assumes ok: "world_ok st w" and c: "c < length (vals w)"
  obtains w' where "update c (insert_closure e) w = Some (Some (), w')" "world_ok st w'" "view w' = sp_insert c e (view w)"
    "client_state w' = client_state w"
proof -
  obtain pl where pl: "cell_ok st pl w" "mset pl = mset (live_arcs w)" "lists_ok (vals w)" using ok by (auto simp: world_ok_def)
  from hc.insert_list [OF pl(1) c pl(3), of e] obtain w' where
    1: "update c (insert_closure e) w = Some (Some (), w')" "cell_ok st pl w'" "sys.more w' = sys.more w" "lists_ok (vals w')"
      "vals w' = (vals w)[c := insert_entry e (vals w ! c)]"
    by blast
  show ?thesis
    by (rule that [OF 1(1) world_ok_upd [OF ok 1(2) pl(2) 1(3,4)]])
      (use 1(3,5) in \<open>simp_all add: sp_insert_def sp_set_list_def sp_list_def view_def more_eq_iff\<close>)
qed

lemma remove_world:
  assumes ok: "world_ok st w" and c: "c < length (vals w)"
  obtains r w' where "update c (remove_id_closure hid) w = Some (r, w')" "world_ok st w'"
    "sp_remove c hid (view w) = (r \<noteq> None, view w')" "client_state w' = client_state w"
proof -
  obtain pl where pl: "cell_ok st pl w" "mset pl = mset (live_arcs w)" "lists_ok (vals w)" using ok by (auto simp: world_ok_def)
  from hc.remove_list [OF pl(1) c pl(3), of hid] obtain w' where
    1: "update c (remove_id_closure hid) w = Some (if hid \<in> set (ids (vals w ! c)) then Some () else None, w')"
      "cell_ok st pl w'" "sys.more w' = sys.more w" "lists_ok (vals w')"
      "vals w' = (if hid \<in> set (ids (vals w ! c)) then (vals w)[c := remove_entry hid (vals w ! c)] else vals w)"
    by blast
  show ?thesis
    by (rule that [OF 1(1) world_ok_upd [OF ok 1(2) pl(2) 1(3,4)]])
      (use 1(3,5) in \<open>simp_all add: sp_remove_def sp_set_list_def sp_list_def view_def more_eq_iff\<close>)
qed

lemma clear_world:
  assumes ok: "world_ok st w" and c: "c < length (vals w)"
  obtains r w' where "update c remove_all_closure w = Some (r, w')" "world_ok st w'" "view w' = sp_clear c (view w)"
    "client_state w' = client_state w"
proof -
  obtain pl where pl: "cell_ok st pl w" "mset pl = mset (live_arcs w)" "lists_ok (vals w)" using ok by (auto simp: world_ok_def)
  from hc.clear_list [OF pl(1) c pl(3)] obtain w' where
    1: "update c remove_all_closure w = Some (if vals w ! c = [] then None else Some (), w')"
      "cell_ok st pl w'" "sys.more w' = sys.more w" "lists_ok (vals w')" "vals w' = (vals w)[c := []]"
    by blast
  show ?thesis
    by (rule that [OF 1(1) world_ok_upd [OF ok 1(2) pl(2) 1(3,4)]])
      (use 1(3,5) in \<open>simp_all add: sp_clear_def sp_set_list_def view_def more_eq_iff\<close>)
qed

lemma wait_world: "world_ok st w \<Longrightarrow> c < length (vals w) \<Longrightarrow> wait_for_retired_readers c w = Some w"
  using wait_law by (auto simp: world_ok_def)

section \<open>The synchronous registry\<close>

lemma sim_read:
  assumes ok: "world_ok st w" and c: "c < length (vals w)" and room: "length st + 1 < 2 ^ 64"
    and f: "\<And>fr w1. world_ok (fr # st) w1 \<Longrightarrow> sim (fr # st) (f (vals w ! c) w1) (g (view w1))"
  shows "sim st (read c f w) (g (view w))"
proof -
  obtain pl where pl: "cell_ok st pl w" "mset pl = mset (live_arcs w)" using ok by (auto simp: world_ok_def)
  obtain fr w1 where 1: "cell_ok (fr # st) pl w1" "vals w1 = vals w" "sys.more w1 = sys.more w"
    "f (vals w ! c) w1 = None \<longrightarrow> read c f w = None"
    "\<forall>w2. f (vals w ! c) w1 = Some (Abort, w2) \<longrightarrow> read c f w = Some (Abort, w2)"
    "\<forall>out w2 pl'. f (vals w ! c) w1 = Some (out, w2) \<and> out \<noteq> Abort \<and> cell_ok (fr # st) pl' w2 \<longrightarrow>
       (\<exists>w3. read c f w = Some (out, w3) \<and> cell_ok st pl' w3 \<and> vals w3 = vals w2 \<and> sys.more w3 = sys.more w2)"
    using vc.rd_law [OF pl(1) c room, of f] by (elim exE conjE) (rule that)
  have "world_ok (fr # st) w1" using ok 1(1-3) pl(2) by (auto simp: world_ok_def more_eq_iff live_arcs_def)
  then have s: "sim (fr # st) (f (vals w ! c) w1) (g (view w1))" by (rule f)
  have v: "view w1 = view w" using 1(2,3) by (simp add: view_def more_eq_iff)
  have fin: "sim st (read c f w) (g (view w))"
    if r: "f (vals w ! c) w1 = Some (out, w2)" "g (view w1) = Some (out, view w2)" "world_ok (fr # st) w2" "out \<noteq> Abort" for out w2
  proof -
    obtain pl' where "cell_ok (fr # st) pl' w2" "mset pl' = mset (live_arcs w2)" using r(3) by (auto simp: world_ok_def)
    with 1(6) r(1,4) obtain w3 where 3: "read c f w = Some (out, w3)" "cell_ok st pl' w3" "vals w3 = vals w2"
      "sys.more w3 = sys.more w2" "mset pl' = mset (live_arcs w2)" by blast
    then have "world_ok st w3" using r(3) by (auto simp: world_ok_def more_eq_iff live_arcs_def)
    moreover have "view w3 = view w2" using 3 by (simp add: view_def more_eq_iff)
    ultimately show ?thesis using 3(1) r(2) v by (simp add: sim_def)
  qed
  from s show ?thesis
  proof (rule sim_E)
    fix w2 assume "f (vals w ! c) w1 = Some (Abort, w2)" "g (view w1) = Some (Abort, view w2)"
    then show ?thesis using 1(5) v by (simp add: sim_def)
  next
    fix x w2 assume "f (vals w ! c) w1 = Some (Ret x, w2)" "g (view w1) = Some (Ret x, view w2)" "world_ok (fr # st) w2"
    then show ?thesis by (rule fin) simp
  next
    fix p w2 assume "f (vals w ! c) w1 = Some (Unwind p, w2)" "g (view w1) = Some (Unwind p, view w2)" "world_ok (fr # st) w2"
    then show ?thesis by (rule fin) simp
  qed (use 1(4) v in \<open>simp add: sim_def\<close>)
qed

lemma sim_query:
  assumes "world_ok st w" "c < length (vals w)" "length st + 1 < 2 ^ 64"
  shows "sim st (read c (look g) w) (Some (Ret (g (sp_list c (view w))), view w))"
  by (rule sim_read [OF assms, of "look g" "\<lambda>s. Some (Ret (g (sp_list c (view w))), s)"])
    (simp add: look_def sp_list_def sim_Some)

lemma sim_query_answer:
  assumes "world_ok st w" "c < length (vals w)" "length st + 1 < 2 ^ 64"
  shows "sim st (answer_with f (read c (look g) w)) (Some (Ret (f (g (sp_list c (view w)))), view w))"
  by (rule sim_answer_Ret [OF sim_query [OF assms]])

lemma sim_dispatch:
  assumes "\<And>h w. world_ok st w \<Longrightarrow> sim st (call h w) (call' h (view w))"
    and "\<And>i p w. world_ok st w \<Longrightarrow> sim st (hp i p w) (hp' i p (view w))"
    and "world_ok st w"
  shows "sim st (dispatch call hp es w) (dispatch call' hp' es (view w))"
  using assms(3)
proof (induction es arbitrary: w)
  case (Cons e es)
  then show ?case
    by (auto intro!: sim_and_then sim_catch assms(1,2) sim_Some split: sum.split)
qed (simp add: sim_Some)

lemma sim_report_panic:
  assumes R: "runs_alike n R R'" "length st + n < 2 ^ 64" and ok: "world_ok st w"
  shows "sim st (report_panic code R holder hid p w) (report_panic code R' holder hid p (view w))"
  unfolding report_panic_def
proof (rule sim_then_drop)
  show "sim st (case holder of None \<Rightarrow> Some (Ret (), w)
      | Some h \<Rightarrow> and_then (catch_unwind (invoke_callback code R h (PanicInfo_new hid p) w)) drop_caught)
    (case holder of None \<Rightarrow> Some (Ret (), view w)
      | Some h \<Rightarrow> and_then (catch_unwind (invoke_callback code R' h (PanicInfo_new hid p) (view w))) drop_caught)"
    using ok runs_alikeD(1) [OF R ok]
    by (auto simp: invoke_callback_def drop_caught_def intro!: sim_Some sim_and_then sim_catch split: option.split prod.split sum.split)
qed (simp add: sim_Some)

lemma sim_handle_panic:
  assumes R: "runs_alike n R R'" "length st + n < 2 ^ 64" and ok: "world_ok st w"
  shows "sim st (SyncRegistry_handle_panic code R rid hid p w) (spec_handle_panic code R' rid hid p (view w))"
proof -
  let ?f = "set_reg rid ((the_reg rid w)\<lparr>panics := panics (the_reg rid w) + 1\<rparr>)"
  have "world_ok st (with_client ?f w)" by (rule world_ok_set_reg [OF ok]) simp
  from sim_report_panic [OF R this] show ?thesis
    by (simp add: SyncRegistry_handle_panic_def spec_handle_panic_def Let_def view_with_client [symmetric])
qed

text \<open>Unregistering, and the destructors that do it.\<close>

lemma sim_unregister:
  assumes ok: "world_ok st w" and r: "rid < length (regs (client_state w))"
  obtains b w' where "SyncRegistry_unregister rid hid w = Some (b, w')" "world_ok st w'"
    "spec_unregister rid hid (view w) = (b, view w')" "client_state w' = client_state w"
  by (rule remove_world [OF ok reg_cell(1) [OF ok r], of hid])
    (auto simp: SyncRegistry_unregister_def SyncRegistry_remove_id_def spec_unregister_def intro: that)

lemma spec_upgrade_view: "spec_upgrade r (view w) = upgrade r w"
  by (cases r) (simp_all add: spec_upgrade_def upgrade_def)

lemma upgrade_Some: "upgrade r w = Some rid \<Longrightarrow> rid < length (regs (client_state w))"
  by (auto simp: upgrade_def split: option.splits if_splits)

lemma sim_guard_drop:
  assumes ok: "world_ok st w"
  obtains w' where "HandlerGuard_drop g w = Some w'" "world_ok st w'"
    "view w' = spec_drop_registration (guard_registry g) (guard_id g) (view w)"
proof (cases "upgrade (guard_registry g) w")
  case None
  then show ?thesis using ok by (intro that [of w]) (simp_all add: HandlerGuard_drop_def spec_drop_registration_def spec_upgrade_view)
next
  case (Some rid)
  show ?thesis
    by (rule sim_unregister [OF ok upgrade_Some [OF Some], of "guard_id g"])
      (use Some in \<open>auto simp: HandlerGuard_drop_def spec_drop_registration_def spec_upgrade_view intro: that\<close>)
qed

lemma remove_on_drop_guard:
  "RemoveOnDrop_drop rid hid w = calmly (HandlerGuard_drop \<lparr>guard_id = hid, guard_registry = Some rid\<rparr> w)"
  by (cases "upgrade (Some rid) w"; cases "SyncRegistry_unregister (the (upgrade (Some rid) w)) hid w")
    (auto simp: RemoveOnDrop_drop_def HandlerGuard_drop_def calmly_def)

lemma sim_remove_on_drop:
  assumes "world_ok st w"
  shows "sim st (RemoveOnDrop_drop rid hid w) (Some (Ret (), spec_drop_registration (Some rid) hid (view w)))"
  by (rule sim_guard_drop [OF assms, of "\<lparr>guard_id = hid, guard_registry = Some rid\<rparr>"])
    (simp add: remove_on_drop_guard calmly_def sim_Some)

lemma sim_call_stored:
  assumes R: "runs_alike n R R'" "length st + n < 2 ^ 64" and ok: "world_ok st w"
  shows "sim st (call_stored code R h e w) (spec_call code R' h e (view w))"
proof (cases h)
  case (OnceClosure slot rid hid)
  let ?f = "\<lambda>k. k\<lparr>once_slots := (once_slots k)[slot := None]\<rparr>"
  have ok': "world_ok st (with_client ?f w)" by (rule world_ok_other [OF ok]) simp_all
  show ?thesis
    using OnceClosure ok' runs_alikeD(1) [OF R ok']
    by (auto simp: call_stored_def spec_call_def once_call_def spec_once_call_def Let_def view_with_client [symmetric]
        intro!: sim_Some sim_then_drop sim_remove_on_drop split: option.split)
qed (use runs_alikeD(1) [OF R ok] in \<open>auto simp: call_stored_def spec_call_def\<close>)

lemma sim_notify:
  assumes R: "runs_alike n R R'" "length st + Suc n < 2 ^ 64" and ok: "world_ok st w" and r: "rid < length (regs (client_state w))"
  shows "sim st (SyncRegistry_notify code R rid e w) (spec_notify code R' rid e (view w))"
  unfolding SyncRegistry_notify_def spec_notify_def
proof (rule sim_read [OF ok reg_cell(1) [OF ok r], THEN back_subst [of "sim st _"]])
  show "length st + 1 < 2 ^ 64" using R(2) by simp
qed (use R in \<open>auto simp: sp_list_def intro!: sim_dispatch sim_call_stored [OF R(1)] sim_handle_panic [OF R(1)]\<close>)

text \<open>Calls that cannot unwind.\<close>

definition sim_calm :: "frame list \<Rightarrow> ('a \<times> ('n, 'u) world) option \<Rightarrow> 'a \<times> ('n, 'u) spec_state \<Rightarrow> bool" where
  "sim_calm st r r' \<longleftrightarrow> (\<exists>x w. r = Some (x, w) \<and> r' = (x, view w) \<and> world_ok st w)"

lemma sim_calmI: "r = Some (x, w) \<Longrightarrow> world_ok st w \<Longrightarrow> r' = (x, view w) \<Longrightarrow> sim_calm st r r'"
  by (auto simp: sim_calm_def)

lemma sim_returning: "sim_calm st r r' \<Longrightarrow> sim st (returning r) (returning (Some r'))"
  by (auto simp: sim_calm_def returning_def sim_Some)

lemma sim_answer_map:
  "sim_calm st r (map_prod g id r') \<Longrightarrow> sim st (answer_with f (returning r)) (answer_with (\<lambda>x. f (g x)) (returning (Some r')))"
  by (cases r') (auto simp: sim_calm_def returning_def answer_with_def and_then_def sim_Some)

lemma sim_with_capacity: "world_ok st w \<Longrightarrow> sim_calm st (Some (SyncRegistry_with_capacity k w)) (spec_new (view w))"
proof -
  assume ok: "world_ok st w"
  obtain c w1 where n: "SnapCell_new [] w = (c, w1)" by (cases "SnapCell_new [] w" rule: prod.exhaust)
  note 1 = world_ok_new [OF ok n]
  let ?r = "\<lparr>handlers = c, id_generator = HandlerIdGenerator_new, panic_callback = None, panics = 0, reg_alive = True\<rparr>"
  have "world_ok st (with_client (\<lambda>k. k\<lparr>regs := regs k @ [?r]\<rparr>) w1)"
    using world_ok_range [OF 1(1)] 1(2,5) by (intro world_ok_client [OF 1(1)]) (auto simp: cells_in_range_def)
  then show ?thesis using 1(2-4) n
    by (simp add: sim_calm_def SyncRegistry_with_capacity_def spec_new_def Let_def view_with_client)
qed

lemma sim_next_id:
  assumes ok: "world_ok st w"
  shows "spec_next_id rid (view w) = (fst (next_id rid w), view (snd (next_id rid w)))" "world_ok st (snd (next_id rid w))"
    "length (regs (client_state (snd (next_id rid w)))) = length (regs (client_state w))"
    "handlers (the_reg rid' (snd (next_id rid w))) = handlers (the_reg rid' w)"
proof -
  show "spec_next_id rid (view w) = (fst (next_id rid w), view (snd (next_id rid w)))"
    by (simp add: spec_next_id_def next_id_def split_beta view_with_client)
  show "world_ok st (snd (next_id rid w))" using ok by (simp add: next_id_def split_beta world_ok_set_reg)
  show "length (regs (client_state (snd (next_id rid w)))) = length (regs (client_state w))"
    by (simp add: next_id_def split_beta set_reg_def)
  show "handlers (the_reg rid' (snd (next_id rid w))) = handlers (the_reg rid' w)"
    by (cases "rid = rid'"; cases "rid < length (regs (client_state w))")
      (simp_all add: next_id_def split_beta set_reg_def list_update_beyond)
qed

lemma sim_insert:
  assumes ok: "world_ok st w" and r: "rid < length (regs (client_state w))"
  obtains w' where "SyncRegistry_insert rid e w = Some w'" "world_ok st w'"
    "view w' = sp_insert (handlers (the_reg rid w)) e (view w)"
  by (rule insert_world [OF ok reg_cell(1) [OF ok r], of e]) (auto simp: SyncRegistry_insert_def intro: that)

lemma sim_register:
  assumes ok: "world_ok st w" and r: "rid < length (regs (client_state w))"
  shows "sim_calm st (SyncRegistry_register_with_priority rid p n w) (spec_register rid p n (view w))"
proof -
  note i = sim_next_id [OF ok]
  let ?e = "\<lparr>entry_id = fst (next_id rid w), entry_priority = p, entry_handler = Plain n\<rparr>"
  obtain w' where "SyncRegistry_insert rid ?e (snd (next_id rid w)) = Some w'" "world_ok st w'"
    "view w' = sp_insert (handlers (the_reg rid (snd (next_id rid w)))) ?e (view (snd (next_id rid w)))"
    by (rule sim_insert [OF i(2)]) (use i(3) r in auto)
  then show ?thesis
    by (simp add: sim_calm_def SyncRegistry_register_with_priority_def spec_register_def i(1) split_beta)
qed

lemma sim_register_once:
  assumes ok: "world_ok st w" and r: "rid < length (regs (client_state w))"
  shows "sim_calm st (SyncRegistry_register_once rid n w) (spec_register_once rid n (view w))"
proof -
  note i = sim_next_id [OF ok]
  let ?w1 = "snd (next_id rid w)"
  let ?w2 = "with_client (\<lambda>k. k\<lparr>once_slots := once_slots k @ [Some n]\<rparr>) ?w1"
  let ?e = "\<lparr>entry_id = fst (next_id rid w), entry_priority = 0,
    entry_handler = OnceClosure (length (once_slots (client_state ?w1))) rid (fst (next_id rid w))\<rparr>"
  have "world_ok st ?w2" by (rule world_ok_other [OF i(2)]) simp_all
  then obtain w' where "SyncRegistry_insert rid ?e ?w2 = Some w'" "world_ok st w'"
    "view w' = sp_insert (handlers (the_reg rid ?w2)) ?e (view ?w2)"
    by (rule sim_insert) (use i(3) r in auto)
  then show ?thesis
    by (simp add: sim_calm_def SyncRegistry_register_once_def spec_register_once_def i(1) split_beta Let_def
        view_with_client [symmetric])
qed

lemma sim_register_guard:
  assumes "world_ok st w" "rid < length (regs (client_state w))"
  shows "sim_calm st (SyncRegistry_register_guard_with_priority rid p n w)
    (map_prod (\<lambda>hid. HandlerGuard_new hid (Some rid)) id (spec_register rid p n (view w)))"
  using sim_register [OF assms, of p n]
  by (auto simp: sim_calm_def SyncRegistry_register_guard_with_priority_def)

lemma sim_unregister_calm:
  assumes "world_ok st w" "rid < length (regs (client_state w))"
  shows "sim_calm st (SyncRegistry_unregister rid hid w) (spec_unregister rid hid (view w))"
  by (rule sim_unregister [OF assms, of hid]) (auto simp: sim_calm_def)

lemma sim_unregister_and_wait:
  assumes ok: "world_ok st w" and r: "rid < length (regs (client_state w))"
  shows "sim_calm st (SyncRegistry_unregister_and_wait rid hid w) (spec_unregister rid hid (view w))"
proof (rule sim_unregister [OF assms, of hid])
  fix b w' assume "SyncRegistry_unregister rid hid w = Some (b, w')" "world_ok st w'"
    "spec_unregister rid hid (view w) = (b, view w')" "client_state w' = client_state w"
  then show ?thesis using wait_world [of st w' "handlers (the_reg rid w')"] reg_cell(1) [of st w' rid] r
    by (auto simp: sim_calm_def SyncRegistry_unregister_and_wait_def SyncRegistry_unregister_def)
qed

lemma sim_clear:
  assumes ok: "world_ok st w" and r: "rid < length (regs (client_state w))"
  shows "sim st (calmly (SyncRegistry_clear rid w)) (Some (Ret (), sp_clear (handlers (the_reg rid w)) (view w)))"
    and "sim st (calmly (SyncRegistry_clear_and_wait rid w)) (Some (Ret (), sp_clear (handlers (the_reg rid w)) (view w)))"
proof -
  obtain b w' where 1: "update (handlers (the_reg rid w)) remove_all_closure w = Some (b, w')" "world_ok st w'"
    "view w' = sp_clear (handlers (the_reg rid w)) (view w)" "client_state w' = client_state w"
    by (rule clear_world [OF ok reg_cell(1) [OF ok r]])
  then show "sim st (calmly (SyncRegistry_clear rid w)) (Some (Ret (), sp_clear (handlers (the_reg rid w)) (view w)))"
    by (auto simp: SyncRegistry_clear_def SyncRegistry_remove_all_def calmly_def intro: sim_Some)
  show "sim st (calmly (SyncRegistry_clear_and_wait rid w)) (Some (Ret (), sp_clear (handlers (the_reg rid w)) (view w)))"
    using 1 wait_world [OF 1(2), of "handlers (the_reg rid w')"] reg_cell(1) [OF 1(2), of rid] r
    by (auto simp: SyncRegistry_clear_and_wait_def SyncRegistry_remove_all_def calmly_def intro: sim_Some)
qed

lemma sim_on_sync:
  assumes "world_ok st w" "rid < length (regs (client_state w)) \<Longrightarrow> sim st (f w) (g (view w))"
  shows "sim st (on_sync rid f w) (sp_on_sync rid g (view w))"
  using assms by (simp add: on_sync_def sp_on_sync_def)

lemma is_empty_closure: "(\<lambda>l. case l of [] \<Rightarrow> True | _ # _ \<Rightarrow> False) = (\<lambda>l. \<not> not_empty l)"
  by (auto simp: not_empty_def split: list.split)

lemma sim_sync_op:
  assumes R: "runs_alike n R R'" "length st + Suc n < 2 ^ 64" and ok: "world_ok st w"
  shows "sim st (sync_op code R c w) (spec_sync_op code R' c (view w))"
proof (cases c)
  case (SyncNew k)
  then show ?thesis using sim_answer [OF sim_returning [OF sim_with_capacity [OF ok]]] by (simp add: sync_op_def spec_sync_op_def)
next
  case (Register rid p n)
  then show ?thesis by (simp add: sync_op_def spec_sync_op_def sim_on_sync [OF ok] sim_answer sim_returning sim_register [OF ok])
next
  case (RegisterOnce rid n)
  then show ?thesis by (simp add: sync_op_def spec_sync_op_def sim_on_sync [OF ok] sim_answer sim_returning sim_register_once [OF ok])
next
  case (RegisterGuard rid p n)
  then show ?thesis
    by (simp add: sync_op_def spec_sync_op_def sim_on_sync [OF ok] sim_answer_map [OF sim_register_guard [OF ok]])
next
  case (GuardDrop g)
  show ?thesis
    by (rule sim_guard_drop [OF ok, of g])
      (use GuardDrop in \<open>auto simp: sync_op_def spec_sync_op_def calmly_def answer_with_def and_then_def intro: sim_Some\<close>)
next
  case (GuardForget g)
  then show ?thesis using ok by (simp add: sync_op_def spec_sync_op_def sim_Some)
next
  case (Unregister rid i)
  then show ?thesis by (simp add: sync_op_def spec_sync_op_def sim_on_sync [OF ok] sim_answer sim_returning sim_unregister_calm [OF ok])
next
  case (UnregisterAndWait rid i)
  then show ?thesis by (simp add: sync_op_def spec_sync_op_def sim_on_sync [OF ok] sim_answer sim_returning sim_unregister_and_wait [OF ok])
next
  case (Clear rid)
  then show ?thesis
    by (simp add: sync_op_def spec_sync_op_def sim_on_sync [OF ok] sim_answer_unit [OF sim_clear(1) [OF ok]])
next
  case (ClearAndWait rid)
  then show ?thesis
    by (simp add: sync_op_def spec_sync_op_def sim_on_sync [OF ok] sim_answer_unit [OF sim_clear(2) [OF ok]])
next
  case (Contains rid i)
  show ?thesis using R(2)
    by (simp add: Contains sync_op_def spec_sync_op_def SyncRegistry_contains_def contains_closure_iff [symmetric])
      (intro sim_on_sync sim_query_answer [THEN sim_eq] ok reg_cell(1) [OF ok], simp_all)
next
  case (HandlerCount rid)
  show ?thesis using R(2)
    by (simp add: HandlerCount sync_op_def spec_sync_op_def SyncRegistry_handler_count_def)
      (intro sim_on_sync sim_query_answer [THEN sim_eq] ok reg_cell(1) [OF ok], simp_all)
next
  case (IsEmpty rid)
  show ?thesis using R(2)
    by (simp add: IsEmpty sync_op_def spec_sync_op_def SyncRegistry_is_empty_def is_empty_closure)
      (intro sim_on_sync sim_query_answer [THEN sim_eq] ok reg_cell(1) [OF ok], simp_all)
next
  case (PanicCount rid)
  then show ?thesis using ok by (simp add: sync_op_def spec_sync_op_def sim_on_sync SyncRegistry_panic_count_def sim_Some)
next
  case (OnPanic rid n)
  then show ?thesis using ok
    by (simp add: sync_op_def spec_sync_op_def sim_on_sync SyncRegistry_on_panic_def sim_Some world_ok_set_reg view_with_client)
next
  case (ClearPanicCallback rid)
  then show ?thesis using ok
    by (simp add: sync_op_def spec_sync_op_def sim_on_sync SyncRegistry_clear_panic_callback_def sim_Some world_ok_set_reg view_with_client)
next
  case (Notify rid e)
  then show ?thesis by (simp add: sync_op_def spec_sync_op_def sim_on_sync [OF ok] sim_answer sim_notify [OF R ok])
qed (simp_all add: sync_op_def spec_sync_op_def)

end
