(* ===== verification/RefineAsync.thy ===== *)
theory RefineAsync
  imports Refine
begin

text \<open>
  The asynchronous half of the refinement, and its conclusion. The loops of \<^verbatim>\<open>FutureExt\<close> are the same
  functions on both sides, so each simulation lemma says that they keep related worlds related; the registry's own part
  is the handle on the list, which a dispatch takes when it is first polled and gives back when it ends.
  \<open>exec_refines\<close> then follows by induction on the fuel.
\<close>

section \<open>Handles\<close>

lemma mset_filter_update:
  "h < length xs \<Longrightarrow> xs ! h = Some a \<Longrightarrow>
   mset (List.map_filter id xs) = add_mset a (mset (List.map_filter id (xs[h := None])))"
proof (induction xs arbitrary: h)
  case (Cons x xs)
  then show ?case by (cases h; cases x) (auto simp: List.map_filter_simps)
qed simp

lemma world_arcs_cong:
  fixes w :: "('n, 'u) world"
  shows "cell_ok st pl (w\<lparr>arcs := x\<rparr>) \<longleftrightarrow> cell_ok st pl w" "vals (w\<lparr>arcs := x\<rparr>) = vals w"
  by (rule cell_ok_cong; simp)+

lemma drop_handle_world:
  assumes ok: "world_ok st w"
  shows "drop_handle h w = None \<and> spec_drop_handle h (view w) = None \<or>
    (\<exists>w'. drop_handle h w = Some w' \<and> world_ok st w' \<and> spec_drop_handle h (view w) = Some (view w'))"
proof (cases "h < length (arcs w) \<and> arcs w ! h \<noteq> None")
  case True
  then obtain a where h: "h < length (arcs w)" and a: "arcs w ! h = Some a" by auto
  obtain pl where pl: "cell_ok st pl w" "mset pl = mset (live_arcs w)" using ok by (auto simp: world_ok_def)
  note m = mset_filter_update [OF h a]
  have "a \<in># mset pl" using m pl(2) by (simp add: live_arcs_def)
  then have "a \<in> set pl" by simp
  then obtain w1 where 1: "arc_drop a w = Some w1" "cell_ok st (remove1 a pl) w1" "same_view w w1" by (rule drop_law [OF pl(1)])
  then have v: "vals w1 = vals w" "client_state w1 = client_state w" "arcs w1 = arcs w" by (simp_all add: same_view_def more_eq_iff)
  let ?w = "w1\<lparr>arcs := (arcs w1)[h := None]\<rparr>"
  have "mset (remove1 a pl) = mset (live_arcs ?w)" using m pl(2) v by (simp add: live_arcs_def)
  then have "world_ok st ?w" using ok 1(2) v unfolding world_ok_def by (auto simp: world_arcs_cong)
  moreover have "spec_drop_handle h (view w) = Some (view ?w)" using h a v
    by (simp add: spec_drop_handle_def view_def world_arcs_cong map_update)
  moreover have "drop_handle h w = Some ?w" using h a 1(1) by (simp add: drop_handle_def)
  ultimately show ?thesis by blast
next
  case False
  then show ?thesis by (auto simp: drop_handle_def spec_drop_handle_def)
qed

lemma load_world:
  assumes ok: "world_ok st w" and c: "c < length (vals w)"
  obtains (none) w1 where "\<not> keep (vals w ! c)" "load_arc_if c keep w = Some (None, w1)" "world_ok st w1" "view w1 = view w"
  | (some) a w1 where "keep (vals w ! c)" "load_arc_if c keep w = Some (Some a, w1)" "deref a w1 = Some (vals w ! c)"
      "world_ok st (snd (keep_handle a w1))" "view (snd (keep_handle a w1)) = (view w)\<lparr>sp_handles := sp_handles (view w) @ [True]\<rparr>"
      "fst (keep_handle a w1) = length (sp_handles (view w))"
proof -
  obtain pl where pl: "cell_ok st pl w" "mset pl = mset (live_arcs w)" using ok by (auto simp: world_ok_def)
  from load_law [OF pl(1) c, of keep] obtain w1 where 1: "same_view w w1" and
    2: "if keep (vals w ! c)
     then \<exists>a. load_arc_if c keep w = Some (Some a, w1) \<and> deref a w1 = Some (vals w ! c) \<and> cell_ok st (a # pl) w1
     else load_arc_if c keep w = Some (None, w1) \<and> cell_ok st pl w1" by blast
  have v: "vals w1 = vals w" "client_state w1 = client_state w" "arcs w1 = arcs w" using 1 by (simp_all add: same_view_def more_eq_iff)
  show ?thesis
  proof (cases "keep (vals w ! c)")
    case True
    then obtain a where a: "load_arc_if c keep w = Some (Some a, w1)" "deref a w1 = Some (vals w ! c)" "cell_ok st (a # pl) w1"
      using 2 by auto
    let ?w = "snd (keep_handle a w1)"
    have "mset (a # pl) = mset (live_arcs ?w)" using pl(2) v
      by (simp add: live_arcs_def keep_handle_def List.map_filter_def)
    moreover have "cell_ok st (a # pl) ?w" using a(3) by (simp add: keep_handle_def world_arcs_cong)
    ultimately have "world_ok st ?w" using ok v unfolding world_ok_def by (auto simp: keep_handle_def world_arcs_cong)
    then show ?thesis using True a v by (intro some [of a w1]) (simp_all add: keep_handle_def view_def world_arcs_cong)
  next
    case False
    then have "world_ok st w1" using 2 ok pl(2) v unfolding world_ok_def by (auto simp: live_arcs_def)
    then show ?thesis using False 2 v by (intro none [of w1]) (simp_all add: view_def)
  qed
qed

lemma sim_list_scope:
  assumes "sim st r r'"
  shows "sim st (list_scope (drop_handle h) r) (list_scope (spec_drop_handle h) r')"
  using assms
proof (rule sim_E)
  fix x w assume w: "r = Some (Ret x, w)" "r' = Some (Ret x, view w)" "world_ok st w"
  then show ?thesis using drop_handle_world [OF w(3), of h]
    by (cases x) (auto simp: list_scope_def intro: sim_Some)
next
  fix p w assume w: "r = Some (Unwind p, w)" "r' = Some (Unwind p, view w)" "world_ok st w"
  then show ?thesis using drop_handle_world [OF w(3), of h] by (auto simp: list_scope_def intro: sim_Some)
qed (auto simp: list_scope_def sim_def)

section \<open>The loops\<close>

lemma sim_unwind_drop: "sim st r r' \<Longrightarrow> sim st (unwind_drop sl r) (unwind_drop sl r')"
  by (erule sim_E) (auto simp: unwind_drop_def sim_def split: outcome.splits)

lemma sim_finished: "sim st r r' \<Longrightarrow> sim st (finished r) (finished r')"
  unfolding finished_def by (rule sim_and_then) (auto intro: sim_Some)

definition reports_alike where
  "reports_alike st hp hp' \<longleftrightarrow> (\<forall>i p w. world_ok st w \<longrightarrow> sim st (hp i p w) (hp' i p (view w)))"

lemma reports_alikeD: "reports_alike st hp hp' \<Longrightarrow> world_ok st w \<Longrightarrow> sim st (hp i p w) (hp' i p (view w))"
  by (simp add: reports_alike_def)

lemma sim_finish_entry:
  "reports_alike st hp hp' \<Longrightarrow> world_ok st w \<Longrightarrow> sim st (finish_entry hp e out w) (finish_entry hp' e out (view w))"
  by (cases out) (simp_all add: finish_entry_def sim_Some reports_alikeD)

lemma sim_finish_slots:
  assumes "reports_alike st hp hp'" "world_ok st w"
  shows "sim st (finish_slots hp es w) (finish_slots hp' es (view w))"
  using assms(2)
proof (induction es arbitrary: w)
  case (Cons x es)
  then show ?case
    by (cases x; cases "snd x") (auto intro!: sim_and_then sim_unwind_drop reports_alikeD [OF assms(1)])
qed (simp add: sim_Some)

lemma sim_start_entry:
  assumes R: "runs_alike n R R'" "length st + n < 2 ^ 64" and ok: "world_ok st w"
  shows "sim st (start_entry code R e en w) (start_entry code R' e en (view w))"
  by (cases "entry_handler en") (simp_all add: start_entry_def start_future_def sim_catch runs_alikeD(2) [OF R ok])

lemma sim_poll_caught:
  assumes R: "runs_alike n R R'" "length st + n < 2 ^ 64" and ok: "world_ok st w"
  shows "sim st (poll_caught code R fut w) (poll_caught code R' fut (view w))"
  unfolding poll_caught_def by (intro sim_and_then sim_catch runs_alikeD(3) [OF R ok]) (auto intro: sim_Some)

lemma sim_catch_poll:
  assumes R: "runs_alike n R R'" "length st + n < 2 ^ 64" and ok: "world_ok st w"
  shows "sim st (CatchUnwind_poll code R cu w) (CatchUnwind_poll code R' cu (view w))"
  unfolding CatchUnwind_poll_def
  by (cases "inner cu") (auto intro!: sim_and_then sim_poll_caught [OF R ok] sim_Some [OF ok] intro: sim_Some)

lemma sim_slot_poll:
  assumes R: "runs_alike n R R'" "length st + n < 2 ^ 64" and ok: "world_ok st w"
  shows "sim st (Slot_poll code R sl w) (Slot_poll code R' sl (view w))"
  unfolding Slot_poll_def
  by (cases sl) (auto intro!: sim_and_then sim_poll_caught [OF R ok] sim_Some [OF ok] intro: sim_Some)

lemma sim_poll_one:
  assumes R: "runs_alike n R R'" "length st + n < 2 ^ 64" and hp: "reports_alike st hp hp'" and ok: "world_ok st w"
  shows "sim st (poll_one code R hp rid h only cu w) (poll_one code R' hp' rid h only cu (view w))"
  unfolding poll_one_def
  by (intro sim_and_then sim_catch_poll [OF R ok])
    (auto intro!: sim_finished sim_finish_entry [OF hp] sim_Some split: option.split)

lemma sim_start_slots:
  assumes R: "runs_alike n R R'" "length st + n < 2 ^ 64" and ok: "world_ok st w"
  shows "sim st (start_slots code R e es w) (start_slots code R' e es (view w))"
  using ok
proof (induction es arbitrary: w)
  case (Cons x es)
  then show ?case by (auto intro!: sim_and_then sim_start_entry [OF R] sim_Some)
qed (simp add: sim_Some)

lemma sim_poll_slots:
  assumes R: "runs_alike n R R'" "length st + n < 2 ^ 64" and ok: "world_ok st w"
  shows "sim st (poll_slots code R sl k w) (poll_slots code R' sl k (view w))"
  using ok
proof (induction sl arbitrary: k w)
  case (Cons x sl)
  then show ?case by (auto intro!: sim_and_then sim_slot_poll [OF R] sim_Some)
qed (simp add: sim_Some)

lemma sim_poll_join:
  assumes R: "runs_alike n R R'" "length st + n < 2 ^ 64" and hp: "reports_alike st hp hp'" and ok: "world_ok st w"
  shows "sim st (poll_join code R hp rid h many sl k w) (poll_join code R' hp' rid h many sl k (view w))"
  unfolding poll_join_def
  by (intro sim_and_then sim_poll_slots [OF R ok])
    (auto intro!: sim_finished sim_finish_slots [OF hp] sim_Some)

lemma sim_notify_list:
  assumes R: "runs_alike n R R'" "length st + n < 2 ^ 64" and hp: "reports_alike st hp hp'" and ok: "world_ok st w"
  shows "sim st (notify_list code R hp rid h e es w) (notify_list code R' hp' rid h e es (view w))"
proof (cases es)
  case Nil
  then show ?thesis using ok by (simp add: notify_list_def sim_Some)
next
  case (Cons x xs)
  show ?thesis
  proof (cases xs)
    case Nil
    show ?thesis unfolding notify_list_def Cons Nil list.case
      by (intro sim_and_then sim_start_entry [OF R ok])
        (auto intro!: sim_poll_one [OF R hp] sim_finished sim_finish_entry [OF hp] split: sum.split)
  next
    case (Cons y ys)
    show ?thesis unfolding notify_list_def \<open>es = x # xs\<close> Cons list.case
      by (intro sim_and_then sim_start_slots [OF R ok] sim_poll_join [OF R hp])
  qed
qed

lemma sim_sequential_from:
  assumes R: "runs_alike n R R'" "length st + n < 2 ^ 64" and hp: "reports_alike st hp hp'" and ok: "world_ok st w"
  shows "sim st (sequential_from code R hp rid h e es w) (sequential_from code R' hp' rid h e es (view w))"
  using ok
proof (induction es arbitrary: w)
  case (Cons x es)
  then show ?case unfolding sequential_from.simps
    by (auto intro!: sim_and_then sim_start_entry [OF R] sim_catch_poll [OF R] sim_finish_entry [OF hp] sim_Some
        split: sum.split option.split)
qed (simp add: sim_Some)

lemma sim_sequential_resume:
  assumes R: "runs_alike n R R'" "length st + n < 2 ^ 64" and hp: "reports_alike st hp hp'" and ok: "world_ok st w"
  shows "sim st (sequential_resume code R hp rid h e en cu es w) (sequential_resume code R' hp' rid h e en cu es (view w))"
  unfolding sequential_resume_def
  by (intro sim_and_then sim_catch_poll [OF R ok])
    (auto intro!: sim_and_then sim_sequential_from [OF R hp] sim_finish_entry [OF hp] sim_Some split: option.split)

section \<open>The asynchronous registry\<close>

lemma sim_async_handle_panic:
  "runs_alike n R R' \<Longrightarrow> length st + n < 2 ^ 64 \<Longrightarrow>
   reports_alike st (AsyncRegistry_handle_panic code R rid) (spec_async_handle_panic code R' rid)"
  by (simp add: reports_alike_def AsyncRegistry_handle_panic_def spec_async_handle_panic_def sim_report_panic)

text \<open>The first poll of either dispatch: \<open>body\<close> is what follows once the list is loaded.\<close>

definition start_dispatch ::
  "(nat \<Rightarrow> 'n entry list \<Rightarrow> ('n, 'u, ('n, 'e) notify_future) wprog) \<Rightarrow> nat \<Rightarrow> ('n, 'u, ('n, 'e) notify_future) wprog" where
  "start_dispatch body rid w = do {
     (r, w1) \<leftarrow> load_arc_if (a_handlers (the_areg rid w)) not_empty w;
     case r of
       None \<Rightarrow> Some (Ret NotifyFinished, w1)
     | Some a \<Rightarrow> do {
         let (h, w2) = keep_handle a w1;
         list \<leftarrow> deref a w2;
         list_scope (drop_handle h) (body h list w2) } }"

lemma deref_arcs [simp]: "deref a (w\<lparr>arcs := x\<rparr>) = deref a w" for w :: "('n, 'u) world"
  by (simp add: deref_def)

lemma sim_start:
  assumes ok: "world_ok st w" and r: "rid < length (aregs (client_state w))"
    and body: "\<And>h list w. world_ok st w \<Longrightarrow> sim st (body h list w) (body' h list (view w))"
  shows "sim st (start_dispatch body rid w) (spec_start body' rid (view w))"
proof (rule load_world [OF ok reg_cell(2) [OF ok r], of not_empty])
  fix w1 assume "\<not> not_empty (vals w ! a_handlers (the_areg rid w))"
    "load_arc_if (a_handlers (the_areg rid w)) not_empty w = Some (None, w1)" "world_ok st w1" "view w1 = view w"
  then show ?thesis by (simp add: start_dispatch_def spec_start_def Let_def sp_list_def sim_Some)
next
  fix a w1
  assume 1: "not_empty (vals w ! a_handlers (the_areg rid w))"
    "load_arc_if (a_handlers (the_areg rid w)) not_empty w = Some (Some a, w1)"
    "deref a w1 = Some (vals w ! a_handlers (the_areg rid w))"
    and 2: "world_ok st (snd (keep_handle a w1))"
    "view (snd (keep_handle a w1)) = (view w)\<lparr>sp_handles := sp_handles (view w) @ [True]\<rparr>"
    and 3: "fst (keep_handle a w1) = length (sp_handles (view w))"
  have "deref a (snd (keep_handle a w1)) = deref a w1" by (simp add: keep_handle_def)
  then show ?thesis using 1 3
      sim_list_scope [OF body [OF 2(1), of "length (sp_handles (view w))" "vals w ! a_handlers (the_areg rid w)"],
        of "length (sp_handles (view w))"]
    by (simp add: start_dispatch_def spec_start_def Let_def sp_list_def 2(2) split_beta)
qed

lemma sim_notify_poll:
  assumes R: "runs_alike n R R'" "length st + n < 2 ^ 64" and ok: "world_ok st w"
    and r: "\<And>rid. future_registry f = Some rid \<Longrightarrow> rid < length (aregs (client_state w))"
  shows "sim st (notify_poll code R f w) (spec_poll code R' f (view w))"
proof (cases f)
  case (NotifyStart rid e)
  have "notify_poll code R f w =
    start_dispatch (\<lambda>h. notify_list code R (AsyncRegistry_handle_panic code R rid) rid h e) rid w"
    by (simp add: NotifyStart notify_poll_def AsyncRegistry_notify_def start_dispatch_def)
  moreover have "sim st \<dots> (spec_poll code R' f (view w))"
    unfolding NotifyStart spec_poll_def notify_future.case
    by (rule sim_start [OF ok]) (use r NotifyStart in \<open>auto intro: sim_notify_list [OF R sim_async_handle_panic [OF R]]\<close>)
  ultimately show ?thesis by simp
next
  case (SequentialStart rid e)
  have "notify_poll code R f w =
    start_dispatch (\<lambda>h. sequential_from code R (AsyncRegistry_handle_panic code R rid) rid h e) rid w"
    by (simp add: SequentialStart notify_poll_def AsyncRegistry_notify_sequential_def start_dispatch_def)
  moreover have "sim st \<dots> (spec_poll code R' f (view w))"
    unfolding SequentialStart spec_poll_def notify_future.case
    by (rule sim_start [OF ok]) (use r SequentialStart in \<open>auto intro: sim_sequential_from [OF R sim_async_handle_panic [OF R]]\<close>)
  ultimately show ?thesis by simp
qed (auto simp: notify_poll_def spec_poll_def intro!: sim_list_scope sim_poll_one [OF R] sim_poll_join [OF R]
    sim_sequential_resume [OF R] sim_async_handle_panic [OF R] sim_Some ok)

lemma sim_cancel:
  assumes ok: "world_ok st w"
  shows "sim st (notify_cancel f w) (spec_cancel f (view w))"
proof -
  have d: "sim st (map_option (\<lambda>w'. (out, w')) (drop_handle h w)) (map_option (\<lambda>s'. (out, s')) (spec_drop_handle h (view w)))"
    for h and out :: "unit outcome"
    using drop_handle_world [OF ok, of h] by (auto intro: sim_Some)
  have "sim st (calmly (drop_handle h w)) (calmly (spec_drop_handle h (view w)))" for h using d by (simp add: calmly_def)
  then show ?thesis using ok d
    by (cases f) (auto simp: notify_cancel_def spec_cancel_def intro: sim_Some split: outcome.split)
qed

lemma sim_async_with_capacity:
  "world_ok st w \<Longrightarrow> sim_calm st (Some (AsyncRegistry_with_capacity k w)) (spec_async_new (view w))"
proof -
  assume ok: "world_ok st w"
  obtain c w1 where n: "SnapCell_new [] w = (c, w1)" by (cases "SnapCell_new [] w" rule: prod.exhaust)
  note 1 = world_ok_new [OF ok n]
  let ?r = "\<lparr>a_handlers = c, a_id_generator = HandlerIdGenerator_new, a_panic_callback = None, a_reg_alive = True\<rparr>"
  have "world_ok st (with_client (\<lambda>k. k\<lparr>aregs := aregs k @ [?r]\<rparr>) w1)"
    using world_ok_range [OF 1(1)] 1(2,5) by (intro world_ok_client [OF 1(1)]) (auto simp: cells_in_range_def)
  then show ?thesis using 1(2-4) n
    by (simp add: sim_calm_def AsyncRegistry_with_capacity_def spec_async_new_def Let_def view_with_client)
qed

lemma sim_async_register:
  assumes ok: "world_ok st w" and r: "rid < length (aregs (client_state w))"
  shows "sim_calm st (AsyncRegistry_register_with_priority rid p n w) (spec_async_register rid p n (view w))"
proof -
  obtain hid g where g: "HandlerIdGenerator_next (a_id_generator (the_areg rid w)) = (hid, g)" by fastforce
  let ?f = "set_areg rid ((the_areg rid w)\<lparr>a_id_generator := g\<rparr>)"
  let ?e = "\<lparr>entry_id = hid, entry_priority = p, entry_handler = AsyncClosure n\<rparr>"
  have 1: "world_ok st (with_client ?f w)" by (rule world_ok_set_areg [OF ok]) simp
  have "rid < length (aregs (client_state (with_client ?f w)))" using r by (simp add: set_areg_def)
  from insert_world [OF 1 reg_cell(2) [OF 1 this], of ?e] obtain w' where
    "update (a_handlers (the_areg rid (with_client ?f w))) (insert_closure ?e) (with_client ?f w) = Some (Some (), w')"
    "world_ok st w'" "view w' = sp_insert (a_handlers (the_areg rid (with_client ?f w))) ?e (view (with_client ?f w))" by blast
  then show ?thesis using g
    by (simp add: sim_calm_def AsyncRegistry_register_with_priority_def spec_async_register_def view_with_client [symmetric])
qed

lemma sim_async_register_guard:
  assumes "world_ok st w" "rid < length (aregs (client_state w))"
  shows "sim_calm st (AsyncRegistry_register_guard_with_priority rid p n w)
    (map_prod (\<lambda>hid. AsyncHandlerGuard_new hid (Some rid)) id (spec_async_register rid p n (view w)))"
  using sim_async_register [OF assms, of p n]
  by (auto simp: sim_calm_def AsyncRegistry_register_guard_with_priority_def)

lemma sim_async_unregister:
  assumes ok: "world_ok st w" and r: "rid < length (aregs (client_state w))"
  shows "sim_calm st (AsyncRegistry_unregister rid hid w) (spec_async_unregister rid hid (view w))"
  by (rule remove_world [OF ok reg_cell(2) [OF ok r], of hid])
    (auto simp: sim_calm_def AsyncRegistry_unregister_def AsyncRegistry_remove_id_def spec_async_unregister_def)

lemma sim_async_guard_drop:
  assumes ok: "world_ok st w"
  shows "sim st (calmly (AsyncHandlerGuard_drop g w))
    (Some (Ret (), spec_async_drop_registration (guard_registry g) (guard_id g) (view w)))"
proof (cases "a_upgrade (guard_registry g) w")
  case None
  then show ?thesis using ok
    by (auto simp: AsyncHandlerGuard_drop_def a_upgrade_def spec_async_drop_registration_def calmly_def intro: sim_Some
        split: option.splits if_splits)
next
  case (Some rid)
  then have "guard_registry g = Some rid" "rid < length (aregs (client_state w))" "a_reg_alive (the_areg rid w)"
    by (auto simp: a_upgrade_def split: option.splits if_splits)
  then show ?thesis using Some sim_async_unregister [OF ok, of rid "guard_id g"]
    by (auto simp: AsyncHandlerGuard_drop_def spec_async_drop_registration_def calmly_def sim_calm_def intro: sim_Some)
qed

lemma sim_async_clear:
  assumes ok: "world_ok st w" and r: "rid < length (aregs (client_state w))"
  shows "sim st (calmly (AsyncRegistry_clear rid w)) (Some (Ret (), sp_clear (a_handlers (the_areg rid w)) (view w)))"
  by (rule clear_world [OF ok reg_cell(2) [OF ok r]])
    (auto simp: AsyncRegistry_clear_def AsyncRegistry_remove_all_def calmly_def intro: sim_Some)

lemma sim_on_async:
  assumes "world_ok st w" "rid < length (aregs (client_state w)) \<Longrightarrow> sim st (f w) (g (view w))"
  shows "sim st (on_async rid f w) (sp_on_async rid g (view w))"
  using assms by (simp add: on_async_def sp_on_async_def)

lemma sim_async_op:
  assumes R: "runs_alike n R R'" "length st + Suc n < 2 ^ 64" and ok: "world_ok st w"
  shows "sim st (async_op code R c w) (spec_async_op code R' c (view w))"
proof (cases c)
  case (AsyncNew k)
  then show ?thesis using sim_answer [OF sim_returning [OF sim_async_with_capacity [OF ok]]]
    by (simp add: async_op_def spec_async_op_def)
next
  case (AsyncRegister rid p n)
  then show ?thesis
    by (simp add: async_op_def spec_async_op_def sim_on_async [OF ok] sim_answer sim_returning sim_async_register [OF ok])
next
  case (AsyncRegisterGuard rid p n)
  then show ?thesis
    by (simp add: async_op_def spec_async_op_def sim_on_async [OF ok] sim_answer_map [OF sim_async_register_guard [OF ok]])
next
  case (AsyncGuardDrop g)
  then show ?thesis by (simp add: async_op_def spec_async_op_def sim_answer_unit [OF sim_async_guard_drop [OF ok]])
next
  case (AsyncUnregister rid i)
  then show ?thesis
    by (simp add: async_op_def spec_async_op_def sim_on_async [OF ok] sim_answer sim_returning sim_async_unregister [OF ok])
next
  case (AsyncClear rid)
  then show ?thesis
    by (simp add: async_op_def spec_async_op_def sim_on_async [OF ok] sim_answer_unit [OF sim_async_clear [OF ok]])
next
  case (AsyncContains rid i)
  show ?thesis using R(2)
    by (simp add: AsyncContains async_op_def spec_async_op_def AsyncRegistry_contains_def contains_closure_iff [symmetric])
      (intro sim_on_async sim_query_answer [THEN sim_eq] ok reg_cell(2) [OF ok], simp_all)
next
  case (AsyncHandlerCount rid)
  show ?thesis using R(2)
    by (simp add: AsyncHandlerCount async_op_def spec_async_op_def AsyncRegistry_handler_count_def)
      (intro sim_on_async sim_query_answer [THEN sim_eq] ok reg_cell(2) [OF ok], simp_all)
next
  case (AsyncIsEmpty rid)
  show ?thesis using R(2)
    by (simp add: AsyncIsEmpty async_op_def spec_async_op_def AsyncRegistry_is_empty_def is_empty_closure)
      (intro sim_on_async sim_query_answer [THEN sim_eq] ok reg_cell(2) [OF ok], simp_all)
next
  case (AsyncOnPanic rid n)
  then show ?thesis using ok
    by (simp add: async_op_def spec_async_op_def sim_on_async AsyncRegistry_on_panic_def sim_Some world_ok_set_areg view_with_client)
next
  case (AsyncClearPanicCallback rid)
  then show ?thesis using ok
    by (simp add: async_op_def spec_async_op_def sim_on_async AsyncRegistry_clear_panic_callback_def sim_Some world_ok_set_areg
        view_with_client)
next
  case (AsyncPoll f)
  have "length st + n < 2 ^ 64" using R(2) by simp
  note p = sim_notify_poll [OF R(1) this ok, of f]
  show ?thesis
    by (cases "future_registry f")
      (use p in \<open>simp_all add: AsyncPoll async_op_def spec_async_op_def sim_answer sim_on_async [OF ok]\<close>)
next
  case (AsyncCancel f)
  then show ?thesis by (simp add: async_op_def spec_async_op_def sim_answer sim_cancel [OF ok])
qed (simp_all add: async_op_def spec_async_op_def)

section \<open>Programs\<close>

lemma sim_do_op:
  assumes "runs_alike n R R'" "length st + Suc n < 2 ^ 64" "world_ok st w"
  shows "sim st (do_op code R c w) (spec_do_op code R' c (view w))"
  using assms by (simp add: do_op_def spec_do_op_def sim_sync_op sim_async_op)

lemma sim_act_step:
  assumes R: "runs_alike n R R'" "length st + Suc n < 2 ^ 64" and ok: "world_ok st w"
    and go: "\<And>a w. world_ok st w \<Longrightarrow> sim st (go a w) (go' a (view w))"
  shows "sim st (act_step code R go a w) (spec_act_step code R' go' a (view w))"
proof (cases a)
  case (Change f a')
  have "world_ok st (with_client (\<lambda>k. k\<lparr>user_state := f (user_state k)\<rparr>) w)" by (rule world_ok_other [OF ok]) simp_all
  from go [OF this] Change show ?thesis by (simp add: act_step_def spec_act_step_def view_with_client)
qed (use ok go in \<open>auto simp: act_step_def spec_act_step_def intro!: sim_Some sim_and_then sim_do_op [OF R]\<close>)

lemma exec_Suc:
  "run_unit (exec code (Suc n)) = act_step code (exec code n) (run_unit (exec code n))"
  "run_build (exec code (Suc n)) = act_step code (exec code n) (run_build (exec code n))"
  "run_poll (exec code (Suc n)) = act_step code (exec code n) (run_poll (exec code n))"
  "run_unit (spec_exec code (Suc n)) = spec_act_step code (spec_exec code n) (run_unit (spec_exec code n))"
  "run_build (spec_exec code (Suc n)) = spec_act_step code (spec_exec code n) (run_build (spec_exec code n))"
  "run_poll (spec_exec code (Suc n)) = spec_act_step code (spec_exec code n) (run_poll (spec_exec code n))"
  by (simp_all add: exec_def spec_exec_def fun_eq_iff)

lemma exec_alike: "runs_alike n (exec code n) (spec_exec code n)"
proof (induction n)
  case 0
  then show ?case by (simp add: runs_alike_def exec_def spec_exec_def)
next
  case (Suc n)
  have "sim st (run_unit (exec code (Suc n)) a w) (run_unit (spec_exec code (Suc n)) a (view w))"
    "sim st (run_build (exec code (Suc n)) b w) (run_build (spec_exec code (Suc n)) b (view w))"
    "sim st (run_poll (exec code (Suc n)) q w) (run_poll (spec_exec code (Suc n)) q (view w))"
    if "world_ok st w" "length st + Suc n < 2 ^ 64" for st w a b q
    unfolding exec_Suc by (rule sim_act_step [OF Suc that(2,1)]; rule runs_alikeD [OF Suc]; use that in simp)+
  then show ?case unfolding runs_alike_def by blast
qed

lemma empty_world_ok:
  "world_ok [] (empty_world u :: ('n, 'u) world)" "view (empty_world u :: ('n, 'u) world) = empty_spec u"
proof -
  let ?w = "empty_world u :: ('n, 'u) world"
  have 1: "cell_ok [] [] ?w" "vals ?w = []" by (rule start_ok; simp add: empty_world_def)+
  have 2: "client_state ?w = \<lparr>regs = [], aregs = [], once_slots = [], user_state = u\<rparr>" "arcs ?w = []"
    by (simp_all add: empty_world_def)
  show "world_ok [] ?w" using 1 2
    by (auto simp: world_ok_def live_arcs_def lists_ok_def cells_in_range_def List.map_filter_simps intro!: exI [of _ "[]"])
  show "view ?w = empty_spec u" using 1 2 by (simp add: view_def empty_spec_def)
qed

lemma main_sim:
  assumes "n < 2 ^ 64"
  shows "sim [] (exec_unit code n a (empty_world u)) (spec_unit code n a (empty_spec u))"
proof -
  have "sim [] (run_unit (exec code n) a (empty_world u)) (run_unit (spec_exec code n) a (view (empty_world u)))"
    by (rule runs_alikeD(1) [OF exec_alike _ empty_world_ok(1)]) (use assms in simp)
  then show ?thesis by (simp add: empty_world_ok(2) exec_def spec_exec_def)
qed

lemma main_refines: "n < 2 ^ 64 \<Longrightarrow> run_main code n a u = spec_main code n a u"
  by (drule main_sim [of n code a u])
    (auto simp: sim_def run_main_def spec_main_def option.map_comp comp_def intro!: option.map_cong)

end
