(* ===== verification/Behaviour.thy ===== *)
theory Behaviour
  imports RefineAsync
begin

text \<open>
  What the synchronous registry does for its users, for every world a program can reach. Handlers that only
  use their own state have a behaviour of their own (\<open>user_run\<close>), so a dispatch over such handlers has a closed form:
  \<open>deliver\<close> walks the list once, in order, collects the panics, and hands each to the callback.
\<close>

section \<open>Bodies that do not call the library\<close>

fun user_run :: "nat \<Rightarrow> ('n, 'e, 'u, 'r) act \<Rightarrow> 'u \<Rightarrow> ('r outcome \<times> 'u) option" where
  "user_run 0 a u = None"
| "user_run (Suc d) a u =
     (case a of
        Done x \<Rightarrow> Some (Ret x, u)
      | Panic p \<Rightarrow> Some (Unwind p, u)
      | Ask k \<Rightarrow> user_run d (k u) u
      | Change f a' \<Rightarrow> user_run d a' (f u)
      | Call c k \<Rightarrow> None)"

definition sp_set_user :: "'u \<Rightarrow> ('n, 'u) spec_state \<Rightarrow> ('n, 'u) spec_state" where
  "sp_set_user u s = sp_with_client (\<lambda>k. k\<lparr>user_state := u\<rparr>) s"

lemma sp_set_user_sel [simp]:
  "sp_lists (sp_set_user u s) = sp_lists s" "sp_handles (sp_set_user u s) = sp_handles s"
  "regs (sp_client (sp_set_user u s)) = regs (sp_client s)" "aregs (sp_client (sp_set_user u s)) = aregs (sp_client s)"
  "once_slots (sp_client (sp_set_user u s)) = once_slots (sp_client s)" "user_state (sp_client (sp_set_user u s)) = u"
  by (simp_all add: sp_set_user_def sp_with_client_def)

lemma sp_set_user_set_user [simp]: "sp_set_user u (sp_set_user v s) = sp_set_user u s"
  by (simp add: sp_set_user_def sp_with_client_def)

lemma sp_set_user_same [simp]: "user_state (sp_client s) = u \<Longrightarrow> sp_set_user u s = s"
  by (auto simp: sp_set_user_def sp_with_client_def)

lemma sp_change_user:
  "sp_with_client (\<lambda>k. k\<lparr>user_state := f (user_state k)\<rparr>) s = sp_set_user (f (user_state (sp_client s))) s"
  by (simp add: sp_set_user_def sp_with_client_def)

lemma user_run_step:
  assumes F: "\<And>m a s. F (Suc m) a s = spec_act_step code (R m) (F m) a s"
  shows "user_run d a (user_state (sp_client s)) = Some (out, u') \<Longrightarrow> d \<le> m \<Longrightarrow> F m a s = Some (out, sp_set_user u' s)"
proof (induction d arbitrary: a s m)
  case (Suc d)
  then obtain m' where m: "m = Suc m'" "d \<le> m'" by (cases m) auto
  show ?case
  proof (cases a)
    case (Change f a')
    have "F m' a' (sp_set_user (f (user_state (sp_client s))) s) = Some (out, sp_set_user u' (sp_set_user (f (user_state (sp_client s))) s))"
      by (rule Suc.IH) (use Suc.prems Change m in auto)
    then show ?thesis using Change m by (simp add: F spec_act_step_def sp_change_user)
  qed (use Suc m in \<open>auto simp: F spec_act_step_def\<close>)
qed simp

lemma user_run_spec:
  "user_run d a (user_state (sp_client s)) = Some (out, u') \<Longrightarrow> d \<le> m \<Longrightarrow> spec_unit code m a s = Some (out, sp_set_user u' s)"
  "user_run d b (user_state (sp_client s)) = Some (outb, u') \<Longrightarrow> d \<le> m \<Longrightarrow> spec_build code m b s = Some (outb, sp_set_user u' s)"
  "user_run d q (user_state (sp_client s)) = Some (outq, u') \<Longrightarrow> d \<le> m \<Longrightarrow> spec_poll_act code m q s = Some (outq, sp_set_user u' s)"
  by (rule user_run_step [where R = "spec_exec code"]; simp add: spec_exec_def)+

section \<open>A dispatch over such handlers\<close>

text \<open>What the panic callback makes of one panic; its own panic is swallowed.\<close>

definition user_report ::
  "nat \<Rightarrow> ('n, 'e, 'u) code \<Rightarrow> ('n \<times> PanicInfo) PanicCallbackHolder option \<Rightarrow> PanicInfo \<Rightarrow> 'u \<Rightarrow> 'u option" where
  "user_report d code holder info u =
     (case holder of
        None \<Rightarrow> Some u
      | Some h \<Rightarrow>
          (case PanicCallbackHolder_invoke h info of (n, i) \<Rightarrow>
             (case user_run d (callback_code code n i) u of
                Some (Ret _, u') \<Rightarrow> Some u'
              | Some (Unwind q, u') \<Rightarrow> if quiet q then Some u' else None
              | _ \<Rightarrow> None)))"

text \<open>The number of panics and the user's state after the walk; \<open>None\<close> if a body is of another kind.\<close>

fun deliver ::
  "nat \<Rightarrow> ('n, 'e, 'u) code \<Rightarrow> ('n \<times> PanicInfo) PanicCallbackHolder option \<Rightarrow> 'e \<Rightarrow> 'n entry list \<Rightarrow> 'u \<Rightarrow> (nat \<times> 'u) option" where
  "deliver d code holder ev [] u = Some (0, u)"
| "deliver d code holder ev (entry # rest) u =
     (case entry_handler entry of
        Plain n \<Rightarrow>
          (case user_run d (handler_code code n ev) u of
             Some (Ret _, u1) \<Rightarrow> deliver d code holder ev rest u1
           | Some (Unwind p, u1) \<Rightarrow>
               if quiet p then do {
                 u2 \<leftarrow> user_report d code holder (PanicInfo_new (entry_id entry) p) u1;
                 (k, u3) \<leftarrow> deliver d code holder ev rest u2;
                 Some (Suc k, u3) }
               else None
           | _ \<Rightarrow> None)
      | _ \<Rightarrow> None)"

definition sp_add_panics :: "nat \<Rightarrow> nat \<Rightarrow> ('n, 'u) spec_state \<Rightarrow> ('n, 'u) spec_state" where
  "sp_add_panics rid k s =
     sp_with_client (set_reg rid ((sp_reg rid s)\<lparr>panics := panics (sp_reg rid s) + of_nat k\<rparr>)) s"

lemma sp_add_panics_sel [simp]:
  "sp_lists (sp_add_panics rid k s) = sp_lists s" "user_state (sp_client (sp_add_panics rid k s)) = user_state (sp_client s)"
  "length (regs (sp_client (sp_add_panics rid k s))) = length (regs (sp_client s))"
  by (simp_all add: sp_add_panics_def sp_with_client_def set_reg_def)

lemma sp_reg_add_panics [simp]:
  "rid < length (regs (sp_client s)) \<Longrightarrow>
   sp_reg rid (sp_add_panics rid k s) = (sp_reg rid s)\<lparr>panics := panics (sp_reg rid s) + of_nat k\<rparr>"
  by (simp add: sp_add_panics_def sp_with_client_def set_reg_def)

lemma sp_add_panics_0 [simp]: "sp_add_panics rid 0 s = s"
  by (simp add: sp_add_panics_def sp_with_client_def set_reg_def)

lemma sp_add_panics_add:
  "rid < length (regs (sp_client s)) \<Longrightarrow>
   sp_add_panics rid k (sp_set_user u (sp_add_panics rid j s)) = sp_set_user u (sp_add_panics rid (j + k) s)"
  by (simp add: sp_add_panics_def sp_set_user_def sp_with_client_def set_reg_def algebra_simps)

lemma sp_add_panics_user: "sp_add_panics rid k (sp_set_user u s) = sp_set_user u (sp_add_panics rid k s)"
  by (simp add: sp_add_panics_def sp_set_user_def sp_with_client_def set_reg_def)

lemma sp_add_panics_Suc:
  "rid < length (regs (sp_client s)) \<Longrightarrow> sp_add_panics rid 1 (sp_add_panics rid k s) = sp_add_panics rid (Suc k) s"
  by (simp add: sp_add_panics_def sp_with_client_def set_reg_def algebra_simps)

text \<open>The payload is dropped last, so its destructor decides how the report ends.\<close>

lemma spec_report_user:
  assumes "user_report d code holder (PanicInfo_new hid p) (user_state (sp_client s)) = Some u'" "d \<le> m"
  shows "report_panic code (spec_exec code m) holder hid p s = Some (drop_payload p, sp_set_user u' s)"
proof (cases holder)
  case None
  then show ?thesis using assms
    by (cases "drop_payload p") (auto simp: report_panic_def user_report_def then_drop_def and_then_def)
next
  case (Some h)
  obtain n i where ni: "PanicCallbackHolder_invoke h (PanicInfo_new hid p) = (n, i)" by fastforce
  obtain out where r: "user_run d (callback_code code n i) (user_state (sp_client s)) = Some (out, u')"
    and o: "out = Ret () \<or> (\<exists>q. out = Unwind q \<and> quiet q)"
    using assms(1) Some ni by (auto simp: user_report_def split: option.splits outcome.splits if_splits)
  show ?thesis using o user_run_spec(1) [OF r assms(2)] Some ni
    by (cases "drop_payload p")
      (auto simp: report_panic_def invoke_callback_def spec_exec_def catch_unwind_def and_then_def drop_caught_def then_drop_def quiet_def)
qed

lemma spec_handle_panic_user:
  assumes "user_report d code (panic_callback (sp_reg rid s)) (PanicInfo_new hid p) (user_state (sp_client s)) = Some u'"
    "d \<le> m" "rid < length (regs (sp_client s))"
  shows "spec_handle_panic code (spec_exec code m) rid hid p s = Some (drop_payload p, sp_set_user u' (sp_add_panics rid 1 s))"
proof -
  have s: "sp_with_client (set_reg rid ((sp_reg rid s)\<lparr>panics := panics (sp_reg rid s) + 1\<rparr>)) s = sp_add_panics rid 1 s"
    by (simp add: sp_add_panics_def)
  show ?thesis unfolding spec_handle_panic_def Let_def s
    by (rule spec_report_user) (use assms in auto)
qed

lemma spec_dispatch_user:
  assumes "deliver d code (panic_callback (sp_reg rid s)) ev es (user_state (sp_client s)) = Some (k, u')" "d \<le> m"
    "rid < length (regs (sp_client s))"
  shows "dispatch (\<lambda>h. spec_call code (spec_exec code m) h ev) (spec_handle_panic code (spec_exec code m) rid) es s =
    Some (Ret (), sp_set_user u' (sp_add_panics rid k s))"
  using assms
proof (induction es arbitrary: s k u')
  case (Cons e es)
  let ?u = "user_state (sp_client s)"
  obtain n where n: "entry_handler e = Plain n" using Cons.prems(1) by (auto split: stored.splits)
  obtain out u1 where r: "user_run d (handler_code code n ev) ?u = Some (out, u1)" and o: "out \<noteq> Abort"
    using Cons.prems(1) n by (auto split: option.splits outcome.splits)
  have c: "spec_call code (spec_exec code m) (entry_handler e) ev s = Some (out, sp_set_user u1 s)"
    using user_run_spec(1) [OF r Cons.prems(2)] n by (simp add: spec_call_def spec_exec_def)
  show ?case
  proof (cases out)
    case (Ret x)
    then have "deliver d code (panic_callback (sp_reg rid s)) ev es u1 = Some (k, u')" using Cons.prems(1) n r by simp
    then show ?thesis using Cons.IH [of "sp_set_user u1 s" k u'] Cons.prems c Ret
      by (simp add: catch_unwind_def and_then_def sp_add_panics_user)
  next
    case (Unwind p)
    then obtain u2 k' where q: "quiet p"
      and u2: "user_report d code (panic_callback (sp_reg rid s)) (PanicInfo_new (entry_id e) p) u1 = Some u2"
      and rest: "deliver d code (panic_callback (sp_reg rid s)) ev es u2 = Some (k', u')" and k: "k = Suc k'"
      using Cons.prems(1) n r by (auto split: if_splits bind_splits)
    have "spec_handle_panic code (spec_exec code m) rid (entry_id e) p (sp_set_user u1 s) =
        Some (Ret (), sp_set_user u2 (sp_add_panics rid 1 s))"
      using spec_handle_panic_user [of d code "sp_set_user u1 s" rid "entry_id e" p u2 m] u2 q Cons.prems
      by (simp add: sp_add_panics_user quiet_def)
    moreover have "dispatch (\<lambda>h. spec_call code (spec_exec code m) h ev) (spec_handle_panic code (spec_exec code m) rid) es
        (sp_set_user u2 (sp_add_panics rid 1 s)) = Some (Ret (), sp_set_user u' (sp_add_panics rid k s))"
      using Cons.IH [of "sp_set_user u2 (sp_add_panics rid 1 s)" k' u'] rest Cons.prems k
      by (simp add: sp_add_panics_add)
    ultimately show ?thesis using c Unwind by (simp add: catch_unwind_def and_then_def)
  qed (use o in simp)
qed simp

end
