(* ===== verification/SyncTheorems.thy ===== *)
theory SyncTheorems
  imports Behaviour
begin

text \<open>
  The properties of the synchronous registry, stated on the code's own functions in any world a
  program can reach (\<open>world_ok\<close>), inside any depth \<open>st\<close> of running dispatches. \<open>handler_list rid w\<close> is what the
  registry's cell holds.
\<close>

section \<open>Reachable worlds\<close>

definition handler_list :: "nat \<Rightarrow> ('n, 'u) world \<Rightarrow> 'n entry list" where
  "handler_list rid w = vals w ! handlers (the_reg rid w)"

lemma handler_list_view: "sp_list (handlers (sp_reg rid (view w))) (view w) = handler_list rid w"
  by (simp add: handler_list_def sp_list_def)

lemma handler_list_ok:
  "world_ok st w \<Longrightarrow> rid < length (regs (client_state w)) \<Longrightarrow> by_priority (handler_list rid w)"
  unfolding handler_list_def by (rule lists_ok_nth [OF _ reg_cell(1)]) (auto simp: world_ok_def)

lemma program_world:
  assumes "map_option fst (spec_unit code n a (empty_spec u)) = Some (Ret ())" "n < 2 ^ 64"
  obtains w where "exec_unit code n a (empty_world u) = Some (Ret (), w)" "world_ok [] w"
    "view w = snd (the (spec_unit code n a (empty_spec u)))"
  using main_sim [OF assms(2), of code a u]
proof (rule sim_E)
  fix x w assume "exec_unit code n a (empty_world u) = Some (Ret x, w)"
    "spec_unit code n a (empty_spec u) = Some (Ret x, view w)" "world_ok [] w"
  then show thesis using that by simp
qed (use assms(1) in auto)

lemma sim_Ret:
  assumes "sim st r (Some (Ret x, s))"
  obtains w where "r = Some (Ret x, w)" "world_ok st w" "view w = s"
  using assms by (rule sim_E) (auto intro: that)

lemma sim_notify_exec:
  assumes "world_ok st w" "rid < length (regs (client_state w))" "length st + Suc m < 2 ^ 64"
  shows "sim st (SyncRegistry_notify code (exec code m) rid ev w) (spec_notify code (spec_exec code m) rid ev (view w))"
  by (rule sim_notify [OF exec_alike assms(3,1,2)])

text \<open>
  A program for the examples: handler \<open>n\<close> logs its name; one of 10 to 19 then panics, one of 20 or more panics with a
  payload whose destructor panics. The callback logs the id of the handler it is told about.
\<close>

definition demo_code :: "(nat, nat, nat list) code" where
  "demo_code =
     \<lparr>handler_code = (\<lambda>n e. Change (\<lambda>l. l @ [n])
        (if n < 10 then Done () else if n < 20 then Panic (PStr ''boom'') else Panic (POther n (Some (PStr ''again''))))),
      callback_code = (\<lambda>n info. Change (\<lambda>l. l @ [n + unat (as_u64 (PanicInfo_handler_id info))]) (Done ())),
      build_code = (\<lambda>n e. Change (\<lambda>l. l @ [n]) (Done n)),
      poll_code = (\<lambda>n. Change (\<lambda>l. l @ [n]) (if n mod 10 = 0 then Done Ready else Done (Pending (n - 1))))\<rparr>"

definition demo_main :: "nat list \<Rightarrow> (nat, nat, nat list, unit) act" where
  "demo_main ns =
     Call (SyncNew 4) (\<lambda>_. Call (OnPanic 0 100) (\<lambda>_.
       foldr (\<lambda>n k. Call (Register 0 (of_nat (n mod 10)) n) (\<lambda>_. k)) ns (Done ())))"

definition demo_state :: "nat list \<Rightarrow> (nat, nat list) spec_state" where
  "demo_state ns = snd (the (spec_unit demo_code (length ns + 3) (demo_main ns) (empty_spec [])))"

lemma demo_world:
  assumes "map_option fst (spec_unit demo_code (length ns + 3) (demo_main ns) (empty_spec [])) = Some (Ret ())"
    "length ns + 3 < 2 ^ 64"
  obtains w where "world_ok [] w" "view w = demo_state ns"
  by (rule program_world [OF assms]) (auto simp: demo_state_def intro: that)

lemma demo_view:
  assumes "view w = s"
  shows "vals w = sp_lists s" "client_state w = sp_client s"
  using assms by auto

section \<open>Registration\<close>

lemma dispatch_order_id: "by_priority es \<Longrightarrow> dispatch_order es = es"
  by (simp add: by_priority_def dispatch_order_def sorted_sort_id sort_key_id_if_sorted)

text \<open>C4: Registering a handler adds one entry with the new id, priority and handler to the
  registry's list and changes no other list. If the list was the registrations \<open>hist\<close>, stably sorted by descending priority, it
  is the registrations with the new one last, sorted the same way: handlers run by descending priority, ties in
  the order of registration.\<close>

theorem register_keeps_dispatch_order:
  assumes "world_ok st w" "rid < length (regs (client_state w))" "handler_list rid w = dispatch_order hist"
  shows "\<exists>hid w'. SyncRegistry_register_with_priority rid p n w = Some (hid, w') \<and> world_ok st w' \<and>
    as_u64 hid = gen_next (id_generator (the_reg rid w)) \<and>
    vals w' = (vals w)[handlers (the_reg rid w) :=
      dispatch_order (hist @ [\<lparr>entry_id = hid, entry_priority = p, entry_handler = Plain n\<rparr>])]"
  using sim_register [OF assms(1,2), of p n] assms(2,3)
  by (auto simp: sim_calm_def spec_register_def spec_next_id_def split_beta HandlerIdGenerator_next_def from_raw_def Let_def
      sp_insert_def sp_set_list_def sp_list_def sp_with_client_def set_reg_def view_def handler_list_def
      insert_entry_dispatch_order spec_state.splits)


abbreviation demo_entry :: "nat \<Rightarrow> nat \<Rightarrow> nat entry" where
  "demo_entry i n \<equiv> \<lparr>entry_id = HandlerId (of_nat i), entry_priority = of_nat (n mod 10), entry_handler = Plain n\<rparr>"

lemma demo_three:
  obtains w where "world_ok [] w" "view w = demo_state [1, 13, 2]" "handler_list 0 w = [demo_entry 2 13, demo_entry 3 2, demo_entry 1 1]"
    "length (regs (client_state w)) = 1" "user_state (client_state w) = []" "gen_next (id_generator (the_reg 0 w)) = 4"
    "handlers (the_reg 0 w) = 0" "vals w = [handler_list 0 w]"
proof -
  have r: "map_option fst (spec_unit demo_code (length [1, 13, 2 :: nat] + 3) (demo_main [1, 13, 2]) (empty_spec [])) = Some (Ret ())"
    by code_simp
  obtain w where w: "world_ok [] w" "view w = demo_state [1, 13, 2]" by (rule demo_world [OF r]) simp
  note v = demo_view [OF w(2)]
  have 1: "length (regs (sp_client (demo_state [1, 13, 2]))) = 1" "user_state (sp_client (demo_state [1, 13, 2])) = []"
    "gen_next (id_generator (sp_reg 0 (demo_state [1, 13, 2]))) = 4" "handlers (sp_reg 0 (demo_state [1, 13, 2])) = 0"
    "sp_lists (demo_state [1, 13, 2]) = [[demo_entry 2 13, demo_entry 3 2, demo_entry 1 1]]"
    by code_simp+
  show ?thesis by (rule that [OF w]) (use 1 v in \<open>simp_all add: handler_list_def\<close>)
qed

theorem register_keeps_dispatch_order_witness:
  "\<exists>w w' :: (nat, nat list) world. \<exists>hid. SyncRegistry_register_with_priority 0 2 7 w = Some (hid, w') \<and> world_ok [] w' \<and>
     as_u64 hid = 4 \<and> vals w' = [[demo_entry 2 13, demo_entry 3 2, \<lparr>entry_id = hid, entry_priority = 2, entry_handler = Plain 7\<rparr>,
       demo_entry 1 1]]"
proof (rule demo_three)
  fix w :: "(nat, nat list) world"
  assume w: "world_ok [] w" "handler_list 0 w = [demo_entry 2 13, demo_entry 3 2, demo_entry 1 1]"
    "length (regs (client_state w)) = 1" "gen_next (id_generator (the_reg 0 w)) = 4" "handlers (the_reg 0 w) = 0" "vals w = [handler_list 0 w]"
  then have "handler_list 0 w = dispatch_order [demo_entry 1 1, demo_entry 2 13, demo_entry 3 2]" by (simp add: dispatch_order_def)
  from register_keeps_dispatch_order [OF w(1) _ this, of 2 7] w show ?thesis
    by (simp add: dispatch_order_def) blast
qed

section \<open>Removal\<close>

lemma filter_ids_dispatch_order:
  assumes "distinct (ids hist)"
  shows "remove_entry hid (dispatch_order hist) =
    (if hid \<in> set (ids hist) then dispatch_order (filter (\<lambda>e. entry_id e \<noteq> hid) hist) else remove_entry hid (dispatch_order hist))"
  using remove_id_closure_dispatch_order [OF assms, of hid] remove_id_closure_entry [of hid "dispatch_order hist"]
  by (simp add: ids_def split: if_splits)

text \<open>C5: Unregistering an id removes exactly the entry with that id, keeps the order of the others and tells whether
  there was one; nothing else changes.\<close>

theorem unregister_removes_exactly:
  assumes "world_ok st w" "rid < length (regs (client_state w))" "handler_list rid w = dispatch_order hist" "distinct (ids hist)"
  shows "\<exists>w'. SyncRegistry_unregister rid hid w = Some (hid \<in> set (ids hist), w') \<and> world_ok st w' \<and>
    client_state w' = client_state w \<and>
    vals w' = (vals w)[handlers (the_reg rid w) := dispatch_order (filter (\<lambda>e. entry_id e \<noteq> hid) hist)]"
proof (rule sim_unregister [OF assms(1,2), of hid])
  fix b w'
  assume u: "SyncRegistry_unregister rid hid w = Some (b, w')" "world_ok st w'" "client_state w' = client_state w"
    and s: "spec_unregister rid hid (view w) = (b, view w')"
  have i: "set (ids (handler_list rid w)) = set (ids hist)" by (simp add: assms(3) ids_def)
  show ?thesis
  proof (cases "hid \<in> set (ids hist)")
    case True
    then show ?thesis using u s i filter_ids_dispatch_order [OF assms(4), of hid] assms(3)
      by (auto simp: spec_unregister_def sp_remove_def sp_list_def sp_set_list_def handler_list_def view_def)
  next
    case False
    then have "filter (\<lambda>e. entry_id e \<noteq> hid) hist = hist" by (auto simp: filter_id_conv ids_def)
    moreover have "(vals w)[handlers (the_reg rid w) := dispatch_order hist] = vals w"
      using assms(3) by (metis handler_list_def list_update_id)
    ultimately show ?thesis using u s i False
      by (auto simp: spec_unregister_def sp_remove_def sp_list_def handler_list_def view_def)
  qed
qed

theorem unregister_removes_exactly_witness:
  "\<exists>w w' :: (nat, nat list) world. SyncRegistry_unregister 0 (HandlerId 3) w = Some (True, w') \<and>
     length (handler_list 0 w) = 3 \<and> vals w' = [[demo_entry 2 13, demo_entry 1 1]]"
proof (rule demo_three)
  fix w :: "(nat, nat list) world"
  assume w: "world_ok [] w" "handler_list 0 w = [demo_entry 2 13, demo_entry 3 2, demo_entry 1 1]"
    "length (regs (client_state w)) = 1" "handlers (the_reg 0 w) = 0" "vals w = [handler_list 0 w]"
  then have "handler_list 0 w = dispatch_order [demo_entry 1 1, demo_entry 2 13, demo_entry 3 2]" by (simp add: dispatch_order_def)
  from unregister_removes_exactly [OF w(1) _ this, of "HandlerId 3"] w obtain w' where
    "SyncRegistry_unregister 0 (HandlerId 3) w = Some (True, w')" "vals w' = [[demo_entry 2 13, demo_entry 1 1]]"
    by (auto simp: dispatch_order_def ids_def)
  then show ?thesis using w(2) by (intro exI [of _ w] exI [of _ w']) simp
qed

text \<open>C17: The waiting variants return, from inside any number of running handlers of the calling thread, and
  then do what the plain ones do: a handler may unregister itself and wait.\<close>

theorem waiting_variants_return:
  assumes "world_ok st w" "rid < length (regs (client_state w))"
  shows "SyncRegistry_unregister_and_wait rid hid w = SyncRegistry_unregister rid hid w \<and>
    SyncRegistry_unregister rid hid w \<noteq> None \<and>
    SyncRegistry_clear_and_wait rid w = SyncRegistry_clear rid w \<and> SyncRegistry_clear rid w \<noteq> None"
proof -
  obtain b w' where 1: "SyncRegistry_unregister rid hid w = Some (b, w')" "world_ok st w'" "client_state w' = client_state w"
    by (rule sim_unregister [OF assms, of hid])
  have "wait_for_retired_readers (handlers (the_reg rid w')) w' = Some w'"
    by (rule wait_world [OF 1(2) reg_cell(1) [OF 1(2)]]) (use 1(3) assms(2) in simp)
  then have u: "SyncRegistry_unregister_and_wait rid hid w = SyncRegistry_unregister rid hid w"
    using 1(1) by (simp add: SyncRegistry_unregister_and_wait_def SyncRegistry_unregister_def)
  obtain r w2 where 2: "update (handlers (the_reg rid w)) remove_all_closure w = Some (r, w2)" "world_ok st w2"
    "client_state w2 = client_state w"
    by (rule clear_world [OF assms(1) reg_cell(1) [OF assms]])
  have "wait_for_retired_readers (handlers (the_reg rid w2)) w2 = Some w2"
    by (rule wait_world [OF 2(2) reg_cell(1) [OF 2(2)]]) (use 2(3) assms(2) in simp)
  then show ?thesis using u 1(1) 2(1)
    by (simp add: SyncRegistry_clear_and_wait_def SyncRegistry_clear_def SyncRegistry_remove_all_def)
qed

theorem waiting_variants_return_witness:
  "\<exists>w :: (nat, nat list) world. length (handler_list 0 w) = 3 \<and>
     SyncRegistry_unregister_and_wait 0 (HandlerId 3) w = SyncRegistry_unregister 0 (HandlerId 3) w \<and>
     SyncRegistry_unregister 0 (HandlerId 3) w \<noteq> None"
proof (rule demo_three)
  fix w :: "(nat, nat list) world"
  assume w: "world_ok [] w" "handler_list 0 w = [demo_entry 2 13, demo_entry 3 2, demo_entry 1 1]"
    "length (regs (client_state w)) = 1"
  then show ?thesis using waiting_variants_return [OF w(1), of 0 "HandlerId 3"] by (intro exI [of _ w]) simp
qed

section \<open>Queries\<close>

text \<open>C18: The queries tell the truth about the list and change neither a list nor a registry:
  \<open>contains\<close> is membership of the id, \<open>handler_count\<close> the number of entries, \<open>is_empty\<close> whether there are none.\<close>

theorem queries_are_exact:
  assumes "world_ok st w" "rid < length (regs (client_state w))" "length st + 1 < 2 ^ 64"
  shows "(\<exists>w1. SyncRegistry_contains rid hid w = Some (Ret (hid \<in> set (ids (handler_list rid w))), w1) \<and>
      world_ok st w1 \<and> view w1 = view w) \<and>
    (\<exists>w2. SyncRegistry_handler_count rid w = Some (Ret (of_nat (length (handler_list rid w))), w2) \<and>
      world_ok st w2 \<and> view w2 = view w) \<and>
    (\<exists>w3. SyncRegistry_is_empty rid w = Some (Ret (handler_list rid w = []), w3) \<and>
      world_ok st w3 \<and> view w3 = view w)"
proof -
  have q: "\<exists>w'. read (handlers (the_reg rid w)) (look g) w = Some (Ret (g (handler_list rid w)), w') \<and> world_ok st w' \<and> view w' = view w"
    for g :: "'a entry list \<Rightarrow> 'c"
    by (rule sim_Ret [OF sim_query [OF assms(1) reg_cell(1) [OF assms(1,2)] assms(3), of g]]) (simp add: handler_list_def sp_list_def)
  have e: "not_empty l \<longleftrightarrow> l \<noteq> []" for l :: "'a entry list" by (cases l) (simp_all add: not_empty_def)
  show ?thesis unfolding SyncRegistry_contains_def SyncRegistry_handler_count_def SyncRegistry_is_empty_def is_empty_closure
    using q [of "contains_closure hid"] q [of "\<lambda>l. of_nat (length l) :: usize"] q [of "\<lambda>l. \<not> not_empty l"]
    by (simp add: contains_closure_iff e)
qed

theorem queries_are_exact_witness:
  "\<exists>w w1 w2 :: (nat, nat list) world. SyncRegistry_contains 0 (HandlerId 3) w = Some (Ret True, w1) \<and>
     SyncRegistry_handler_count 0 w = Some (Ret 3, w2)"
proof (rule demo_three)
  fix w :: "(nat, nat list) world"
  assume w: "world_ok [] w" "handler_list 0 w = [demo_entry 2 13, demo_entry 3 2, demo_entry 1 1]"
    "length (regs (client_state w)) = 1"
  from queries_are_exact [OF w(1), of 0 "HandlerId 3"] w obtain w1 w2 where
    "SyncRegistry_contains 0 (HandlerId 3) w = Some (Ret True, w1)" "SyncRegistry_handler_count 0 w = Some (Ret 3, w2)"
    by (auto simp: ids_def)
  then show ?thesis by blast
qed

section \<open>Dispatch\<close>


text \<open>A handler that logs its name, empties the registry and registers another handler, all during a dispatch.\<close>

definition meddle_code :: "(nat, nat, nat list) code" where
  "meddle_code = demo_code\<lparr>handler_code :=
     (\<lambda>n e. Change (\<lambda>l. l @ [n]) (Call (Clear 0) (\<lambda>_. Call (Register 0 0 99) (\<lambda>_. Done ()))))\<rparr>"


text \<open>C3: A dispatch over handlers that use only their own state runs every handler of the list once, in the order of the list,
  whether or not some of them panic; each panic adds one to the panic counter and is handed to the panic callback
  with the handler's id, and the dispatch returns.\<close>

theorem notify_delivers_to_every_handler:
  assumes "world_ok st w" "rid < length (regs (client_state w))" "length st + Suc m < 2 ^ 64" "d \<le> m"
    and "deliver d code (panic_callback (the_reg rid w)) ev (handler_list rid w) (user_state (client_state w)) = Some (k, u')"
  shows "\<exists>w'. SyncRegistry_notify code (exec code m) rid ev w = Some (Ret (), w') \<and> world_ok st w' \<and>
    user_state (client_state w') = u' \<and> SyncRegistry_panic_count rid w' = SyncRegistry_panic_count rid w + of_nat k \<and>
    vals w' = vals w"
proof -
  have "spec_notify code (spec_exec code m) rid ev (view w) = Some (Ret (), sp_set_user u' (sp_add_panics rid k (view w)))"
    unfolding spec_notify_def by (rule spec_dispatch_user [OF _ assms(4)]) (use assms in \<open>simp_all add: sp_list_def handler_list_def\<close>)
  with sim_notify_exec [OF assms(1-3), of code ev] obtain w' where
    w': "SyncRegistry_notify code (exec code m) rid ev w = Some (Ret (), w')" "world_ok st w'"
      "view w' = sp_set_user u' (sp_add_panics rid k (view w))"
    by (metis sim_Ret)
  have "vals w' = vals w" "user_state (client_state w') = u'" "panics (the_reg rid w') = panics (the_reg rid w) + of_nat k"
    using arg_cong [OF w'(3), of sp_lists] arg_cong [OF w'(3), of "\<lambda>s. user_state (sp_client s)"]
      arg_cong [OF w'(3), of "\<lambda>s. panics (sp_reg rid s)"] assms(2) by simp_all
  then show ?thesis using w'(1,2) by (auto simp: SyncRegistry_panic_count_def)
qed

theorem notify_delivers_to_every_handler_witness:
  "\<exists>w w' :: (nat, nat list) world. SyncRegistry_notify demo_code (exec demo_code 9) 0 7 w = Some (Ret (), w') \<and>
     user_state (client_state w) = [] \<and> user_state (client_state w') = [13, 102, 2, 1] \<and>
     SyncRegistry_panic_count 0 w' = SyncRegistry_panic_count 0 w + 1"
proof (rule demo_three)
  fix w assume w: "world_ok [] w" "view w = demo_state [1, 13, 2]" "handler_list 0 w = [demo_entry 2 13, demo_entry 3 2, demo_entry 1 1]"
    "length (regs (client_state w)) = 1" "user_state (client_state w) = []"
  have "deliver 2 demo_code (panic_callback (sp_reg 0 (demo_state [1, 13, 2]))) 7 [demo_entry 2 13, demo_entry 3 2, demo_entry 1 1] [] =
    Some (1, [13, 102, 2, 1])" by code_simp
  then have "deliver 2 demo_code (panic_callback (the_reg 0 w)) 7 (handler_list 0 w) (user_state (client_state w)) =
    Some (1, [13, 102, 2, 1])" using w(3,5) demo_view(2) [OF w(2)] by (simp del: deliver.simps)
  from notify_delivers_to_every_handler [OF w(1) _ _ _ this, of 9] w(4) obtain w' where
    "SyncRegistry_notify demo_code (exec demo_code 9) 0 7 w = Some (Ret (), w')"
    "user_state (client_state w') = [13, 102, 2, 1]" "SyncRegistry_panic_count 0 w' = SyncRegistry_panic_count 0 w + 1"
    by auto
  then show ?thesis using w(5) by blast
qed


lemma dispatch_append:
  "dispatch call hp es s = Some (Ret (), s1) \<Longrightarrow> dispatch call hp (es @ rest) s = dispatch call hp rest s1"
proof (induction es arbitrary: s)
  case (Cons e es)
  let ?one = "and_then (catch_unwind (call (entry_handler e) s))
    (\<lambda>r w1. case r of Inl payload \<Rightarrow> hp (entry_id e) payload w1 | Inr x \<Rightarrow> Some (Ret (), w1))"
  obtain s2 where "?one = Some (Ret (), s2)" "dispatch call hp es s2 = Some (Ret (), s1)"
    using Cons.prems by (cases ?one) (auto simp: and_then_def split: outcome.splits)
  then show ?case using Cons.IH by (simp add: and_then_def)
qed simp

text \<open>C16: Panic isolation has a gap. If a handler panics with a payload whose own destructor panics, that second
  panic leaves \<open>notify\<close>: the handlers before it have run and been reported, the panic is counted and reported, and the
  handlers after it are not called.\<close>

theorem noisy_payload_escapes_notify:
  assumes "world_ok st w" "rid < length (regs (client_state w))" "length st + Suc m < 2 ^ 64" "d \<le> m"
    and "handler_list rid w = earlier @ e # later" "entry_handler e = Plain n"
    and "deliver d code (panic_callback (the_reg rid w)) ev earlier (user_state (client_state w)) = Some (k, u1)"
    and "user_run d (handler_code code n ev) u1 = Some (Unwind p, u2)" "drop_payload p = Unwind q"
    and "user_report d code (panic_callback (the_reg rid w)) (PanicInfo_new (entry_id e) p) u2 = Some u3"
  shows "\<exists>w'. SyncRegistry_notify code (exec code m) rid ev w = Some (Unwind q, w') \<and> world_ok st w' \<and>
    user_state (client_state w') = u3 \<and> SyncRegistry_panic_count rid w' = SyncRegistry_panic_count rid w + of_nat (Suc k)"
proof -
  let ?call = "\<lambda>h. spec_call code (spec_exec code m) h ev" and ?hp = "spec_handle_panic code (spec_exec code m) rid"
  let ?s1 = "sp_set_user u1 (sp_add_panics rid k (view w))"
  have 1: "dispatch ?call ?hp earlier (view w) = Some (Ret (), ?s1)"
    by (rule spec_dispatch_user [OF _ assms(4)]) (use assms in simp_all)
  have 2: "?call (entry_handler e) ?s1 = Some (Unwind p, sp_set_user u2 ?s1)"
    using user_run_spec(1) [of d "handler_code code n ev" ?s1 "Unwind p" u2 m code] assms(4,6,8) by (simp add: spec_call_def spec_exec_def)
  have 3: "?hp (entry_id e) p (sp_set_user u2 ?s1) = Some (Unwind q, sp_set_user u3 (sp_add_panics rid (Suc k) (view w)))"
    using spec_handle_panic_user [of d code "sp_set_user u2 ?s1" rid "entry_id e" p u3 m] assms(2,4,9,10)
    by (simp add: sp_add_panics_user sp_add_panics_Suc [simplified])
  have "spec_notify code (spec_exec code m) rid ev (view w) = Some (Unwind q, sp_set_user u3 (sp_add_panics rid (Suc k) (view w)))"
    unfolding spec_notify_def handler_list_view assms(5) dispatch_append [OF 1] using 2 3
    by (simp add: catch_unwind_def and_then_def)
  with sim_notify_exec [OF assms(1-3), of code ev] obtain w' where
    w': "SyncRegistry_notify code (exec code m) rid ev w = Some (Unwind q, w')" "world_ok st w'"
      "view w' = sp_set_user u3 (sp_add_panics rid (Suc k) (view w))"
    by (auto elim: sim_E)
  have "user_state (client_state w') = u3" "panics (the_reg rid w') = panics (the_reg rid w) + of_nat (Suc k)"
    using arg_cong [OF w'(3), of "\<lambda>s. user_state (sp_client s)"] arg_cong [OF w'(3), of "\<lambda>s. panics (sp_reg rid s)"] assms(2)
    by simp_all
  then show ?thesis using w'(1,2) by (auto simp: SyncRegistry_panic_count_def)
qed


theorem noisy_payload_escapes_notify_witness:
  "\<exists>w w' :: (nat, nat list) world. SyncRegistry_notify demo_code (exec demo_code 9) 0 5 w = Some (Unwind (PStr ''again''), w') \<and>
     map entry_handler (handler_list 0 w) = map Plain [7, 21, 10] \<and> user_state (client_state w') = [7, 21, 102] \<and>
     SyncRegistry_panic_count 0 w' = SyncRegistry_panic_count 0 w + 1"
proof -
  let ?s = "demo_state [7, 21, 10]"
  have r: "map_option fst (spec_unit demo_code (length [7, 21, 10 :: nat] + 3) (demo_main [7, 21, 10]) (empty_spec [])) = Some (Ret ())"
    by code_simp
  obtain w where w: "world_ok [] w" "view w = ?s" by (rule demo_world [OF r]) simp
  note v = demo_view [OF w(2)]
  have l: "length (regs (sp_client ?s)) = 1" "handlers (sp_reg 0 ?s) = 0"
    "sp_lists ?s = [[demo_entry 1 7] @ demo_entry 2 21 # [demo_entry 3 10]]" by code_simp+
  have d: "deliver 2 demo_code (panic_callback (sp_reg 0 ?s)) 5 [demo_entry 1 7] (user_state (sp_client ?s)) = Some (0, [7])"
    "user_run 2 (handler_code demo_code 21 5) [7] = Some (Unwind (POther 21 (Some (PStr ''again''))), [7, 21])"
    "user_report 2 demo_code (panic_callback (sp_reg 0 ?s)) (PanicInfo_new (entry_id (demo_entry 2 21))
       (POther 21 (Some (PStr ''again'')))) [7, 21] = Some [7, 21, 102]" by code_simp+
  have h: "handler_list 0 w = [demo_entry 1 7] @ demo_entry 2 21 # [demo_entry 3 10]" unfolding handler_list_def v l by simp
  obtain w' where "SyncRegistry_notify demo_code (exec demo_code 9) 0 5 w = Some (Unwind (PStr ''again''), w')"
    "user_state (client_state w') = [7, 21, 102]" "SyncRegistry_panic_count 0 w' = SyncRegistry_panic_count 0 w + 1"
    using noisy_payload_escapes_notify [OF w(1) _ _ _ h _ d(1) [folded v] d(2) _ d(3) [folded v], of 9] l v by auto
  then show ?thesis using h by (intro exI [of _ w] exI [of _ w']) simp
qed

end
