(* ===== verification/Monotone.thy ===== *)
theory Monotone
  imports SyncTheorems
begin

text \<open>
  What no program can undo. A relation between an earlier and a later state that is reflexive and transitive and holds across each of the
  few ways in which the registries change the state holds across every run of every program: the locale \<open>lasting\<close> proves this
  once, through the dispatch loops and the executors, and is interpreted for the slots of \<open>register_once\<close> (a slot once
  taken stays taken) and for the wiring of registries to cells.
\<close>

section \<open>Lasting relations\<close>

locale lasting =
  fixes rel :: "('n, 'u) spec_state \<Rightarrow> ('n, 'u) spec_state \<Rightarrow> bool"
  assumes refl: "rel s s"
    and trans: "rel s s1 \<Longrightarrow> rel s1 s2 \<Longrightarrow> rel s s2"
    and set_list: "rel s (sp_set_list c es s)"
    and new_sync: "rel s (snd (spec_new s))"
    and new_async: "rel s (snd (spec_async_new s))"
    and change_reg: "handlers x = handlers (sp_reg rid s) \<Longrightarrow> reg_alive x = reg_alive (sp_reg rid s) \<Longrightarrow>
      rel s (sp_with_client (set_reg rid x) s)"
    and change_areg: "a_handlers y = a_handlers (sp_areg rid s) \<Longrightarrow> a_reg_alive y = a_reg_alive (sp_areg rid s) \<Longrightarrow>
      rel s (sp_with_client (set_areg rid y) s)"
    and new_slot: "rel s (sp_with_client (\<lambda>k. k\<lparr>once_slots := once_slots k @ [Some n]\<rparr>) s)"
    and take_slot: "rel s (sp_with_client (\<lambda>k. k\<lparr>once_slots := (once_slots k)[i := None]\<rparr>) s)"
    and change_user: "rel s (sp_with_client (\<lambda>k. k\<lparr>user_state := f (user_state k)\<rparr>) s)"
    and change_handles: "rel s (s\<lparr>sp_handles := hs\<rparr>)"
begin

definition kept :: "('n, 'u) spec_state \<Rightarrow> ('a outcome \<times> ('n, 'u) spec_state) option \<Rightarrow> bool" where
  "kept s r \<longleftrightarrow> (\<forall>out s'. r = Some (out, s') \<longrightarrow> rel s s')"

lemma kept_None [simp]: "kept s None"
  by (simp add: kept_def)

lemma kept_Some [simp]: "kept s (Some (out, s')) \<longleftrightarrow> rel s s'"
  by (auto simp: kept_def)

lemma kept_and_then:
  assumes "kept s r" "\<And>x s1. rel s s1 \<Longrightarrow> kept s1 (f x s1)"
  shows "kept s (and_then r f)"
proof (cases r)
  case (Some y)
  then obtain out s1 where r: "r = Some (out, s1)" "rel s s1" using assms(1) by (cases y) auto
  show ?thesis
  proof (cases out)
    case (Ret x)
    then show ?thesis using r assms(2) [OF r(2), of x] trans [OF r(2)] by (auto simp: and_then_def kept_def)
  qed (use r in \<open>simp_all add: and_then_def\<close>)
qed (simp add: and_then_def)

lemma kept_catch: "kept s r \<Longrightarrow> kept s (catch_unwind r)"
  by (auto simp: kept_def catch_unwind_def split: option.splits outcome.splits)

lemma kept_then_drop:
  assumes "kept s r" "\<And>s1. rel s s1 \<Longrightarrow> kept s1 (f s1)"
  shows "kept s (then_drop r f)"
proof (cases r)
  case (Some y)
  then obtain out s1 where r: "r = Some (out, s1)" "rel s s1" using assms(1) by (cases y) auto
  have f: "rel s s2" if "f s1 = Some (o2, s2)" for o2 s2
    using that assms(2) [OF r(2)] trans [OF r(2)] by (auto simp: kept_def)
  show ?thesis unfolding r(1) then_drop_def kept_def
    using r(2) by (auto simp: and_then_def split: outcome.splits option.splits prod.splits dest: f)
qed (simp add: then_drop_def)

lemma kept_answer: "kept s r \<Longrightarrow> kept s (answer_with f r)"
  unfolding answer_with_def by (rule kept_and_then) (simp_all add: refl)

lemma kept_returning: "rel s (snd r) \<Longrightarrow> kept s (returning (Some r))"
  by (cases r) (simp add: returning_def)

lemma kept_on: "(\<And>s. kept s (f s)) \<Longrightarrow> kept s (sp_on_sync rid f s)" "(\<And>s. kept s (f s)) \<Longrightarrow> kept s (sp_on_async rid f s)"
  by (simp_all add: sp_on_sync_def sp_on_async_def)

text \<open>Runners that keep the relation.\<close>

definition keeps_runner :: "('n, 'e, 'u, ('n, 'u) spec_state) runner \<Rightarrow> bool" where
  "keeps_runner R \<longleftrightarrow> (\<forall>s a. kept s (run_unit R a s)) \<and> (\<forall>s a. kept s (run_build R a s)) \<and> (\<forall>s a. kept s (run_poll R a s))"

lemma keeps_runnerD:
  "keeps_runner R \<Longrightarrow> kept s (run_unit R a s)" "keeps_runner R \<Longrightarrow> kept s (run_build R b s)" "keeps_runner R \<Longrightarrow> kept s (run_poll R q s)"
  by (simp_all add: keeps_runner_def)

section \<open>The synchronous registry\<close>

lemma rel_insert: "rel s (sp_insert c e s)"
  by (simp add: sp_insert_def set_list)

lemma rel_remove: "rel s (snd (sp_remove c hid s))"
  by (simp add: sp_remove_def set_list refl)

lemma rel_next_id: "rel s (snd (spec_next_id rid s))"
  by (simp add: spec_next_id_def split_beta change_reg)

lemma rel_register: "rel s (snd (spec_register rid p n s))"
  by (simp add: spec_register_def split_beta trans [OF rel_next_id rel_insert])

lemma rel_register_once: "rel s (snd (spec_register_once rid n s))"
  by (simp add: spec_register_once_def split_beta Let_def trans [OF rel_next_id trans [OF new_slot rel_insert]])

lemma rel_drop_registration: "rel s (spec_drop_registration r hid s)"
  by (simp add: spec_drop_registration_def spec_unregister_def rel_remove refl split: option.split)

lemma kept_call:
  assumes "keeps_runner R"
  shows "kept s (spec_call code R h ev s)"
proof (cases h)
  case (OnceClosure slot rid hid)
  let ?s = "sp_with_client (\<lambda>k. k\<lparr>once_slots := (once_slots k)[slot := None]\<rparr>) s"
  have "kept s r" if "kept ?s r" for r :: "(unit outcome \<times> ('n, 'u) spec_state) option"
    using that trans [OF take_slot] by (auto simp: kept_def)
  moreover have "kept ?s (then_drop (run_unit R (handler_code code n ev) ?s) (\<lambda>s2. Some (Ret (), spec_drop_registration (Some rid) hid s2)))" for n
    by (rule kept_then_drop) (simp_all add: keeps_runnerD [OF assms] rel_drop_registration)
  ultimately show ?thesis using OnceClosure
    by (auto simp: spec_call_def spec_once_call_def Let_def take_slot split: option.split)
qed (simp_all add: spec_call_def keeps_runnerD [OF assms])

lemma kept_report:
  assumes "keeps_runner R"
  shows "kept s (report_panic code R holder hid p s)"
  unfolding report_panic_def
  by (rule kept_then_drop)
    (auto simp: refl drop_caught_def invoke_callback_def keeps_runnerD [OF assms]
      intro!: kept_and_then kept_catch split: option.split sum.split prod.split)

lemma kept_handle_panic:
  assumes "keeps_runner R"
  shows "kept s (spec_handle_panic code R rid hid p s)"
proof -
  let ?s = "sp_with_client (set_reg rid ((sp_reg rid s)\<lparr>panics := panics (sp_reg rid s) + 1\<rparr>)) s"
  have "rel s ?s" by (rule change_reg) simp_all
  then show ?thesis using kept_report [OF assms, of ?s code "panic_callback (sp_reg rid ?s)" hid p] trans
    by (auto simp: spec_handle_panic_def Let_def kept_def)
qed

lemma kept_dispatch:
  assumes "\<And>h s. kept s (call h s)" "\<And>i p s. kept s (hp i p s)"
  shows "kept s (dispatch call hp es s)"
proof (induction es arbitrary: s)
  case (Cons e es)
  then show ?case by (auto intro!: kept_and_then kept_catch assms simp: refl split: sum.split)
qed (simp add: refl)

lemma kept_sync_op:
  assumes "keeps_runner R"
  shows "kept s (spec_sync_op code R c s)"
  by (cases c)
    (auto simp: spec_sync_op_def refl set_list new_sync change_reg sp_clear_def rel_register rel_register_once spec_unregister_def
      rel_remove rel_drop_registration spec_notify_def
      intro!: kept_on kept_answer kept_returning kept_dispatch kept_call [OF assms] kept_handle_panic [OF assms])

section \<open>The asynchronous registry\<close>

lemma kept_drop_handle: "rel s s1 \<Longrightarrow> spec_drop_handle h s1 = Some s2 \<Longrightarrow> rel s s2"
  using trans [OF _ change_handles] by (auto simp: spec_drop_handle_def split: if_splits)

lemma kept_scope: "kept s r \<Longrightarrow> kept s (list_scope (spec_drop_handle h) r)"
  by (auto simp: kept_def list_scope_def intro: kept_drop_handle split: option.splits outcome.splits notify_future.splits)

lemma kept_start_entry: "keeps_runner R \<Longrightarrow> kept s (start_entry code R ev e s)"
  by (auto simp: start_entry_def start_future_def keeps_runnerD intro!: kept_catch split: stored.split)

lemma kept_poll_caught: "keeps_runner R \<Longrightarrow> kept s (poll_caught code R f s)"
  unfolding poll_caught_def by (rule kept_and_then) (simp_all add: keeps_runnerD kept_catch refl)

lemma kept_catch_poll: "keeps_runner R \<Longrightarrow> kept s (CatchUnwind_poll code R cu s)"
  unfolding CatchUnwind_poll_def by (auto intro!: kept_and_then kept_poll_caught simp: refl split: option.split)

lemma kept_slot_poll: "keeps_runner R \<Longrightarrow> kept s (Slot_poll code R sl s)"
  unfolding Slot_poll_def by (auto intro!: kept_and_then kept_poll_caught simp: refl split: Slot.split)

lemma kept_start_slots: "keeps_runner R \<Longrightarrow> kept s (start_slots code R ev es s)"
proof (induction es arbitrary: s)
  case (Cons e es)
  then show ?case by (auto intro!: kept_and_then kept_start_entry simp: refl)
qed (simp add: refl)

lemma kept_poll_slots: "keeps_runner R \<Longrightarrow> kept s (poll_slots code R sl k s)"
proof (induction sl arbitrary: s k)
  case (Cons x sl)
  then show ?case by (auto intro!: kept_and_then kept_slot_poll simp: refl)
qed (simp add: refl)

lemma kept_unwind_drop: "kept s r \<Longrightarrow> kept s (unwind_drop sl r)"
  by (auto simp: kept_def unwind_drop_def split: option.splits outcome.splits)

lemma kept_finish_slots: "(\<And>i p s. kept s (hp i p s)) \<Longrightarrow> kept s (finish_slots hp es s)"
proof (induction es arbitrary: s)
  case (Cons x es)
  then show ?case by (cases x; cases "snd x") (auto intro!: kept_and_then kept_unwind_drop)
qed (simp add: refl)

lemma kept_finish_entry: "(\<And>i p s. kept s (hp i p s)) \<Longrightarrow> kept s (finish_entry hp e out s)"
  by (cases out) (simp_all add: finish_entry_def refl)

lemma kept_finished: "kept s r \<Longrightarrow> kept s (finished r)"
  unfolding finished_def by (rule kept_and_then) (simp_all add: refl)

lemmas kept_loop = kept_and_then kept_start_entry kept_catch_poll kept_start_slots kept_poll_slots kept_finish_slots
  kept_finish_entry kept_finished

lemma kept_poll_one:
  "keeps_runner R \<Longrightarrow> (\<And>i p s. kept s (hp i p s)) \<Longrightarrow> kept s (poll_one code R hp rid h only cu s)"
  unfolding poll_one_def by (auto intro!: kept_loop simp: refl split: option.split)

lemma kept_poll_join:
  "keeps_runner R \<Longrightarrow> (\<And>i p s. kept s (hp i p s)) \<Longrightarrow> kept s (poll_join code R hp rid h many sl k s)"
  unfolding poll_join_def by (auto intro!: kept_loop simp: refl)

lemma kept_sequential_from:
  "keeps_runner R \<Longrightarrow> (\<And>i p s. kept s (hp i p s)) \<Longrightarrow> kept s (sequential_from code R hp rid h ev es s)"
proof (induction es arbitrary: s)
  case (Cons e es)
  then show ?case unfolding sequential_from.simps
    by (auto intro!: kept_loop simp: refl split: sum.split option.split)
qed (simp add: refl)

lemma kept_sequential_resume:
  "keeps_runner R \<Longrightarrow> (\<And>i p s. kept s (hp i p s)) \<Longrightarrow> kept s (sequential_resume code R hp rid h ev e cu es s)"
  unfolding sequential_resume_def by (auto intro!: kept_loop kept_sequential_from simp: refl split: option.split)

lemma kept_notify_list:
  assumes "keeps_runner R" "\<And>i p s. kept s (hp i p s)"
  shows "kept s (notify_list code R hp rid h ev es s)"
  unfolding notify_list_def using assms
  by (auto intro!: kept_loop kept_poll_one kept_poll_join simp: refl split: list.split sum.split)

lemma kept_start:
  assumes "\<And>h l s. kept s (body h l s)"
  shows "kept s (spec_start body rid s)"
proof -
  have "kept s (body h l (s\<lparr>sp_handles := hs\<rparr>))" for h l hs
    using assms [of "s\<lparr>sp_handles := hs\<rparr>" h l] trans [OF change_handles] by (auto simp: kept_def)
  then show ?thesis by (simp add: spec_start_def Let_def refl kept_scope)
qed

lemma kept_async_handle_panic: "keeps_runner R \<Longrightarrow> kept s (spec_async_handle_panic code R rid hid p s)"
  by (simp add: spec_async_handle_panic_def kept_report)

lemma kept_spec_poll: "keeps_runner R \<Longrightarrow> kept s (spec_poll code R f s)"
  by (cases f)
    (auto simp: spec_poll_def refl intro!: kept_start kept_scope kept_notify_list kept_sequential_from kept_poll_one kept_poll_join
      kept_sequential_resume kept_async_handle_panic)

lemma kept_cancel: "kept s (spec_cancel f s)"
  by (cases f)
    (auto simp: spec_cancel_def calmly_def kept_def refl intro: kept_drop_handle [OF refl] split: outcome.splits)

lemma rel_async_register: "rel s (snd (spec_async_register rid p n s))"
  by (simp add: spec_async_register_def split_beta Let_def trans [OF change_areg rel_insert])

lemma rel_async_drop_registration: "rel s (spec_async_drop_registration r hid s)"
  by (simp add: spec_async_drop_registration_def spec_async_unregister_def rel_remove refl split: option.split)

lemma kept_async_op:
  assumes "keeps_runner R"
  shows "kept s (spec_async_op code R c s)"
  by (cases c)
    (auto simp: spec_async_op_def refl set_list new_async change_areg sp_clear_def rel_async_register spec_async_unregister_def
      rel_remove rel_async_drop_registration
      intro!: kept_on kept_answer kept_returning kept_spec_poll [OF assms] kept_cancel split: option.split)

section \<open>Programs\<close>

lemma kept_act_step:
  assumes "keeps_runner R" "\<And>a s. kept s (go a s)"
  shows "kept s (spec_act_step code R go a s)"
proof (cases a)
  case (Change f a')
  let ?s = "sp_with_client (\<lambda>k. k\<lparr>user_state := f (user_state k)\<rparr>) s"
  show ?thesis using Change assms(2) [of ?s a'] trans [OF change_user] by (auto simp: spec_act_step_def kept_def)
qed (auto simp: spec_act_step_def refl assms(2) spec_do_op_def intro!: kept_and_then kept_async_op kept_sync_op assms)

lemma exec_keeps: "keeps_runner (spec_exec code n)"
proof (induction n)
  case 0
  then show ?case by (simp add: keeps_runner_def spec_exec_def)
next
  case (Suc n)
  then show ?case unfolding keeps_runner_def exec_Suc using keeps_runnerD [OF Suc] by (auto intro!: kept_act_step [OF Suc])
qed

lemma program_keeps: "spec_unit code n a s = Some (out, s') \<Longrightarrow> rel s s'"
  using keeps_runnerD(1) [OF exec_keeps, of s code n a] by (simp add: spec_exec_def)

lemma call_keeps: "spec_call code (spec_exec code n) h ev s = Some (out, s') \<Longrightarrow> rel s s'"
  using kept_call [OF exec_keeps, of s code code n h ev] by simp

end

section \<open>Slots of register_once\<close>

definition taken_stays :: "('n, 'u) spec_state \<Rightarrow> ('n, 'u) spec_state \<Rightarrow> bool" where
  "taken_stays s s' \<longleftrightarrow> (\<forall>i<length (once_slots (sp_client s)). i < length (once_slots (sp_client s')) \<and>
     (once_slots (sp_client s) ! i = None \<longrightarrow> once_slots (sp_client s') ! i = None))"

lemma nth_take_slot: "xs ! i = None \<Longrightarrow> i < length xs \<Longrightarrow> xs[j := None] ! i = None"
  by (cases "i = j") simp_all

interpretation ts: lasting taken_stays
  by unfold_locales
    (auto simp: taken_stays_def sp_set_list_def spec_new_def spec_async_new_def sp_with_client_def set_reg_def set_areg_def
      nth_append nth_take_slot)

section \<open>The wiring of registries and cells\<close>

text \<open>Every registry owns a cell of its own.\<close>

definition wired :: "('n, 'u) spec_state \<Rightarrow> bool" where
  "wired s \<longleftrightarrow> (let cs = map handlers (regs (sp_client s)) @ map a_handlers (aregs (sp_client s))
     in distinct cs \<and> (\<forall>c\<in>set cs. c < length (sp_lists s)))"

definition wiring_stays :: "('n, 'u) spec_state \<Rightarrow> ('n, 'u) spec_state \<Rightarrow> bool" where
  "wiring_stays s s' \<longleftrightarrow>
     (\<exists>more. map handlers (regs (sp_client s')) = map handlers (regs (sp_client s)) @ more) \<and>
     (\<exists>more. map a_handlers (aregs (sp_client s')) = map a_handlers (aregs (sp_client s)) @ more) \<and> (wired s \<longrightarrow> wired s')"

lemma set_reg_wiring:
  "handlers x = handlers (regs k ! rid) \<Longrightarrow> map handlers (regs (set_reg rid x k)) = map handlers (regs k)"
  "map a_handlers (aregs (set_reg rid x k)) = map a_handlers (aregs k)"
  by (cases "rid < length (regs k)") (auto simp: set_reg_def map_update list_update_same_conv list_update_beyond)

lemma set_areg_wiring:
  "a_handlers y = a_handlers (aregs k ! rid) \<Longrightarrow> map a_handlers (aregs (set_areg rid y k)) = map a_handlers (aregs k)"
  "map handlers (regs (set_areg rid y k)) = map handlers (regs k)"
  by (cases "rid < length (aregs k)") (auto simp: set_areg_def map_update list_update_same_conv list_update_beyond)

interpretation ws: lasting wiring_stays
  by unfold_locales
    (auto simp: wiring_stays_def wired_def Let_def sp_set_list_def spec_new_def spec_async_new_def sp_with_client_def
      set_reg_wiring set_areg_wiring less_Suc_eq)

section \<open>Properties\<close>

lemma taken_view:
  "taken_stays (view w) (view w') \<Longrightarrow> slot < length (once_slots (client_state w)) \<Longrightarrow> once_slots (client_state w) ! slot = None \<Longrightarrow>
   once_slots (client_state w') ! slot = None"
  by (simp add: taken_stays_def)

lemma once_taken_noop:
  assumes "once_slots (client_state w) ! slot = None"
  shows "call_stored code R (OnceClosure slot rid hid) ev w = Some (Ret (), w)"
proof -
  have "(once_slots (client_state w))[slot := None] = once_slots (client_state w)" by (metis assms list_update_id)
  then show ?thesis using assms by (simp add: call_stored_def once_call_def with_client_def)
qed

lemma once_takes:
  assumes ok: "world_ok st w" and m: "length st + m < 2 ^ 64" and slot: "slot < length (once_slots (client_state w))"
    and call: "call_stored code (exec code m) (OnceClosure slot rid hid) ev w = Some (out, w')" and "out \<noteq> Abort"
  shows "once_slots (client_state w') ! slot = None" "slot < length (once_slots (client_state w'))" "world_ok st w'"
proof -
  let ?s = "sp_with_client (\<lambda>k. k\<lparr>once_slots := (once_slots k)[slot := None]\<rparr>) (view w)"
  have "sim st (Some (out, w')) (spec_call code (spec_exec code m) (OnceClosure slot rid hid) ev (view w))"
    using sim_call_stored [OF exec_alike m ok] call by metis
  then have s: "spec_call code (spec_exec code m) (OnceClosure slot rid hid) ev (view w) = Some (out, view w')" "world_ok st w'"
    using assms(5) by (auto simp: sim_def)
  have n: "once_slots (sp_client ?s) ! slot = None" "slot < length (once_slots (sp_client ?s))"
    using slot by (simp_all add: sp_with_client_def)
  have "taken_stays ?s (view w')"
  proof (cases "once_slots (client_state w) ! slot")
    case None
    then show ?thesis using s by (auto simp: spec_call_def spec_once_call_def Let_def ts.refl)
  next
    case (Some h)
    have "ts.kept ?s (then_drop (run_unit (spec_exec code m) (handler_code code h ev) ?s)
        (\<lambda>s2. Some (Ret (), spec_drop_registration (Some rid) hid s2)))"
      by (rule ts.kept_then_drop) (simp_all add: ts.keeps_runnerD [OF ts.exec_keeps] ts.rel_drop_registration)
    then show ?thesis using s Some by (simp add: spec_call_def spec_once_call_def Let_def)
  qed
  then show "once_slots (client_state w') ! slot = None" "slot < length (once_slots (client_state w'))" "world_ok st w'"
    using n s(2) by (auto simp: taken_stays_def)
qed



lemma demo_reaches:
  assumes "map_option fst (spec_unit code n a (empty_spec u)) = Some (Ret ())" "n < 2 ^ 64"
  obtains w where "world_ok [] w" "view w = snd (the (spec_unit code n a (empty_spec u)))"
  by (rule program_world [OF assms]) (rule that)

lemma sim_result:
  assumes "sim st r r'" "map_option g r' = Some (Ret x, y)" "\<And>out s. fst (g (out, s)) = out"
  obtains w where "r = Some (Ret x, w)" "world_ok st w" "r' = Some (Ret x, view w)" "g (Ret x, view w) = (Ret x, y)"
  using assms(1)
proof (rule sim_E)
  fix p w assume "r' = Some (Unwind p, view w)"
  then show thesis using assms(2) assms(3) [of "Unwind p" "view w"] by auto
next
  fix w assume "r' = Some (Abort, view w)"
  then show thesis using assms(2) assms(3) [of Abort "view w"] by auto
next
  fix x' w assume "r = Some (Ret x', w)" "r' = Some (Ret x', view w)" "world_ok st w"
  then show thesis using assms(2) assms(3) [of "Ret x'" "view w"] that [of w] by auto
qed (use assms(2) in simp)


lemma wired_empty: "wired (empty_spec u)"
  by (simp add: wired_def empty_spec_def Let_def)

lemma program_ok:
  assumes "exec_unit code n a (empty_world u) = Some (out, w)" "n < 2 ^ 64" "out \<noteq> Abort"
  shows "world_ok [] w" "wired (view w)" "spec_unit code n a (empty_spec u) = Some (out, view w)"
proof -
  have "sim [] (Some (out, w)) (spec_unit code n a (empty_spec u))" using main_sim [OF assms(2), of code a u] assms(1) by metis
  then show s: "spec_unit code n a (empty_spec u) = Some (out, view w)" "world_ok [] w" using assms(3) by (auto simp: sim_def)
  show "wired (view w)" using ws.program_keeps [OF s(1)] by (simp add: wiring_stays_def wired_empty)
qed

text \<open>C27: Whatever a program does, the world it leaves is well formed: the memory of the cells satisfies its
  invariant, every handler list is sorted by descending priority, and every registry, synchronous or asynchronous, owns an existing cell that no other
  registry owns.\<close>

theorem program_worlds_well_formed:
  assumes "exec_unit code n a (empty_world u) = Some (out, w)" "n < 2 ^ 64" "out \<noteq> Abort"
  shows "world_ok [] w \<and> lists_ok (vals w) \<and> wired (view w)"
  using program_ok [OF assms] by (simp add: world_ok_def)

theorem program_worlds_well_formed_witness:
  "\<exists>w :: (nat, nat list) world. exec_unit demo_code 9 (demo_main [1, 13, 2]) (empty_world []) = Some (Ret (), w) \<and>
     world_ok [] w \<and> wired (view w)"
proof -
  have r: "map_option fst (spec_unit demo_code 9 (demo_main [1, 13, 2]) (empty_spec [])) = Some (Ret ())" by code_simp
  obtain w where "exec_unit demo_code 9 (demo_main [1, 13, 2]) (empty_world []) = Some (Ret (), w)"
    by (rule program_world [OF r]) simp_all
  then show ?thesis using program_worlds_well_formed [of demo_code 9 "demo_main [1, 13, 2]" "[]" "Ret ()" w] by auto
qed

lemma register_effect:
  assumes "world_ok st w" "rid < length (regs (client_state w))"
  obtains hid w' where "SyncRegistry_register_with_priority rid p n w = Some (hid, w')" "world_ok st w'"
    "hid = HandlerId (gen_next (id_generator (the_reg rid w)))"
    "vals w' = (vals w)[handlers (the_reg rid w) :=
       insert_entry \<lparr>entry_id = hid, entry_priority = p, entry_handler = Plain n\<rparr> (handler_list rid w)]"
    "regs (client_state w') = (regs (client_state w))[rid := (the_reg rid w)
       \<lparr>id_generator := (id_generator (the_reg rid w))\<lparr>gen_next := gen_next (id_generator (the_reg rid w)) + 1\<rparr>\<rparr>]"
proof -
  obtain hid w' where 1: "SyncRegistry_register_with_priority rid p n w = Some (hid, w')" "world_ok st w'"
    and s: "spec_register rid p n (view w) = (hid, view w')"
    using sim_register [OF assms, of p n] by (auto simp: sim_calm_def)
  note d = spec_register_def spec_next_id_def HandlerIdGenerator_next_def from_raw_def split_beta sp_insert_def sp_set_list_def sp_list_def
    sp_with_client_def set_reg_def Let_def handler_list_def
  show ?thesis
    by (rule that [OF 1])
      (use arg_cong [OF s, of fst, symmetric] arg_cong [OF s, of "\<lambda>(h, s). sp_lists s", symmetric]
        arg_cong [OF s, of "\<lambda>(h, s). regs (sp_client s)", symmetric] assms(2) in \<open>simp_all add: d\<close>)
qed



end
