(* ===== verification/Guards.thy ===== *)
theory Guards
  imports Monotone
begin

text \<open>
  Handler ids inside one registry, and the guard that unregisters its handler when it is dropped. As long as the 64-bit id counter has not
  wrapped, the ids in a registry's list are distinct and below the counter, so a new id is fresh, and dropping the guard of a registration
  takes back exactly that registration.
\<close>

definition ids_ok :: "nat \<Rightarrow> ('n, 'u) world \<Rightarrow> bool" where
  "ids_ok rid w \<longleftrightarrow> distinct (ids (handler_list rid w)) \<and>
     (\<forall>i\<in>set (ids (handler_list rid w)). unat (as_u64 i) < unat (gen_next (id_generator (the_reg rid w))))"

lemma set_insert_entry: "set (insert_entry e es) = insert e (set es)"
proof -
  have "set (takeWhile P es) \<union> set (dropWhile P es) = set es" for P by (metis set_append takeWhile_dropWhile_id)
  then show ?thesis by (auto simp: insert_entry_def)
qed

lemma mset_insert_entry: "mset (insert_entry e es) = add_mset e (mset es)"
  unfolding insert_entry_def by (metis mset_append mset.simps(2) takeWhile_dropWhile_id union_mset_add_mset_right)

lemma distinct_insert_entry: "distinct (ids (insert_entry e es)) \<longleftrightarrow> distinct (ids es) \<and> entry_id e \<notin> set (ids es)"
proof -
  have "mset (ids (insert_entry e es)) = mset (entry_id e # ids es)"
    using arg_cong [OF mset_insert_entry [of e es], of "image_mset entry_id"] by (simp add: ids_def)
  then have "distinct (ids (insert_entry e es)) \<longleftrightarrow> distinct (entry_id e # ids es)" by (rule mset_eq_imp_distinct_iff)
  then show ?thesis by auto
qed

lemma remove_insert_entry:
  assumes "entry_id e \<notin> set (ids es)"
  shows "remove_entry (entry_id e) (insert_entry e es) = es"
proof -
  have n: "entry_id x \<noteq> entry_id e" if "x \<in> set es" for x using assms that by (metis ids_def image_eqI list.set_map)
  let ?t = "takeWhile (\<lambda>x. prio_key x \<le> prio_key e) es" and ?d = "dropWhile (\<lambda>x. prio_key x \<le> prio_key e) es"
  have "takeWhile (\<lambda>x. entry_id x \<noteq> entry_id e) (?t @ e # ?d) = ?t" "dropWhile (\<lambda>x. entry_id x \<noteq> entry_id e) (?t @ e # ?d) = e # ?d"
    using n by (auto simp: takeWhile_append dropWhile_append dest!: set_takeWhileD)
  then show ?thesis by (simp add: remove_entry_def insert_entry_def)
qed

lemma set_ids_remove: "set (ids (remove_entry hid es)) \<subseteq> set (ids es)" "distinct (ids es) \<Longrightarrow> distinct (ids (remove_entry hid es))"
proof -
  have "set (tl l) \<subseteq> set l" for l :: "'a HandlerEntry list" by (cases l) auto
  then show "set (ids (remove_entry hid es)) \<subseteq> set (ids es)"
    by (auto simp: remove_entry_def ids_def dest!: set_takeWhileD set_dropWhileD)
  define t d where td: "t = takeWhile (\<lambda>e. entry_id e \<noteq> hid) es" "d = dropWhile (\<lambda>e. entry_id e \<noteq> hid) es"
  assume "distinct (ids es)"
  then have "distinct (map entry_id (t @ d))" by (simp add: ids_def td)
  then show "distinct (ids (remove_entry hid es))" by (cases d) (auto simp: ids_def remove_entry_def td [symmetric])
qed

section \<open>Fresh ids\<close>

lemma unat_next: "x + 1 \<noteq> (0 :: u64) \<Longrightarrow> unat (x + 1) = Suc (unat x)"
  using unatSuc [of x] by (simp add: add.commute)

lemma fresh_id:
  "ids_ok rid w \<Longrightarrow> HandlerId (gen_next (id_generator (the_reg rid w))) \<notin> set (ids (handler_list rid w))"
  by (auto simp: ids_ok_def)



section \<open>Guards\<close>

text \<open>C14: A guard takes back its registration. Registering with a guard and dropping the guard restores the handler
  list, and a guard whose \<open>forget\<close> was called leaves the handler registered.\<close>

theorem guard_round_trip:
  assumes "world_ok st w" "rid < length (regs (client_state w))" "ids_ok rid w" "gen_next (id_generator (the_reg rid w)) + 1 \<noteq> 0"
    and "reg_alive (the_reg rid w)"
  shows "\<exists>g w1 w2. SyncRegistry_register_guard_with_priority rid p n w = Some (g, w1) \<and>
    HandlerGuard_id g \<in> set (ids (handler_list rid w1)) \<and>
    HandlerGuard_drop g w1 = Some w2 \<and> world_ok st w2 \<and> vals w2 = vals w \<and>
    HandlerGuard_drop (HandlerGuard_forget g) w1 = Some w1"
proof (rule register_effect [OF assms(1,2), of p n])
  let ?c = "handlers (the_reg rid w)"
  fix hid w1
  let ?e = "\<lparr>entry_id = hid, entry_priority = p, entry_handler = Plain n\<rparr>" and ?g = "HandlerGuard_new hid (Some rid)"
  assume 1: "SyncRegistry_register_with_priority rid p n w = Some (hid, w1)" "world_ok st w1"
    and h: "hid = HandlerId (gen_next (id_generator (the_reg rid w)))"
    and v: "vals w1 = (vals w)[?c := insert_entry ?e (handler_list rid w)]"
    and r: "regs (client_state w1) = (regs (client_state w))[rid := (the_reg rid w)
       \<lparr>id_generator := (id_generator (the_reg rid w))\<lparr>gen_next := gen_next (id_generator (the_reg rid w)) + 1\<rparr>\<rparr>]"
  have c: "?c < length (vals w)" by (rule reg_cell(1) [OF assms(1,2)])
  have k: "rid < length (regs (client_state w1))" "handlers (the_reg rid w1) = ?c" "reg_alive (the_reg rid w1)"
    using r assms(2,5) by simp_all
  obtain w2 where 2: "HandlerGuard_drop ?g w1 = Some w2" "world_ok st w2"
    "view w2 = spec_drop_registration (guard_registry ?g) (guard_id ?g) (view w1)"
    by (rule sim_guard_drop [OF 1(2), of ?g])
  have i: "hid \<in> set (ids (vals w1 ! ?c))" using v c by (simp add: ids_def set_insert_entry)
  have "remove_entry hid (insert_entry ?e (vals w ! ?c)) = vals w ! ?c"
    using remove_insert_entry [of ?e "vals w ! ?c"] fresh_id [OF assms(3)] h by (simp add: handler_list_def)
  then have "vals w2 = vals w"
    using arg_cong [OF 2(3), of sp_lists] i v k c
    by (simp add: HandlerGuard_new_def spec_drop_registration_def spec_upgrade_view upgrade_def spec_unregister_def sp_remove_def
        sp_list_def sp_set_list_def handler_list_def)
  then show ?thesis using 1(1) 2(1,2) i k(2)
    by (auto simp: SyncRegistry_register_guard_with_priority_def HandlerGuard_id_def HandlerGuard_new_def HandlerGuard_forget_def
        HandlerGuard_drop_def upgrade_def handler_list_def)
qed

theorem guard_round_trip_witness:
  "\<exists>g. \<exists>w w1 w2 :: (nat, nat list) world. SyncRegistry_register_guard_with_priority 0 2 7 w = Some (g, w1) \<and>
     length (handler_list 0 w) = 3 \<and> HandlerGuard_drop g w1 = Some w2 \<and> vals w2 = vals w"
proof (rule demo_three)
  fix w assume w: "world_ok [] w" "view w = demo_state [1, 13, 2]" "handler_list 0 w = [demo_entry 2 13, demo_entry 3 2, demo_entry 1 1]"
    "length (regs (client_state w)) = 1" "gen_next (id_generator (the_reg 0 w)) = 4"
  have "ids_ok 0 w" using w(3,5) by (simp add: ids_ok_def ids_def)
  moreover have "reg_alive (sp_reg 0 (demo_state [1, 13, 2]))" by code_simp
  ultimately show ?thesis using guard_round_trip [OF w(1), of 0 2 7] w(3-5) demo_view(2) [OF w(2)] by fastforce
qed

end
