(* ===== verification/AsyncTheorems.thy ===== *)
theory AsyncTheorems
  imports Guards
begin

text \<open>
  The asynchronous dispatches. \<open>future_ok\<close> is the invariant of the library's own futures between polls. For handlers and futures that use only their own
  state, one poll of a concurrent dispatch has a closed form (\<open>user_poll_slots\<close>): every future that is still running is polled
  once, in the order of the list; and a sequential dispatch runs the handlers one after another (\<open>user_sequential\<close>).
\<close>

section \<open>The futures of the library\<close>

definition running_slots :: "'n Slot list \<Rightarrow> nat" where
  "running_slots sl = length (filter is_running sl)"

fun future_ok :: "('n, 'e) notify_future \<Rightarrow> bool" where
  "future_ok (NotifyJoin rid h many sl running) \<longleftrightarrow>
     running = running_slots sl \<and> 0 < running \<and> length sl = length many"
| "future_ok (NotifyOne rid h only cu) \<longleftrightarrow> inner cu \<noteq> None"
| "future_ok (SequentialAt rid h e entry cu rest) \<longleftrightarrow> inner cu \<noteq> None"
| "future_ok _ \<longleftrightarrow> True"

lemma and_then_RetE:
  assumes "and_then r f = Some (Ret y, w2)"
  obtains x w1 where "r = Some (Ret x, w1)" "f x w1 = Some (Ret y, w2)"
  using assms by (auto simp: and_then_def split: option.splits outcome.splits)

lemma Slot_poll_done:
  "Slot_poll code R sl w = Some (Ret (fin, sl'), w') \<Longrightarrow> is_running sl \<Longrightarrow> fin \<longleftrightarrow> \<not> is_running sl'"
  by (cases sl) (auto elim!: and_then_RetE simp: Slot_poll_def split: caught.splits sum.splits)

text \<open>The counter never goes below zero: a slot that finishes was counted.\<close>

lemma poll_slots_count:
  "poll_slots code R sl k w = Some (Ret (sl', k'), w') \<Longrightarrow> k = j + running_slots sl \<Longrightarrow>
   k' = j + running_slots sl' \<and> length sl' = length sl"
proof (induction sl arbitrary: k j w sl')
  case (Cons x sl)
  show ?case
  proof (cases "is_running x")
    case True
    then obtain fin x' w1 rest where 1: "Slot_poll code R x w = Some (Ret (fin, x'), w1)"
      "poll_slots code R sl (if fin then k - 1 else k) w1 = Some (Ret (rest, k'), w')" "sl' = x' # rest"
      using Cons.prems(1) by (auto elim!: and_then_RetE)
    note d = Slot_poll_done [OF 1(1) True]
    have "(if fin then k - 1 else k) = (if fin then j else Suc j) + running_slots sl"
      using Cons.prems(2) True by (simp add: running_slots_def)
    from Cons.IH [OF 1(2) this] show ?thesis using 1(3) d by (auto simp: running_slots_def split: if_splits)
  next
    case False
    then obtain rest where 1: "poll_slots code R sl k w = Some (Ret (rest, k'), w')" "sl' = x # rest"
      using Cons.prems(1) by (auto elim!: and_then_RetE)
    then show ?thesis using Cons.IH [OF 1(1)] Cons.prems(2) False by (simp add: running_slots_def)
  qed
qed (simp add: running_slots_def)

lemma start_slots_length: "start_slots code R ev es w = Some (Ret sl, w') \<Longrightarrow> length sl = length es"
  by (induction es arbitrary: w sl) (auto elim!: and_then_RetE)

lemma CatchUnwind_poll_pending:
  "CatchUnwind_poll code R cu w = Some (Ret (None, cu'), w') \<Longrightarrow> inner cu = Some f \<Longrightarrow> \<exists>f'. inner cu' = Some f'"
  by (auto elim!: and_then_RetE simp: CatchUnwind_poll_def split: caught.splits)

lemma finished_ok: "finished r = Some (Ret f, w) \<Longrightarrow> future_ok f"
  by (auto elim!: and_then_RetE simp: finished_def)

lemma poll_one_ok: "poll_one code R hp rid h only cu w = Some (Ret f, w') \<Longrightarrow> inner cu = Some g \<Longrightarrow> future_ok f"
  by (auto elim!: and_then_RetE simp: poll_one_def split: option.splits)
    (erule (1) CatchUnwind_poll_pending, erule finished_ok)

lemma poll_join_ok:
  assumes "poll_join code R hp rid h many sl (running_slots sl) w = Some (Ret f, w')" "length sl = length many"
  shows "future_ok f"
proof -
  obtain sl' k w1 where 1: "poll_slots code R sl (running_slots sl) w = Some (Ret (sl', k), w1)"
    "(if k = 0 then finished (finish_slots hp (zip many sl') w1) else Some (Ret (NotifyJoin rid h many sl' k), w1)) = Some (Ret f, w')"
    using assms(1) by (auto elim!: and_then_RetE simp: poll_join_def)
  then show ?thesis using poll_slots_count [OF 1(1), of 0] assms(2) by (auto intro: finished_ok split: if_splits)
qed

lemma sequential_from_ok: "sequential_from code R hp rid h ev es w = Some (Ret f, w') \<Longrightarrow> future_ok f"
proof (induction es arbitrary: w)
  case (Cons e es)
  then show ?case
    by (auto elim!: and_then_RetE simp: CatchUnwind_new_def split: option.splits sum.splits)
      (erule CatchUnwind_poll_pending, simp)
qed simp

lemma notify_list_ok:
  assumes "notify_list code R hp rid h ev es w = Some (Ret f, w')"
  shows "future_ok f"
proof (cases es rule: remdups_adj.cases)
  case 1
  then show ?thesis using assms by (simp add: notify_list_def)
next
  case (2 x)
  then show ?thesis using assms
    by (auto elim!: and_then_RetE simp: notify_list_def CatchUnwind_new_def split: sum.splits)
      (erule finished_ok, erule poll_one_ok, simp)
next
  case (3 x y xs)
  then show ?thesis using assms
    by (auto elim!: and_then_RetE simp: notify_list_def running_slots_def [symmetric] dest!: start_slots_length intro: poll_join_ok)
qed

lemma scope_Ret: "list_scope dh r = Some (Ret f, w) \<Longrightarrow> f = NotifyFinished \<or> (\<exists>w'. r = Some (Ret f, w'))"
  by (auto simp: list_scope_def split: option.splits outcome.splits notify_future.splits prod.splits)

text \<open>C30: The future of a concurrent dispatch counts its running handlers exactly: between polls it has one slot per
  handler, its counter is the number of slots still running, and it is pending only while there are any. So the
  counter never underflows and no handler is forgotten. No future waits on a helper that was already finished.\<close>

theorem pending_dispatch_counts_running:
  assumes "future_ok f" "notify_poll code R f w = Some (Ret f', w')"
  shows "future_ok f'"
proof (cases f)
  case (NotifyStart rid e)
  then show ?thesis using assms(2)
    by (auto simp: notify_poll_def AsyncRegistry_notify_def keep_handle_def Let_def split: bind_splits option.splits
        dest!: scope_Ret intro: notify_list_ok)
next
  case (SequentialStart rid e)
  then show ?thesis using assms(2)
    by (auto simp: notify_poll_def AsyncRegistry_notify_sequential_def keep_handle_def Let_def split: bind_splits option.splits
        dest!: scope_Ret intro: sequential_from_ok)
next
  case (SequentialAt rid h e entry cu rest)
  then show ?thesis using assms
    by (auto elim!: and_then_RetE simp: notify_poll_def sequential_resume_def dest!: scope_Ret split: option.splits)
      (erule (1) CatchUnwind_poll_pending, erule sequential_from_ok)
qed (use assms in \<open>auto simp: notify_poll_def dest!: scope_Ret intro: poll_one_ok poll_join_ok\<close>)

text \<open>A program for the examples: handler \<open>n\<close> has priority \<open>n div 10\<close> and builds a future that is ready at its \<open>n mod 10\<close>th poll after the
  first; both log what they are called with.\<close>

definition async_demo_main :: "nat list \<Rightarrow> (nat, nat, nat list, unit) act" where
  "async_demo_main ns =
     Call (AsyncNew 4) (\<lambda>_. Call (AsyncOnPanic 0 100) (\<lambda>_.
       foldr (\<lambda>n k. Call (AsyncRegister 0 (of_nat (n div 10)) n) (\<lambda>_. k)) ns (Done ())))"

definition async_demo_state :: "nat list \<Rightarrow> (nat, nat list) spec_state" where
  "async_demo_state ns = snd (the (spec_unit demo_code (length ns + 3) (async_demo_main ns) (empty_spec [])))"

abbreviation async_entry :: "nat \<Rightarrow> nat \<Rightarrow> nat entry" where
  "async_entry i n \<equiv> \<lparr>entry_id = HandlerId (of_nat i), entry_priority = of_nat (n div 10), entry_handler = AsyncClosure n\<rparr>"

lemma async_demo:
  obtains w where "world_ok [] w" "view w = async_demo_state [12, 21, 30]" "length (aregs (client_state w)) = 1"
    "vals w ! a_handlers (the_areg 0 w) = [async_entry 3 30, async_entry 2 21, async_entry 1 12]"
    "user_state (client_state w) = []" "arcs w = []"
proof -
  let ?s = "async_demo_state [12, 21, 30]"
  have r: "map_option fst (spec_unit demo_code (length [12, 21, 30 :: nat] + 3) (async_demo_main [12, 21, 30]) (empty_spec [])) = Some (Ret ())"
    by code_simp
  obtain w where w: "world_ok [] w" "view w = ?s" by (rule demo_reaches [OF r]) (simp_all add: async_demo_state_def)
  have l: "length (aregs (sp_client ?s)) = 1" "sp_lists ?s ! a_handlers (sp_areg 0 ?s) = [async_entry 3 30, async_entry 2 21, async_entry 1 12]"
    "user_state (sp_client ?s) = []" "sp_handles ?s = []" by code_simp+
  show ?thesis by (rule that [OF w]) (use l demo_view [OF w(2)] arg_cong [OF w(2), of sp_handles] in simp_all)
qed

lemma sim_poll_exec:
  assumes "world_ok st w" "length st + m < 2 ^ 64" "\<And>rid. future_registry f = Some rid \<Longrightarrow> rid < length (aregs (client_state w))"
  shows "sim st (notify_poll code (exec code m) f w) (spec_poll code (spec_exec code m) f (view w))"
  by (rule sim_notify_poll [OF exec_alike assms(2,1)]) (rule assms(3))

theorem pending_dispatch_counts_running_witness:
  "\<exists>w w' :: (nat, nat list) world. notify_poll demo_code (exec demo_code 9) (NotifyStart 0 7) w =
     Some (Ret (NotifyJoin 0 0 [async_entry 3 30, async_entry 2 21, async_entry 1 12] [SlotDone, Running 20, Running 11] 2), w') \<and>
     future_ok (NotifyJoin 0 0 [async_entry 3 30, async_entry 2 21, async_entry 1 12] [SlotDone, Running 20, Running 11] 2)"
proof (rule async_demo)
  fix w assume w: "world_ok [] w" "view w = async_demo_state [12, 21, 30]" "length (aregs (client_state w)) = 1"
  let ?f = "NotifyJoin 0 0 [async_entry 3 30, async_entry 2 21, async_entry 1 12] [SlotDone, Running 20, Running 11] 2"
  have r: "map_option (map_prod id (\<lambda>_. ())) (spec_poll demo_code (spec_exec demo_code 9) (NotifyStart 0 7) (async_demo_state [12, 21, 30])) =
    Some (Ret ?f, ())" by code_simp
  have "sim [] (notify_poll demo_code (exec demo_code 9) (NotifyStart 0 7) w)
    (spec_poll demo_code (spec_exec demo_code 9) (NotifyStart 0 7) (async_demo_state [12, 21, 30]))"
    using sim_poll_exec [OF w(1), of 9 "NotifyStart 0 7" demo_code] w(2,3) by simp
  then obtain w' where w': "notify_poll demo_code (exec demo_code 9) (NotifyStart 0 7) w = Some (Ret ?f, w')"
    by (rule sim_result [OF _ r]) auto
  then show ?thesis using pending_dispatch_counts_running [of "NotifyStart 0 7", OF _ w'] by (intro exI [of _ w] exI [of _ w']) simp
qed

section \<open>One poll of a concurrent dispatch\<close>

fun user_poll_slots :: "nat \<Rightarrow> ('n, 'e, 'u) code \<Rightarrow> 'n Slot list \<Rightarrow> 'u \<Rightarrow> ('n Slot list \<times> 'u) option" where
  "user_poll_slots d code [] u = Some ([], u)"
| "user_poll_slots d code (Running f # rest) u = do {
     (slot, u1) \<leftarrow> (case user_run d (poll_code code f) u of
        Some (Ret Ready, u1) \<Rightarrow> Some (SlotDone, u1)
      | Some (Ret (Pending f'), u1) \<Rightarrow> Some (Running f', u1)
      | Some (Unwind p, u1) \<Rightarrow> Some (Panicked p, u1)
      | _ \<Rightarrow> None);
     (rest', u2) \<leftarrow> user_poll_slots d code rest u1;
     Some (slot # rest', u2) }"
| "user_poll_slots d code (slot # rest) u = do { (rest', u1) \<leftarrow> user_poll_slots d code rest u; Some (slot # rest', u1) }"

fun user_finish ::
  "nat \<Rightarrow> ('n, 'e, 'u) code \<Rightarrow> ('n \<times> PanicInfo) PanicCallbackHolder option \<Rightarrow> ('n entry \<times> 'n Slot) list \<Rightarrow> 'u \<Rightarrow> 'u option" where
  "user_finish d code holder [] u = Some u"
| "user_finish d code holder ((entry, Panicked p) # rest) u =
     (if quiet p then do {
        u1 \<leftarrow> user_report d code holder (PanicInfo_new (entry_id entry) p) u;
        user_finish d code holder rest u1 }
      else None)"
| "user_finish d code holder (_ # rest) u = user_finish d code holder rest u"

lemma spec_poll_slots_user:
  "user_poll_slots d code sl (user_state (sp_client s)) = Some (sl', u') \<Longrightarrow> d \<le> m \<Longrightarrow>
   \<exists>k'. poll_slots code (spec_exec code m) sl k s = Some (Ret (sl', k'), sp_set_user u' s)"
proof (induction sl arbitrary: s k sl')
  case (Cons x sl)
  have other: ?case if n: "\<not> is_running x"
  proof -
    obtain rest where 1: "user_poll_slots d code sl (user_state (sp_client s)) = Some (rest, u')" "sl' = x # rest"
      using Cons.prems(1) n by (cases x) (auto split: bind_splits)
    from Cons.IH [OF this(1) Cons.prems(2), of k] show ?thesis using n 1(2) by (auto simp: and_then_def)
  qed
  show ?case
  proof (cases x)
    case (Running f)
    obtain x' u1 rest where 1: "(case user_run d (poll_code code f) (user_state (sp_client s)) of
        Some (Ret Ready, u1) \<Rightarrow> Some (SlotDone, u1) | Some (Ret (Pending f'), u1) \<Rightarrow> Some (Running f', u1)
      | Some (Unwind p, u1) \<Rightarrow> Some (Panicked p, u1) | _ \<Rightarrow> None) = Some (x', u1)"
      "user_poll_slots d code sl u1 = Some (rest, u')" "sl' = x' # rest"
      using Cons.prems(1) Running by (auto split: bind_splits)
    obtain out where r: "user_run d (poll_code code f) (user_state (sp_client s)) = Some (out, u1)"
      using 1(1) by (auto split: option.splits outcome.splits poll.splits)
    have "\<exists>fin. Slot_poll code (spec_exec code m) x s = Some (Ret (fin, x'), sp_set_user u1 s)"
      using 1(1) r user_run_spec(3) [OF r Cons.prems(2), of code] Running
      by (auto simp: Slot_poll_def poll_caught_def spec_exec_def and_then_def catch_unwind_def split: outcome.splits poll.splits)
    then obtain fin where p: "Slot_poll code (spec_exec code m) x s = Some (Ret (fin, x'), sp_set_user u1 s)" by blast
    obtain k' where "poll_slots code (spec_exec code m) sl (if fin then k - 1 else k) (sp_set_user u1 s) = Some (Ret (rest, k'), sp_set_user u' s)"
      using Cons.IH [of "sp_set_user u1 s" rest "if fin then k - 1 else k"] 1(2) Cons.prems(2) by auto
    then show ?thesis using p Running 1(3) by (auto simp: and_then_def)
  qed (use other in auto)
qed simp

lemma spec_finish_user:
  "user_finish d code (a_panic_callback (sp_areg rid s)) zs (user_state (sp_client s)) = Some u' \<Longrightarrow> d \<le> m \<Longrightarrow>
   finish_slots (spec_async_handle_panic code (spec_exec code m) rid) zs s = Some (Ret (), sp_set_user u' s)"
proof (induction zs arbitrary: s)
  case (Cons z zs)
  obtain e x where z: "z = (e, x)" by fastforce
  show ?case
  proof (cases x)
    case (Panicked p)
    then obtain u1 where q: "quiet p"
      and u1: "user_report d code (a_panic_callback (sp_areg rid s)) (PanicInfo_new (entry_id e) p) (user_state (sp_client s)) = Some u1"
      and rest: "user_finish d code (a_panic_callback (sp_areg rid s)) zs u1 = Some u'"
      using Cons.prems(1) z by (auto split: if_splits bind_splits)
    have "spec_async_handle_panic code (spec_exec code m) rid (entry_id e) p s = Some (Ret (), sp_set_user u1 s)"
      using spec_report_user [OF u1 Cons.prems(2)] q by (simp add: spec_async_handle_panic_def quiet_def)
    moreover have "finish_slots (spec_async_handle_panic code (spec_exec code m) rid) zs (sp_set_user u1 s) = Some (Ret (), sp_set_user u' s)"
      using Cons.IH [of "sp_set_user u1 s"] rest Cons.prems(2) by simp
    ultimately show ?thesis using z Panicked by (simp add: unwind_drop_def and_then_def)
  qed (use Cons z in auto)
qed simp

lemma live_view: "sp_handles (view w) ! h \<longleftrightarrow> arcs w ! h \<noteq> None" if "h < length (arcs w)"
  using that by (auto simp: Option.is_none_def)

lemma spec_poll_join_user:
  assumes "user_poll_slots d code sl (user_state (sp_client s)) = Some (sl', u')" "d \<le> m" "k = running_slots sl"
    and "user_finish d code (a_panic_callback (sp_areg rid s)) (zip many sl') u' = Some u''"
    and "h < length (sp_handles s)" "sp_handles s ! h"
  shows "spec_poll code (spec_exec code m) (NotifyJoin rid h many sl k) s =
    (if running_slots sl' = 0 then Some (Ret NotifyFinished, (sp_set_user u'' s)\<lparr>sp_handles := (sp_handles s)[h := False]\<rparr>)
     else Some (Ret (NotifyJoin rid h many sl' (running_slots sl')), sp_set_user u' s))"
proof -
  let ?R = "spec_exec code m" and ?hp = "spec_async_handle_panic code (spec_exec code m) rid"
  obtain k' where p: "poll_slots code ?R sl k s = Some (Ret (sl', k'), sp_set_user u' s)"
    using spec_poll_slots_user [OF assms(1,2)] by blast
  have k': "k' = running_slots sl'" using poll_slots_count [OF p, of 0] assms(3) by simp
  have f: "finish_slots ?hp (zip many sl') (sp_set_user u' s) = Some (Ret (), sp_set_user u'' s)"
    using spec_finish_user [of d code "sp_set_user u' s" rid "zip many sl'" u'' m] assms(2,4) by simp
  have j: "poll_join code ?R ?hp rid h many sl k s = (if running_slots sl' = 0 then Some (Ret NotifyFinished, sp_set_user u'' s)
     else Some (Ret (NotifyJoin rid h many sl' (running_slots sl')), sp_set_user u' s))"
    by (simp add: poll_join_def p f k' finished_def and_then_def)
  have "spec_drop_handle h (sp_set_user u'' s) = Some ((sp_set_user u'' s)\<lparr>sp_handles := (sp_handles s)[h := False]\<rparr>)"
    using assms(5,6) by (simp add: spec_drop_handle_def)
  then show ?thesis by (simp add: spec_poll_def j list_scope_def)
qed


lemma async_pending_demo:
  obtains w :: "(nat, nat list) world" where "world_ok [] w" "length (aregs (client_state w)) = 1" "length (arcs w) = 1" "arcs w ! 0 \<noteq> None"
    "user_state (client_state w) = [30, 21, 12, 30, 21, 12]" "a_panic_callback (the_areg 0 w) = None"
proof -
  let ?main = "Call (AsyncNew 4) (\<lambda>_. Call (AsyncRegister 0 1 12) (\<lambda>_. Call (AsyncRegister 0 2 21) (\<lambda>_. Call (AsyncRegister 0 3 30) (\<lambda>_.
    Call (AsyncPoll (NotifyStart 0 7)) (\<lambda>_. Done ()))))) :: (nat, nat, nat list, unit) act"
  let ?s = "snd (the (spec_unit demo_code 9 ?main (empty_spec [])))"
  have r: "map_option fst (spec_unit demo_code 9 ?main (empty_spec [])) = Some (Ret ())" by code_simp
  obtain w where w: "world_ok [] w" "view w = ?s" by (rule demo_reaches [OF r]) simp_all
  have l: "length (aregs (sp_client ?s)) = 1" "user_state (sp_client ?s) = [30, 21, 12, 30, 21, 12]" "sp_handles ?s = [True]"
    "Option.is_none (a_panic_callback (sp_areg 0 ?s))" by code_simp+
  have a: "length (arcs w) = 1" "arcs w ! 0 \<noteq> None"
    using arg_cong [OF w(2), of sp_handles] l(3) by (auto simp: map_eq_Cons_conv Option.is_none_def)
  show ?thesis by (rule that [OF w(1) _ a]) (use l demo_view(2) [OF w(2)] in \<open>simp_all add: Option.is_none_def\<close>)
qed


section \<open>Sequential dispatch\<close>

text \<open>
  \<open>user_sequential\<close> runs the handlers one after another until one is pending: it builds a handler's future, polls it, and goes on to the next handler only when that one is ready
  or has panicked (and been reported). The result is the handler it is pending at, with the future's new
  state and the handlers still to come.
\<close>

fun user_await ::
  "nat \<Rightarrow> ('n, 'e, 'u) code \<Rightarrow> ('n \<times> PanicInfo) PanicCallbackHolder option \<Rightarrow> 'n entry \<Rightarrow> 'n \<Rightarrow> 'u \<Rightarrow> ('n option \<times> 'u) option" where
  "user_await d code holder entry f u =
     (case user_run d (poll_code code f) u of
        Some (Ret Ready, u1) \<Rightarrow> Some (None, u1)
      | Some (Ret (Pending f'), u1) \<Rightarrow> Some (Some f', u1)
      | Some (Unwind p, u1) \<Rightarrow>
          if quiet p then map_option (Pair None) (user_report d code holder (PanicInfo_new (entry_id entry) p) u1) else None
      | _ \<Rightarrow> None)"

definition user_begin ::
  "nat \<Rightarrow> ('n, 'e, 'u) code \<Rightarrow> ('n \<times> PanicInfo) PanicCallbackHolder option \<Rightarrow> 'e \<Rightarrow> 'n entry \<Rightarrow> 'u \<Rightarrow> ('n option \<times> 'u) option" where
  "user_begin d code holder ev entry u =
     (case entry_handler entry of
        AsyncClosure n \<Rightarrow>
          (case user_run d (build_code code n ev) u of
             Some (Ret f, u1) \<Rightarrow> user_await d code holder entry f u1
           | Some (Unwind p, u1) \<Rightarrow>
               if quiet p then map_option (Pair None) (user_report d code holder (PanicInfo_new (entry_id entry) p) u1) else None
           | _ \<Rightarrow> None)
      | _ \<Rightarrow> None)"

fun user_sequential ::
  "nat \<Rightarrow> ('n, 'e, 'u) code \<Rightarrow> ('n \<times> PanicInfo) PanicCallbackHolder option \<Rightarrow> 'e \<Rightarrow> 'n entry list \<Rightarrow> 'u \<Rightarrow>
   (('n entry \<times> 'n \<times> 'n entry list) option \<times> 'u) option" where
  "user_sequential d code holder ev [] u = Some (None, u)"
| "user_sequential d code holder ev (entry # rest) u =
     (case user_begin d code holder ev entry u of
        Some (None, u1) \<Rightarrow> user_sequential d code holder ev rest u1
      | Some (Some f, u1) \<Rightarrow> Some (Some (entry, f, rest), u1)
      | None \<Rightarrow> None)"

fun sequential_future :: "nat \<Rightarrow> nat \<Rightarrow> 'e \<Rightarrow> ('n entry \<times> 'n \<times> 'n entry list) option \<Rightarrow> ('n, 'e) notify_future" where
  "sequential_future rid h ev None = NotifyFinished"
| "sequential_future rid h ev (Some (entry, f, rest)) = SequentialAt rid h ev entry \<lparr>inner = Some f\<rparr> rest"

lemma spec_catch_poll_user:
  assumes "user_run d (poll_code code f) (user_state (sp_client s)) = Some (out, u1)" "d \<le> m"
  shows "CatchUnwind_poll code (spec_exec code m) \<lparr>inner = Some f\<rparr> s =
    (case out of Ret Ready \<Rightarrow> Some (Ret (Some (Inr ()), \<lparr>inner = None\<rparr>), sp_set_user u1 s)
     | Ret (Pending f') \<Rightarrow> Some (Ret (None, \<lparr>inner = Some f'\<rparr>), sp_set_user u1 s)
     | Unwind p \<Rightarrow> Some (Ret (Some (Inl p), \<lparr>inner = None\<rparr>), sp_set_user u1 s)
     | Abort \<Rightarrow> Some (Abort, sp_set_user u1 s))"
  using user_run_spec(3) [OF assms, of code]
  by (auto simp: CatchUnwind_poll_def poll_caught_def spec_exec_def and_then_def catch_unwind_def split: outcome.splits poll.splits)

lemma spec_finish_entry_user:
  assumes "user_report d code (a_panic_callback (sp_areg rid s)) (PanicInfo_new (entry_id e) p) (user_state (sp_client s)) = Some u'"
    "quiet p" "d \<le> m"
  shows "finish_entry (spec_async_handle_panic code (spec_exec code m) rid) e (Inl p) s = Some (Ret (), sp_set_user u' s)"
  using spec_report_user [OF assms(1,3)] assms(2) by (simp add: finish_entry_def spec_async_handle_panic_def quiet_def)

lemma sequential_from_Cons:
  "sequential_from code R hp rid h ev (e # rest) w =
     and_then (start_entry code R ev e w) (\<lambda>started w1. case started of
       Inr f \<Rightarrow> sequential_resume code R hp rid h ev e (CatchUnwind_new f) rest w1
     | Inl p \<Rightarrow> and_then (finish_entry hp e (Inl p) w1) (\<lambda>_. sequential_from code R hp rid h ev rest))"
proof -
  have "(\<lambda>started w1. and_then (case started of Inl payload \<Rightarrow> Some (Ret (Some (Inl payload), \<lparr>inner = None\<rparr>), w1)
      | Inr fut \<Rightarrow> CatchUnwind_poll code R (CatchUnwind_new fut) w1)
    (\<lambda>(r, cu) w2. case r of None \<Rightarrow> Some (Ret (SequentialAt rid h ev e cu rest), w2)
      | Some outcome \<Rightarrow> and_then (finish_entry hp e outcome w2) (\<lambda>_. sequential_from code R hp rid h ev rest))) =
    (\<lambda>started w1. case started of Inr f \<Rightarrow> sequential_resume code R hp rid h ev e (CatchUnwind_new f) rest w1
      | Inl p \<Rightarrow> and_then (finish_entry hp e (Inl p) w1) (\<lambda>_. sequential_from code R hp rid h ev rest))"
    by (auto simp: fun_eq_iff sequential_resume_def and_then_def [of "Some (Ret (Some (Inl p), c), w)" for p c w] split: sum.split)
  then show ?thesis unfolding sequential_from.simps by (rule arg_cong)
qed

text \<open>Where a sequential dispatch is after one handler: pending at it, or at the start of the rest.\<close>

definition after_handler where
  "after_handler code m rid h ev e rest r s = (case r of
     None \<Rightarrow> sequential_from code (spec_exec code m) (spec_async_handle_panic code (spec_exec code m) rid) rid h ev rest s
   | Some f \<Rightarrow> Some (Ret (SequentialAt rid h ev e \<lparr>inner = Some f\<rparr> rest), s))"

lemma spec_resume_user:
  assumes "user_await d code (a_panic_callback (sp_areg rid s)) e f (user_state (sp_client s)) = Some (r, u1)" "d \<le> m"
  shows "sequential_resume code (spec_exec code m) (spec_async_handle_panic code (spec_exec code m) rid) rid h ev e \<lparr>inner = Some f\<rparr> rest s =
    after_handler code m rid h ev e rest r (sp_set_user u1 s)"
proof -
  obtain out u0 where u: "user_run d (poll_code code f) (user_state (sp_client s)) = Some (out, u0)" and o: "out \<noteq> Abort"
    using assms(1) by (auto split: option.splits outcome.splits)
  note p = spec_catch_poll_user [OF u assms(2)]
  show ?thesis
  proof (cases out)
    case (Ret x)
    then show ?thesis using assms(1) u p
      by (cases x) (auto simp: sequential_resume_def and_then_def finish_entry_def after_handler_def)
  next
    case (Unwind q)
    then have q: "quiet q" "r = None"
      and rep: "user_report d code (a_panic_callback (sp_areg rid s)) (PanicInfo_new (entry_id e) q) u0 = Some u1"
      using assms(1) u by (auto split: if_splits)
    have "finish_entry (spec_async_handle_panic code (spec_exec code m) rid) e (Inl q) (sp_set_user u0 s) = Some (Ret (), sp_set_user u1 s)"
      using spec_finish_entry_user [of d code "sp_set_user u0 s" rid e q u1 m] rep q assms(2) by simp
    then show ?thesis using Unwind p q by (simp add: sequential_resume_def and_then_def after_handler_def)
  qed (use o in simp)
qed

lemma spec_begin_user:
  assumes "user_begin d code (a_panic_callback (sp_areg rid s)) ev e (user_state (sp_client s)) = Some (r, u1)" "d \<le> m"
  shows "sequential_from code (spec_exec code m) (spec_async_handle_panic code (spec_exec code m) rid) rid h ev (e # rest) s =
    after_handler code m rid h ev e rest r (sp_set_user u1 s)"
proof -
  obtain n where n: "entry_handler e = AsyncClosure n" using assms(1) by (auto simp: user_begin_def split: stored.splits)
  obtain out u0 where u: "user_run d (build_code code n ev) (user_state (sp_client s)) = Some (out, u0)" and o: "out \<noteq> Abort"
    using assms(1) n by (auto simp: user_begin_def split: option.splits outcome.splits)
  have st: "start_entry code (spec_exec code m) ev e s = catch_unwind (Some (out, sp_set_user u0 s))"
    using user_run_spec(2) [OF u assms(2), of code] n by (simp add: start_entry_def start_future_def spec_exec_def)
  show ?thesis
  proof (cases out)
    case (Ret f)
    then have "user_await d code (a_panic_callback (sp_areg rid s)) e f u0 = Some (r, u1)"
      using assms(1) n u by (simp add: user_begin_def del: user_await.simps)
    then show ?thesis
      using spec_resume_user [of d code "sp_set_user u0 s" rid e f r u1 m h ev rest] st Ret assms(2)
      by (simp add: sequential_from_Cons catch_unwind_def and_then_def CatchUnwind_new_def del: user_await.simps sequential_from.simps)
  next
    case (Unwind q)
    then have q: "quiet q" "r = None"
      and rep: "user_report d code (a_panic_callback (sp_areg rid s)) (PanicInfo_new (entry_id e) q) u0 = Some u1"
      using assms(1) n u by (auto simp: user_begin_def split: if_splits)
    have "finish_entry (spec_async_handle_panic code (spec_exec code m) rid) e (Inl q) (sp_set_user u0 s) = Some (Ret (), sp_set_user u1 s)"
      using spec_finish_entry_user [of d code "sp_set_user u0 s" rid e q u1 m] rep q assms(2) by simp
    then show ?thesis using Unwind st q
      by (simp add: sequential_from_Cons catch_unwind_def and_then_def after_handler_def del: sequential_from.simps)
  qed (use o in simp)
qed

lemma spec_sequential_user:
  assumes "user_sequential d code (a_panic_callback (sp_areg rid s)) ev es (user_state (sp_client s)) = Some (r, u')" "d \<le> m"
  shows "sequential_from code (spec_exec code m) (spec_async_handle_panic code (spec_exec code m) rid) rid h ev es s =
    Some (Ret (sequential_future rid h ev r), sp_set_user u' s)"
  using assms
proof (induction es arbitrary: s)
  case (Cons e es)
  obtain x u1 where b: "user_begin d code (a_panic_callback (sp_areg rid s)) ev e (user_state (sp_client s)) = Some (x, u1)"
    using Cons.prems(1) by (auto split: option.splits)
  show ?case unfolding spec_begin_user [OF b Cons.prems(2)]
  proof (cases x)
    case None
    then show "after_handler code m rid h ev e es x (sp_set_user u1 s) = Some (Ret (sequential_future rid h ev r), sp_set_user u' s)"
      using Cons.IH [of "sp_set_user u1 s"] Cons.prems b by (simp add: after_handler_def)
  next
    case (Some f)
    then show "after_handler code m rid h ev e es x (sp_set_user u1 s) = Some (Ret (sequential_future rid h ev r), sp_set_user u' s)"
      using Cons.prems b by (auto simp: after_handler_def)
  qed
qed simp

lemma scope_sequential:
  assumes "h < length (sp_handles s)" "sp_handles s ! h"
  shows "list_scope (spec_drop_handle h) (Some (Ret (sequential_future rid h ev r), s)) =
    Some (Ret (sequential_future rid h ev r), if r = None then s\<lparr>sp_handles := (sp_handles s)[h := False]\<rparr> else s)"
  using assms by (cases r) (auto simp: list_scope_def spec_drop_handle_def)



section \<open>The handle of a dispatch\<close>

fun future_handle :: "('n, 'e) notify_future \<Rightarrow> nat option" where
  "future_handle (NotifyOne rid h only cu) = Some h"
| "future_handle (NotifyJoin rid h many sl k) = Some h"
| "future_handle (SequentialAt rid h ev e cu rest) = Some h"
| "future_handle _ = None"

text \<open>C31: A dispatch that is dropped before it is finished gives back its handle on the handler list, whatever state it is in, and leaves
  every list and registry as it is; the only panic that can come out is one of a destructor of a payload it
  was still holding.\<close>

theorem cancelled_dispatch_gives_back_its_list:
  assumes "world_ok st w" "future_handle f = Some h" "h < length (arcs w)" "arcs w ! h \<noteq> None"
    and "\<And>rid many sl k. f = NotifyJoin rid h many sl k \<Longrightarrow> drop_slots sl \<noteq> Abort"
  shows "\<exists>out w'. notify_cancel f w = Some (out, w') \<and> world_ok st w' \<and> arcs w' = (arcs w)[h := None] \<and>
    client_state w' = client_state w \<and> vals w' = vals w"
proof -
  obtain a where a: "arcs w ! h = Some a" using assms(4) by blast
  have "spec_drop_handle h (view w) \<noteq> None" using assms(3,4) live_view [OF assms(3)] by (simp add: spec_drop_handle_def)
  then obtain w' where d: "drop_handle h w = Some w'" "world_ok st w'" "spec_drop_handle h (view w) = Some (view w')"
    using drop_handle_world [OF assms(1), of h] by auto
  have s: "view w' = (view w)\<lparr>sp_handles := (sp_handles (view w))[h := False]\<rparr>"
    using d(3) by (simp add: spec_drop_handle_def split: if_splits)
  obtain w1 where "arc_drop a w = Some w1" "w' = w1\<lparr>arcs := (arcs w1)[h := None]\<rparr>"
    using d(1) a assms(3) by (auto simp: drop_handle_def split: bind_splits)
  moreover from this have "arcs w1 = arcs w" by (auto simp: arc_drop_def split: option.splits)
  ultimately have r: "arcs w' = (arcs w)[h := None]" by simp
  have c: "client_state w' = client_state w" "vals w' = vals w"
    using arg_cong [OF s, of sp_client] arg_cong [OF s, of sp_lists] by simp_all
  show ?thesis
  proof (cases f)
    case (NotifyJoin rid h' many sl k)
    then have "h' = h" "drop_slots sl \<noteq> Abort" using assms(2,5) by auto
    then show ?thesis using d r c NotifyJoin
      by (cases "drop_slots sl") (auto simp: notify_cancel_def)
  qed (use assms(2) d r c in \<open>auto simp: notify_cancel_def calmly_def\<close>)
qed

theorem cancelled_dispatch_gives_back_its_list_witness:
  "\<exists>w w' :: (nat, nat list) world. \<exists>out. length (arcs w) = 1 \<and> arcs w ! 0 \<noteq> None \<and>
     notify_cancel (NotifyJoin 0 0 [async_entry 2 21, async_entry 1 12] [Running 20, Panicked (PStr ''boom'')] 1 ::
       (nat, nat) notify_future) w = Some (out, w') \<and>
     arcs w' ! 0 = None \<and> vals w' = vals w"
proof (rule async_pending_demo)
  fix w :: "(nat, nat list) world"
  assume w: "world_ok [] w" "length (arcs w) = 1" "arcs w ! 0 \<noteq> None"
  let ?f = "NotifyJoin 0 0 [async_entry 2 21, async_entry 1 12] [Running 20, Panicked (PStr ''boom'')] 1 :: (nat, nat) notify_future"
  obtain out w' where "notify_cancel ?f w = Some (out, w')" "arcs w' = (arcs w)[0 := None]" "vals w' = vals w"
    using cancelled_dispatch_gives_back_its_list [OF w(1), of ?f 0] w(2,3) by auto
  then show ?thesis using w(2,3) by (intro exI [of _ w] exI [of _ w'] exI [of _ out]) simp
qed

end
