(* ===== verification/Clients.thy ===== *)
theory Clients
  imports AsyncTheorems
begin

text \<open>
  What the programs under \<^verbatim>\<open>src/examples\<close> and \<^verbatim>\<open>src/fuzz\<close> share: taking an answer apart, printing, assertions,
  and a loop of notifications, with the rules that run such programs on the specification. Standard output is a list of lines in the
  program's state.
\<close>

section \<open>Writing programs\<close>

abbreviation unreachable :: "('n, 'e, 'u, 'r) act" where
  "unreachable \<equiv> Panic (PStr ''internal error: entered unreachable code'')"

fun with_registry :: "(nat \<Rightarrow> ('n, 'e, 'u, 'r) act) \<Rightarrow> ('n, 'e) answer \<Rightarrow> ('n, 'e, 'u, 'r) act" where
  "with_registry k (ARegistry r) = k r"
| "with_registry k _ = unreachable"

fun with_id :: "(HandlerId \<Rightarrow> ('n, 'e, 'u, 'r) act) \<Rightarrow> ('n, 'e) answer \<Rightarrow> ('n, 'e, 'u, 'r) act" where
  "with_id k (AId i) = k i"
| "with_id k _ = unreachable"

fun with_guard :: "(HandlerGuard \<Rightarrow> ('n, 'e, 'u, 'r) act) \<Rightarrow> ('n, 'e) answer \<Rightarrow> ('n, 'e, 'u, 'r) act" where
  "with_guard k (AGuard g) = k g"
| "with_guard k _ = unreachable"

fun with_bool :: "(bool \<Rightarrow> ('n, 'e, 'u, 'r) act) \<Rightarrow> ('n, 'e) answer \<Rightarrow> ('n, 'e, 'u, 'r) act" where
  "with_bool k (ABool b) = k b"
| "with_bool k _ = unreachable"

fun with_count :: "(usize \<Rightarrow> ('n, 'e, 'u, 'r) act) \<Rightarrow> ('n, 'e) answer \<Rightarrow> ('n, 'e, 'u, 'r) act" where
  "with_count k (ACount n) = k n"
| "with_count k _ = unreachable"

fun with_poll :: "(('n, 'e) notify_future \<Rightarrow> ('n, 'e, 'u, 'r) act) \<Rightarrow> ('n, 'e) answer \<Rightarrow> ('n, 'e, 'u, 'r) act" where
  "with_poll k (APoll f) = k f"
| "with_poll k _ = unreachable"

definition assert_that :: "bool \<Rightarrow> string \<Rightarrow> ('n, 'e, 'u, 'r) act \<Rightarrow> ('n, 'e, 'u, 'r) act" where
  "assert_that b msg a = (if b then a else Panic (PStr msg))"

record io =
  stdout :: "string list"

definition println :: "string \<Rightarrow> ('n, 'e, 'a io_scheme, 'r) act \<Rightarrow> ('n, 'e, 'a io_scheme, 'r) act" where
  "println line a = Change (\<lambda>u. u\<lparr>stdout := stdout u @ [line]\<rparr>) a"

definition println_each :: "string list \<Rightarrow> ('n, 'e, 'a io_scheme, 'r) act \<Rightarrow> ('n, 'e, 'a io_scheme, 'r) act" where
  "println_each lines a = foldr println lines a"

definition notify_each :: "nat \<Rightarrow> 'e list \<Rightarrow> ('n, 'e, 'u, 'r) act \<Rightarrow> ('n, 'e, 'u, 'r) act" where
  "notify_each rid evs a = foldr (\<lambda>e k. Call (Notify rid e) (\<lambda>_. k)) evs a"

text \<open>Decimal text of machine integers, as the standard library prints them.\<close>

definition show_word :: "'a :: len word \<Rightarrow> string" where
  "show_word x = decimal (unat x)"

section \<open>Running them\<close>

lemma spec_unit_Call:
  "spec_unit code (Suc n) (Call c k) s = and_then (spec_do_op code (spec_exec code n) c s) (\<lambda>x. spec_unit code n (k x))"
  by (simp add: spec_act_step_def spec_exec_def)

lemma spec_unit_Done: "spec_unit code (Suc n) (Done x) s = Some (Ret x, s)"
  by (simp add: spec_act_step_def)

lemma spec_unit_Ask: "spec_unit code (Suc n) (Ask k) s = spec_unit code n (k (user_state (sp_client s))) s"
  by (simp add: spec_act_step_def)

lemma spec_unit_Change: "spec_unit code (Suc n) (Change f a) s = spec_unit code n a (sp_set_user (f (user_state (sp_client s))) s)"
  by (simp add: spec_act_step_def sp_change_user)

lemma spec_unit_println:
  "spec_unit code (Suc n) (println line a) s =
   spec_unit code n a (sp_set_user ((user_state (sp_client s))\<lparr>stdout := stdout (user_state (sp_client s)) @ [line]\<rparr>) s)"
  by (simp add: println_def spec_unit_Change del: spec_unit.simps)

lemma spec_unit_println_each:
  "spec_unit code (length lines + n) (println_each lines a) s =
   spec_unit code n a (sp_set_user ((user_state (sp_client s))\<lparr>stdout := stdout (user_state (sp_client s)) @ lines\<rparr>) s)"
proof (induction lines arbitrary: s)
  case Nil
  then show ?case by (simp add: println_each_def)
next
  case (Cons l ls)
  then show ?case by (simp add: println_each_def spec_unit_println del: spec_unit.simps)
qed

declare spec_unit.simps [simp del]

lemmas call_simps = spec_do_op_def spec_sync_op_def sp_on_sync_def answer_with_def returning_def and_then_def

section \<open>A loop of notifications\<close>

fun deliver_all ::
  "nat \<Rightarrow> ('n, 'e, 'u) code \<Rightarrow> ('n \<times> PanicInfo) PanicCallbackHolder option \<Rightarrow> 'n entry list \<Rightarrow> 'e list \<Rightarrow> 'u \<Rightarrow> (nat \<times> 'u) option" where
  "deliver_all d code holder es [] u = Some (0, u)"
| "deliver_all d code holder es (ev # evs) u = do {
     (j, u1) \<leftarrow> deliver d code holder ev es u;
     (k, u2) \<leftarrow> deliver_all d code holder es evs u1;
     Some (j + k, u2) }"

lemma spec_notify_each:
  assumes "deliver_all d code (panic_callback (sp_reg rid s)) (sp_list (handlers (sp_reg rid s)) s) evs (user_state (sp_client s)) = Some (k, u')"
    "rid < length (regs (sp_client s))" "d \<le> m"
  shows "spec_unit code (length evs + m) (notify_each rid evs a) s = spec_unit code m a (sp_set_user u' (sp_add_panics rid k s))"
  using assms
proof (induction evs arbitrary: s k)
  case Nil
  then show ?case by (simp add: notify_each_def)
next
  case (Cons ev evs)
  let ?es = "sp_list (handlers (sp_reg rid s)) s" and ?cb = "panic_callback (sp_reg rid s)"
  obtain j u1 k' where d: "deliver d code ?cb ev ?es (user_state (sp_client s)) = Some (j, u1)"
    and all: "deliver_all d code ?cb ?es evs u1 = Some (k', u')" and k: "k = j + k'"
    using Cons.prems(1) by (auto split: bind_splits)
  let ?s1 = "sp_set_user u1 (sp_add_panics rid j s)"
  have "spec_notify code (spec_exec code (length evs + m)) rid ev s = Some (Ret (), ?s1)"
    unfolding spec_notify_def by (rule spec_dispatch_user [OF d _ Cons.prems(2)]) (use Cons.prems(3) in simp)
  then have "spec_unit code (length (ev # evs) + m) (notify_each rid (ev # evs) a) s =
      spec_unit code (length evs + m) (notify_each rid evs a) ?s1"
    using Cons.prems(2) by (simp add: notify_each_def spec_unit_Call call_simps)
  also have "\<dots> = spec_unit code m a (sp_set_user u' (sp_add_panics rid k' ?s1))"
    by (rule Cons.IH) (use all Cons.prems in \<open>simp_all add: sp_list_def\<close>)
  finally show ?case using Cons.prems(2) by (simp add: sp_add_panics_add k)
qed

text \<open>If every event changes the user's state by \<open>f\<close> and \<open>p\<close> counts its panics, a loop of them folds \<open>f\<close>.\<close>

lemma deliver_all_fold:
  assumes "\<And>ev u. deliver d code holder ev es u = Some (p ev, f ev u)"
  shows "deliver_all d code holder es evs u = Some (sum_list (map p evs), fold f evs u)"
  by (induction evs arbitrary: u) (simp_all add: assms)

end
