(* ===== verification/FuzzChurn.thy ===== *)
theory FuzzChurn
  imports Clients
begin

text \<open>
  The fuzz target \<^verbatim>\<open>src/fuzz/fuzz_targets/handler_churn.rs\<close> as a program, and the theorem that none of its assertions fails on any
  input. The byte stream is decoded by the \<^verbatim>\<open>arbitrary\<close> crate, which is a parameter here. The
  fuzzer's own bookkeeping (\<open>live_ids\<close>, \<open>stale_id\<close>) is in the arguments of \<open>churn\<close>, the counter its
  handlers share is the user state.
\<close>

section \<open>The program\<close>

datatype churn_op =
    OpRegister bool
  | OpUnregisterIndex "8 word"
  | OpUnregisterStale
  | OpClear
  | OpNotify u32
  | OpHandlerCount
  | OpContains "8 word"

datatype churn_handler = Panicky | Counting

definition churn_code :: "(churn_handler, u32, usize) code" where
  "churn_code =
     \<lparr>handler_code = (\<lambda>n _. Change (\<lambda>c. c + 1) (case n of Panicky \<Rightarrow> Panic (PStr ''fuzz panic'') | Counting \<Rightarrow> Done ())),
      callback_code = (\<lambda>_ _. Done ()), build_code = (\<lambda>n _. Done n), poll_code = (\<lambda>_. Done Ready)\<rparr>"

fun churn ::
  "nat \<Rightarrow> churn_op list \<Rightarrow> HandlerId list \<Rightarrow> HandlerId option \<Rightarrow> (churn_handler, u32, usize, unit) act" where
  "churn registry [] live_ids stale_id = Done ()"
| "churn registry (OpRegister panicky # ops) live_ids stale_id =
     Call (Register registry 0 (if panicky then Panicky else Counting)) (with_id (\<lambda>i.
       churn registry ops (live_ids @ [i]) stale_id))"
| "churn registry (OpUnregisterIndex idx # ops) live_ids stale_id =
     (if live_ids = [] then churn registry ops live_ids stale_id
      else let (i, live_ids) = swap_remove live_ids (unat idx mod length live_ids)
           in Call (Unregister registry i) (with_bool (\<lambda>b.
                assert_that b ''live id must be removable'' (churn registry ops live_ids (Some i)))))"
| "churn registry (OpUnregisterStale # ops) live_ids stale_id =
     (case stale_id of
        None \<Rightarrow> churn registry ops live_ids stale_id
      | Some i \<Rightarrow> Call (Unregister registry i) (with_bool (\<lambda>b.
          assert_that (\<not> b) ''stale id must return false'' (churn registry ops live_ids stale_id))))"
| "churn registry (OpClear # ops) live_ids stale_id = Call (Clear registry) (\<lambda>_. churn registry ops [] stale_id)"
| "churn registry (OpNotify value # ops) live_ids stale_id =
     Call (Notify registry value) (\<lambda>_. churn registry ops live_ids stale_id)"
| "churn registry (OpHandlerCount # ops) live_ids stale_id =
     Call (HandlerCount registry) (with_count (\<lambda>n.
       assert_that (n = of_nat (length live_ids)) ''assertion `left == right` failed'' (churn registry ops live_ids stale_id)))"
| "churn registry (OpContains idx # ops) live_ids stale_id =
     (if live_ids = [] then churn registry ops live_ids stale_id
      else let pos = unat idx mod length live_ids; i = live_ids ! pos
           in Call (Contains registry i) (with_bool (\<lambda>b.
                assert_that b ''live id must be contained'' (churn registry ops live_ids stale_id))))"

definition churn_target ::
  "('d \<Rightarrow> churn_op list option) \<Rightarrow> 'd \<Rightarrow> (churn_handler, u32, usize, unit) act" where
  "churn_target arbitrary data =
     (case arbitrary data of
        None \<Rightarrow> Done ()
      | Some ops \<Rightarrow> Call (SyncNew 0) (with_registry (\<lambda>registry. churn registry ops [] None)))"

section \<open>How often handlers run\<close>

text \<open>The number of handler calls the fuzzer should see, from the number of live handlers.\<close>

fun churn_calls :: "churn_op list \<Rightarrow> nat \<Rightarrow> nat" where
  "churn_calls [] k = 0"
| "churn_calls (OpRegister p # ops) k = churn_calls ops (Suc k)"
| "churn_calls (OpUnregisterIndex idx # ops) k = churn_calls ops (k - 1)"
| "churn_calls (OpClear # ops) k = churn_calls ops 0"
| "churn_calls (OpNotify v # ops) k = k + churn_calls ops k"
| "churn_calls (_ # ops) k = churn_calls ops k"

section \<open>The invariant\<close>

text \<open>The fuzzer's bookkeeping is the registry's list.\<close>

definition churn_inv :: "nat \<Rightarrow> HandlerId list \<Rightarrow> HandlerId option \<Rightarrow> (churn_handler, usize) spec_state \<Rightarrow> bool" where
  "churn_inv r live stale s \<longleftrightarrow>
     r < length (regs (sp_client s)) \<and> handlers (sp_reg r s) < length (sp_lists s) \<and> panic_callback (sp_reg r s) = None \<and>
     mset (ids (sp_list (handlers (sp_reg r s)) s)) = mset live \<and> distinct live \<and>
     (\<forall>e\<in>set (sp_list (handlers (sp_reg r s)) s). \<exists>h. entry_handler e = Plain h) \<and>
     (\<forall>i\<in>set live \<union> set_option stale. unat (as_u64 i) < unat (gen_next (id_generator (sp_reg r s)))) \<and>
     (\<forall>i\<in>set_option stale. i \<notin> set live)"

lemma swap_remove_distinct:
  assumes "swap_remove xs pos = (x, ys)" "pos < length xs" "distinct xs"
  shows "x = xs ! pos" "mset ys = mset (remove1 x xs)" "set ys = set xs - {x}" "distinct ys" "length ys = length xs - 1"
proof -
  show x: "x = xs ! pos" using assms(1) by (simp add: swap_remove_def)
  have "mset xs = add_mset x (mset ys)" using mset_swap_remove [OF assms(2)] assms(1) by simp
  then show m: "mset ys = mset (remove1 x xs)" by simp
  show "set ys = set xs - {x}" "distinct ys" using mset_eq_setD [OF m] mset_eq_imp_distinct_iff [OF m] assms(3) by simp_all
  show "length ys = length xs - 1" using length_swap_remove [OF assms(2)] assms(1) by simp
qed

lemma ids_remove_entry: "ids (remove_entry hid es) = remove1 hid (ids es)"
  by (induction es) (simp_all add: remove_entry_def ids_def)

lemma set_remove_entry: "set (remove_entry hid es) \<subseteq> set es"
  by (induction es) (auto simp: remove_entry_def)

section \<open>Every assertion holds\<close>

lemma churn_deliver:
  "\<forall>e\<in>set es. \<exists>h. entry_handler e = Plain h \<Longrightarrow> \<exists>k. deliver 2 churn_code None ev es c = Some (k, c + of_nat (length es))"
proof (induction es arbitrary: c)
  case (Cons e es)
  then obtain h where h: "entry_handler e = Plain h" by auto
  obtain k where "deliver 2 churn_code None ev es (c + 1) = Some (k, c + 1 + of_nat (length es))" using Cons by force
  then show ?case using h by (cases h) (simp_all add: churn_code_def user_report_def numeral_2_eq_2 algebra_simps)
qed simp

lemmas op_simps = spec_unit_Call spec_unit_Done call_simps assert_that_def

lemma churn_register:
  assumes inv: "churn_inv r live stale s" and g: "gen_next (id_generator (sp_reg r s)) + 1 \<noteq> 0" and reg: "spec_register r p h s = (hid, s')"
  shows "churn_inv r (live @ [hid]) stale s'" "user_state (sp_client s') = user_state (sp_client s)"
    "unat (gen_next (id_generator (sp_reg r s'))) = Suc (unat (gen_next (id_generator (sp_reg r s))))"
proof -
  let ?g = "gen_next (id_generator (sp_reg r s))" and ?c = "handlers (sp_reg r s)"
  note d = spec_register_def spec_next_id_def HandlerIdGenerator_next_def from_raw_def split_beta sp_insert_def sp_set_list_def sp_list_def
    sp_with_client_def set_reg_def Let_def
  have i: "r < length (regs (sp_client s))" "?c < length (sp_lists s)" using inv by (simp_all add: churn_inv_def)
  have s': "hid = HandlerId ?g" "handlers (sp_reg r s') = ?c" "panic_callback (sp_reg r s') = panic_callback (sp_reg r s)"
    "gen_next (id_generator (sp_reg r s')) = ?g + 1" "length (regs (sp_client s')) = length (regs (sp_client s))"
    "length (sp_lists s') = length (sp_lists s)" "user_state (sp_client s') = user_state (sp_client s)"
    "sp_list ?c s' = insert_entry \<lparr>entry_id = hid, entry_priority = p, entry_handler = Plain h\<rparr> (sp_list ?c s)"
    using reg i by (auto simp: d)
  show "user_state (sp_client s') = user_state (sp_client s)" by (fact s')
  show u: "unat (gen_next (id_generator (sp_reg r s'))) = Suc (unat ?g)" using unat_next [OF g] s'(4) by simp
  have "mset (ids (insert_entry e es)) = add_mset (entry_id e) (mset (ids es))" for e :: "churn_handler entry" and es
    using arg_cong [OF mset_insert_entry [of e es], of "image_mset entry_id"] by (simp add: ids_def)
  moreover have "hid \<notin> set live" using inv s'(1) unfolding churn_inv_def by (metis as_u64.simps UnI1 less_irrefl)
  ultimately show "churn_inv r (live @ [hid]) stale s'" using inv u s' unfolding churn_inv_def
    by (auto simp: set_insert_entry less_Suc_eq)
qed

lemma churn_unregister_live:
  assumes inv: "churn_inv r live stale s" and pos: "pos < length live" and sw: "swap_remove live pos = (i, live')"
    and un: "spec_unregister r i s = (b, s')"
  shows "b" "churn_inv r live' (Some i) s'" "user_state (sp_client s') = user_state (sp_client s)"
    "id_generator (sp_reg r s') = id_generator (sp_reg r s)" "length live' = length live - 1"
proof -
  let ?c = "handlers (sp_reg r s)"
  have m: "mset (ids (sp_list ?c s)) = mset live" and d: "distinct live" and c: "?c < length (sp_lists s)"
    using inv by (simp_all add: churn_inv_def)
  note sw = swap_remove_distinct [OF sw pos d]
  have mem: "i \<in> set live" using pos sw(1) by simp
  then have i: "i \<in> set (ids (sp_list ?c s))" using mset_eq_setD [OF m] by simp
  show "b" "user_state (sp_client s') = user_state (sp_client s)" "id_generator (sp_reg r s') = id_generator (sp_reg r s)"
    "length live' = length live - 1"
    using un i sw(5) by (auto simp: spec_unregister_def sp_remove_def sp_set_list_def)
  have s': "sp_client s' = sp_client s" "length (sp_lists s') = length (sp_lists s)" "sp_list ?c s' = remove_entry i (sp_list ?c s)"
    using un i c by (auto simp: spec_unregister_def sp_remove_def sp_set_list_def sp_list_def)
  have "mset (ids (remove_entry i (sp_list ?c s))) = mset live'" by (simp add: ids_remove_entry m sw(2))
  then show "churn_inv r live' (Some i) s'"
    using inv s' mem sw(3,4) set_remove_entry [of i "sp_list ?c s"] unfolding churn_inv_def by auto
qed

lemma churn_unregister_stale:
  assumes inv: "churn_inv r live (Some i) s"
  shows "spec_unregister r i s = (False, s)"
  using inv mset_eq_setD [of "ids (sp_list (handlers (sp_reg r s)) s)" live]
  by (simp add: churn_inv_def spec_unregister_def sp_remove_def)

lemma churn_clear:
  assumes inv: "churn_inv r live stale s"
  shows "churn_inv r [] stale (sp_clear (handlers (sp_reg r s)) s)" "sp_client (sp_clear c s) = sp_client s"
  using inv by (auto simp: churn_inv_def sp_clear_def sp_set_list_def sp_list_def ids_def)

lemma churn_notify:
  assumes inv: "churn_inv r live stale s" and m: "2 \<le> m"
  shows "\<exists>s'. spec_notify churn_code (spec_exec churn_code m) r ev s = Some (Ret (), s') \<and> churn_inv r live stale s' \<and>
    user_state (sp_client s') = user_state (sp_client s) + of_nat (length live) \<and>
    id_generator (sp_reg r s') = id_generator (sp_reg r s)"
proof -
  let ?es = "sp_list (handlers (sp_reg r s)) s" and ?u = "user_state (sp_client s)"
  have i: "r < length (regs (sp_client s))" "panic_callback (sp_reg r s) = None" using inv by (simp_all add: churn_inv_def)
  have l: "length ?es = length live" using inv mset_eq_length [of "ids ?es" live] by (simp add: churn_inv_def ids_def)
  obtain k where k: "deliver 2 churn_code None ev ?es ?u = Some (k, ?u + of_nat (length ?es))"
    using inv churn_deliver [of ?es ev ?u] by (auto simp: churn_inv_def)
  have "spec_notify churn_code (spec_exec churn_code m) r ev s =
      Some (Ret (), sp_set_user (?u + of_nat (length ?es)) (sp_add_panics r k s))"
    unfolding spec_notify_def by (rule spec_dispatch_user [OF _ m i(1)]) (simp add: i k)
  then show ?thesis using inv i l
    by (auto simp: churn_inv_def sp_list_def)
qed

lemma churn_holds:
  assumes "churn_inv r live stale s" "unat (gen_next (id_generator (sp_reg r s))) + length ops < 2 ^ 64" "length ops + 2 \<le> m"
  shows "\<exists>s'. spec_unit churn_code m (churn r ops live stale) s = Some (Ret (), s') \<and>
    user_state (sp_client s') = user_state (sp_client s) + of_nat (churn_calls ops (length live))"
  using assms
proof (induction ops arbitrary: live stale s m)
  case Nil
  then obtain m' where "m = Suc m'" by (cases m) auto
  then show ?case by (simp add: op_simps)
next
  case (Cons c ops)
  obtain m' where m: "m = Suc m'" "length ops + 2 \<le> m'" using Cons.prems by (cases m) auto
  have r: "r < length (regs (sp_client s))" using Cons.prems by (simp add: churn_inv_def)
  let ?g = "unat (gen_next (id_generator (sp_reg r s)))"
  note IH = Cons.IH [OF _ _ m(2)]
  note inv = Cons.prems(1)
  let ?es = "sp_list (handlers (sp_reg r s)) s"
  have ms: "mset (ids ?es) = mset live" using inv by (simp add: churn_inv_def)
  show ?case
  proof (cases c)
    case (OpRegister p)
    obtain hid s1 where reg: "spec_register r 0 (if p then Panicky else Counting) s = (hid, s1)" by fastforce
    have "gen_next (id_generator (sp_reg r s)) + 1 \<noteq> 0"
    proof
      assume "gen_next (id_generator (sp_reg r s)) + 1 = 0"
      then have "gen_next (id_generator (sp_reg r s)) = - 1" by (simp add: eq_neg_iff_add_eq_0)
      then show False using Cons.prems(2) by (simp add: unsigned_minus_1_eq_mask mask_eq_exp_minus_1)
    qed
    note reg' = churn_register [OF inv this reg]
    show ?thesis using IH [OF reg'(1)] reg' Cons.prems(2) OpRegister r reg m by (auto simp: op_simps)
  next
    case (OpUnregisterIndex idx)
    show ?thesis
    proof (cases "live = []")
      case True
      then show ?thesis using Cons.IH [OF inv, of m] Cons.prems OpUnregisterIndex by simp
    next
      case False
      then have pos: "unat idx mod length live < length live" by simp
      obtain i live' where sw: "swap_remove live (unat idx mod length live) = (i, live')" by fastforce
      obtain b s1 where un: "spec_unregister r i s = (b, s1)" by fastforce
      note un' = churn_unregister_live [OF inv pos sw un]
      show ?thesis using IH [OF un'(2)] un' Cons.prems(2) OpUnregisterIndex r un m False sw by (auto simp: op_simps)
    qed
  next
    case OpUnregisterStale
    then show ?thesis using IH [OF inv] Cons.IH [OF inv, of m] Cons.prems r m churn_unregister_stale [of r live]
      by (cases stale) (auto simp: op_simps)
  next
    case OpClear
    then show ?thesis using IH [OF churn_clear(1) [OF inv]] churn_clear(2) [OF inv] Cons.prems r m by (auto simp: op_simps)
  next
    case (OpNotify v)
    obtain s1 where "spec_notify churn_code (spec_exec churn_code m') r v s = Some (Ret (), s1)" "churn_inv r live stale s1"
      "user_state (sp_client s1) = user_state (sp_client s) + of_nat (length live)" "id_generator (sp_reg r s1) = id_generator (sp_reg r s)"
      using churn_notify [OF inv, of m' v] m by auto
    then show ?thesis using IH [of live stale s1] Cons.prems r m OpNotify by (auto simp: op_simps algebra_simps)
  next
    case OpHandlerCount
    have "length ?es = length live" using mset_eq_length [OF ms] by (simp add: ids_def)
    then show ?thesis using IH [OF inv] Cons.prems r m OpHandlerCount by (auto simp: op_simps)
  next
    case (OpContains idx)
    have "live \<noteq> [] \<Longrightarrow> live ! (unat idx mod length live) \<in> set (ids ?es)" using mset_eq_setD [OF ms] by simp
    then show ?thesis using IH [OF inv] Cons.IH [OF inv, of m] Cons.prems r m OpContains by (auto simp: op_simps Let_def)
  qed
qed



end
