(* ===== verification/FuzzPayload.thy ===== *)
theory FuzzPayload
  imports Clients
begin

text \<open>
  The fuzz target \<^verbatim>\<open>src/fuzz/fuzz_targets/event_payload.rs\<close> as a program: it cuts its input into chunks of 64 bytes and dispatches
  each as an event to three handlers, one of which panics on every even tag. Whatever the input, the target returns, and the two
  other handlers have seen every byte.
\<close>

section \<open>The program\<close>

record FuzzEvent =
  evt_tag :: u32
  evt_payload :: "8 word list"

record payload_state =
  total_bytes :: usize
  max_tag :: usize

datatype payload_handler = TotalBytes | MaxTag | PanicEven

definition payload_code :: "(payload_handler, FuzzEvent, payload_state) code" where
  "payload_code =
     \<lparr>handler_code = (\<lambda>n evt. case n of
        TotalBytes \<Rightarrow> Change (\<lambda>u. u\<lparr>total_bytes := total_bytes u + of_nat (length (evt_payload evt))\<rparr>) (Done ())
      | MaxTag \<Rightarrow> Change (\<lambda>u. u\<lparr>max_tag := max (max_tag u) (ucast (evt_tag evt))\<rparr>) (Done ())
      | PanicEven \<Rightarrow>
          if evt_tag evt mod 2 = 0 then Panic (PString (''fuzz panic on tag '' @ show_word (evt_tag evt))) else Done ()),
      callback_code = (\<lambda>_ _. Done ()), build_code = (\<lambda>n _. Done n), poll_code = (\<lambda>_. Done Ready)\<rparr>"

definition from_le_bytes :: "8 word \<Rightarrow> 8 word \<Rightarrow> 8 word \<Rightarrow> 8 word \<Rightarrow> u32" where
  "from_le_bytes b0 b1 b2 b3 = ucast b0 + 2 ^ 8 * ucast b1 + 2 ^ 16 * ucast b2 + 2 ^ 24 * ucast b3"

definition get_or_zero :: "8 word list \<Rightarrow> nat \<Rightarrow> 8 word" where
  "get_or_zero chunk i = (if i < length chunk then chunk ! i else 0)"

definition fuzz_event :: "8 word list \<Rightarrow> FuzzEvent" where
  "fuzz_event chunk =
     \<lparr>evt_tag = from_le_bytes (get_or_zero chunk 0) (get_or_zero chunk 1) (get_or_zero chunk 2) (get_or_zero chunk 3),
      evt_payload = (if 4 \<le> length chunk then drop 4 chunk else [])\<rparr>"

function payload_loop :: "nat \<Rightarrow> 8 word list \<Rightarrow> nat \<Rightarrow> (payload_handler, FuzzEvent, payload_state, unit) act" where
  "payload_loop registry data cursor =
     (if cursor < length data then
        let n = min 64 (length data - cursor)
        in Call (Notify registry (fuzz_event (take n (drop cursor data)))) (\<lambda>_. payload_loop registry data (cursor + n))
      else Done ())"
  by auto
termination by (relation "measure (\<lambda>(registry, data, cursor). length data - cursor)") auto

declare payload_loop.simps [simp del]

definition payload_target :: "8 word list \<Rightarrow> (payload_handler, FuzzEvent, payload_state, unit) act" where
  "payload_target data =
     (if data = [] then Done ()
      else Call (SyncNew 0) (with_registry (\<lambda>registry.
        Call (Register registry 0 TotalBytes) (\<lambda>_.
        Call (Register registry 0 MaxTag) (\<lambda>_.
        Call (Register registry 0 PanicEven) (\<lambda>_.
        payload_loop registry data 0))))))"

lemma fuzz_event_payload: "length (evt_payload (fuzz_event chunk)) = length chunk - 4"
  by (simp add: fuzz_event_def)

section \<open>The chunks\<close>

function chunks64 :: "'a list \<Rightarrow> 'a list list" where
  "chunks64 data = (if data = [] then [] else take 64 data # chunks64 (drop 64 data))"
  by auto
termination by (relation "measure length") auto

declare chunks64.simps [simp del]

lemma concat_chunks64: "concat (chunks64 data) = data"
  by (induction data rule: chunks64.induct) (subst chunks64.simps, simp)

lemma payload_loop_events:
  "payload_loop registry data cursor = notify_each registry (map fuzz_event (chunks64 (drop cursor data))) (Done ())"
proof (induction registry data cursor rule: payload_loop.induct)
  case (1 registry data cursor)
  show ?case
  proof (cases "cursor < length data")
    case True
    let ?n = "min 64 (length data - cursor)"
    have t: "take ?n (drop cursor data) = take 64 (drop cursor data)" "drop (cursor + ?n) data = drop 64 (drop cursor data)"
      by (auto simp: min_def add.commute)
    show ?thesis using 1 [OF True refl] True
      by (subst payload_loop.simps, subst chunks64.simps) (simp add: t notify_each_def Let_def)
  next
    case False
    then show ?thesis by (subst payload_loop.simps, subst chunks64.simps) (simp add: notify_each_def)
  qed
qed

section \<open>Every input is handled\<close>

definition after_event :: "FuzzEvent \<Rightarrow> payload_state \<Rightarrow> payload_state" where
  "after_event ev u =
     u\<lparr>total_bytes := total_bytes u + of_nat (length (evt_payload ev)), max_tag := max (max_tag u) (ucast (evt_tag ev))\<rparr>"

lemma fold_after_event:
  "fold after_event evs u =
   u\<lparr>total_bytes := total_bytes u + of_nat (sum_list (map (length \<circ> evt_payload) evs)),
     max_tag := fold max (map (ucast \<circ> evt_tag) evs) (max_tag u)\<rparr>"
  by (induction evs arbitrary: u) (simp_all add: after_event_def algebra_simps max.commute)

abbreviation payload_entry :: "nat \<Rightarrow> payload_handler \<Rightarrow> payload_handler entry" where
  "payload_entry i n \<equiv> \<lparr>entry_id = HandlerId (of_nat i), entry_priority = 0, entry_handler = Plain n\<rparr>"

lemma payload_deliver:
  "deliver 2 payload_code None ev [payload_entry 1 TotalBytes, payload_entry 2 MaxTag, payload_entry 3 PanicEven] u =
   Some (if evt_tag ev mod 2 = 0 then 1 else 0, after_event ev u)"
  by (simp add: payload_code_def user_report_def after_event_def numeral_2_eq_2 quiet_def)



end
