(* ===== verification/Examples.thy ===== *)
theory Examples
  imports Clients
begin

text \<open>
  The four short programs \<^verbatim>\<open>basic\<close>, \<^verbatim>\<open>priority\<close>, \<^verbatim>\<open>guards\<close> and \<^verbatim>\<open>panic_isolation\<close> under
  \<^verbatim>\<open>src/examples\<close>, line by line. Each has its closures as a datatype, the values the closures share in a record that extends the standard output,
  and its \<open>main\<close>. What they print is computed on the specification and holds of the code by the refinement.
\<close>

section \<open>basic\<close>

datatype Tick = Tick u32

datatype basic_handler = AddTick | ObserveTick

record basic_state = io +
  counter :: u32

definition basic_code :: "(basic_handler, Tick, basic_state) code" where
  "basic_code =
     \<lparr>handler_code = (\<lambda>n tick. case tick of Tick t \<Rightarrow> (case n of
        AddTick \<Rightarrow> Change (\<lambda>u. u\<lparr>counter := counter u + t\<rparr>) (Done ())
      | ObserveTick \<Rightarrow> println (''observed tick: '' @ show_word t) (Done ()))),
      callback_code = (\<lambda>_ _. Done ()), build_code = (\<lambda>n _. Done n), poll_code = (\<lambda>_. Done Ready)\<rparr>"

definition basic_main :: "(basic_handler, Tick, basic_state, unit) act" where
  "basic_main =
     Call (SyncNew 0) (with_registry (\<lambda>registry.
     Call (Register registry 0 AddTick) (with_id (\<lambda>id_add.
     Call (Register registry 0 ObserveTick) (\<lambda>_.
     Call (Notify registry (Tick 2)) (\<lambda>_.
     Call (Notify registry (Tick 3)) (\<lambda>_.
     Ask (\<lambda>u. println (''total accumulated: '' @ show_word (counter u)) (
     Call (Unregister registry id_add) (with_bool (\<lambda>b. assert_that b ''assertion failed: registry.unregister(id_add)'' (
     Call (Notify registry (Tick 100)) (\<lambda>_.
     Ask (\<lambda>u. println (''after unregistering the accumulator, total stayed at: '' @ show_word (counter u)) (
     Done ())))))))))))))))"

section \<open>priority\<close>

datatype priority_handler = HiPrio | DefaultPrio | LoPrio

record priority_state = io +
  order :: "string list"

definition priority_code :: "(priority_handler, string, priority_state) code" where
  "priority_code =
     \<lparr>handler_code = (\<lambda>n event. Change (\<lambda>u. u\<lparr>order := order u @
        [(case n of HiPrio \<Rightarrow> ''hi-prio: '' | DefaultPrio \<Rightarrow> ''default: '' | LoPrio \<Rightarrow> ''lo-prio: '') @ event]\<rparr>) (Done ())),
      callback_code = (\<lambda>_ _. Done ()), build_code = (\<lambda>n _. Done n), poll_code = (\<lambda>_. Done Ready)\<rparr>"

definition priority_main :: "(priority_handler, string, priority_state, unit) act" where
  "priority_main =
     Call (SyncNew 0) (with_registry (\<lambda>registry.
     Call (Register registry 50 HiPrio) (\<lambda>_.
     Call (Register registry 0 DefaultPrio) (\<lambda>_.
     Call (Register registry (- 100) LoPrio) (\<lambda>_.
     Call (Notify registry ''ping'') (\<lambda>_.
     Ask (\<lambda>u. println_each (order u) (Done ()))))))))"

section \<open>guards\<close>

datatype guards_handler = Guarded | Detached

definition guards_code :: "(guards_handler, u32, io) code" where
  "guards_code =
     \<lparr>handler_code = (\<lambda>n x. println
        ((case n of Guarded \<Rightarrow> ''guarded handler saw: '' | Detached \<Rightarrow> ''detached handler saw: '') @ show_word x) (Done ())),
      callback_code = (\<lambda>_ _. Done ()), build_code = (\<lambda>n _. Done n), poll_code = (\<lambda>_. Done Ready)\<rparr>"

definition guards_main :: "(guards_handler, u32, io, unit) act" where
  "guards_main =
     Call (SyncNew 0) (with_registry (\<lambda>registry.
     Call (HandlerCount registry) (with_count (\<lambda>k. println (''initial handler count: '' @ show_word k) (
     Call (RegisterGuard registry 0 Guarded) (with_guard (\<lambda>guard1.
     Call (HandlerCount registry) (with_count (\<lambda>k. println (''inside scope: handler count = '' @ show_word k) (
     Call (Notify registry 7) (\<lambda>_.
     Call (GuardDrop guard1) (\<lambda>_.
     Call (HandlerCount registry) (with_count (\<lambda>k. println (''after scope: handler count = '' @ show_word k) (
     Call (RegisterGuard registry 0 Detached) (with_guard (\<lambda>guard. let detached_id = HandlerGuard_id guard in
     Call (GuardForget guard) (with_guard (\<lambda>forgotten.
     Call (GuardDrop forgotten) (\<lambda>_.
     Call (HandlerCount registry) (with_count (\<lambda>k. println
       (''after forget: handler count = '' @ show_word k @ '', detached id = '' @ HandlerId_display detached_id) (
     Call (Notify registry 42) (\<lambda>_.
     Call (Unregister registry detached_id) (with_bool (\<lambda>b. assert_that b ''assertion failed: registry.unregister(detached_id)'' (
     Call (HandlerCount registry) (with_count (\<lambda>k. println (''final handler count: '' @ show_word k) (
     Done ()))))))))))))))))))))))))))))))"

section \<open>panic_isolation\<close>

datatype isolation_closure = OnPanicClosure | Fine nat | Broken string

record isolation_state = io +
  panic_total :: u32

definition isolation_code :: "(isolation_closure, unit, isolation_state) code" where
  "isolation_code =
     \<lparr>handler_code = (\<lambda>n _. case n of
        Fine k \<Rightarrow> println (''handler '' @ decimal k @ (if k = 1 then '': fine'' else '': still ran'')) (Done ())
      | Broken msg \<Rightarrow> Panic (PStr msg)
      | OnPanicClosure \<Rightarrow> unreachable),
      callback_code = (\<lambda>_ info. Change (\<lambda>u. u\<lparr>panic_total := panic_total u + 1\<rparr>)
        (println (''[panic] handler '' @ HandlerId_display (PanicInfo_handler_id info) @ '' failed: '' @
           (case PanicInfo_message info of Some m \<Rightarrow> m | None \<Rightarrow> ''<opaque>'')) (Done ()))),
      build_code = (\<lambda>n _. Done n), poll_code = (\<lambda>_. Done Ready)\<rparr>"

definition isolation_main :: "(isolation_closure, unit, isolation_state, unit) act" where
  "isolation_main =
     Call (SyncNew 0) (with_registry (\<lambda>registry.
     Call (OnPanic registry OnPanicClosure) (\<lambda>_.
     Call (Register registry 0 (Fine 1)) (\<lambda>_.
     Call (Register registry 0 (Broken ''handler 2 is broken'')) (\<lambda>_.
     Call (Register registry 0 (Fine 3)) (\<lambda>_.
     Call (Register registry 0 (Broken ''handler 4 also broken'')) (\<lambda>_.
     Call (HandlerCount registry) (with_count (\<lambda>k. println (''dispatching to '' @ show_word k @ '' handlers...'') (
     Call (Notify registry ()) (\<lambda>_.
     Ask (\<lambda>u. println (''notify returned cleanly. observed '' @ show_word (panic_total u) @ '' panics across handlers.'') (
     Done ())))))))))))))"

section \<open>What they print\<close>

lemma basic_run:
  "spec_main basic_code 15 basic_main \<lparr>stdout = [], counter = 0\<rparr> = Some (Ret (),
     \<lparr>stdout = [''observed tick: 2'', ''observed tick: 3'', ''total accumulated: 5'', ''observed tick: 100'',
        ''after unregistering the accumulator, total stayed at: 5''], counter = 5\<rparr>)"
  by code_simp

lemma priority_run:
  "map_option (\<lambda>(out, u). (out, stdout u)) (spec_main priority_code 12 priority_main \<lparr>stdout = [], order = []\<rparr>) =
   Some (Ret (), [''hi-prio: ping'', ''default: ping'', ''lo-prio: ping''])"
  by code_simp

lemma guards_run:
  "spec_main guards_code 25 guards_main \<lparr>stdout = []\<rparr> = Some (Ret (),
     \<lparr>stdout = [''initial handler count: 0'', ''inside scope: handler count = 1'', ''guarded handler saw: 7'',
        ''after scope: handler count = 0'', ''after forget: handler count = 1, detached id = 2'', ''detached handler saw: 42'',
        ''final handler count: 0'']\<rparr>)"
  by code_simp

lemma isolation_run:
  "spec_main isolation_code 15 isolation_main \<lparr>stdout = [], panic_total = 0\<rparr> = Some (Ret (),
     \<lparr>stdout = [''dispatching to 4 handlers...'', ''handler 1: fine'', ''[panic] handler 2 failed: handler 2 is broken'',
        ''handler 3: still ran'', ''[panic] handler 4 failed: handler 4 also broken'',
        ''notify returned cleanly. observed 2 panics across handlers.''], panic_total = 2\<rparr>)"
  by code_simp


end
