(* ===== verification/Patterns.thy ===== *)
theory Patterns
  imports Clients
begin

text \<open>
  Three of the pattern programs under \<^verbatim>\<open>src/examples\<close>: transaction hooks, audit fan-out and metric collection. The traffic
  each of them drives through its registry is a parameter of its \<open>run\<close> function, of which \<open>main\<close> is one instance, so the
  theorems hold for any traffic.
\<close>

lemmas setup_simps = spec_unit_Call call_simps spec_new_def empty_spec_def sp_with_client_def spec_register_def spec_next_id_def
  HandlerIdGenerator_new_def HandlerIdGenerator_next_def from_raw_def set_reg_def sp_insert_def sp_set_list_def sp_list_def insert_entry_def

abbreviation one_registry :: "'n entry list \<Rightarrow> u64 \<Rightarrow> 'u \<Rightarrow> ('n, 'u) spec_state" where
  "one_registry es g u \<equiv> \<lparr>sp_lists = [es],
     sp_client = \<lparr>regs = [\<lparr>handlers = 0, id_generator = \<lparr>gen_next = g\<rparr>, panic_callback = None, panics = 0, reg_alive = True\<rparr>],
       aregs = [], once_slots = [], user_state = u\<rparr>, sp_handles = []\<rparr>"

text \<open>A loop of notifications over handlers that do not panic.\<close>

lemma notify_each_calm:
  assumes "\<And>ev u. deliver d code None ev es u = Some (0, f ev u)" "d \<le> m"
  shows "spec_unit code (length evs + m) (notify_each 0 evs a) (one_registry es g u) = spec_unit code m a (one_registry es g (fold f evs u))"
proof -
  have 0: "sum_list (map (\<lambda>ev. 0) evs) = (0 :: nat)" by (induction evs) simp_all
  have d: "deliver_all d code None es evs u = Some (0, fold f evs u)"
    using deliver_all_fold [where p = "\<lambda>ev. 0", OF assms(1), of evs u] by (simp only: 0)
  show ?thesis using spec_notify_each [of d code "one_registry es g u" 0 evs 0 "fold f evs u" m a] d assms(2)
    by (simp add: sp_list_def sp_set_user_def sp_with_client_def)
qed

section \<open>Transaction hooks\<close>

datatype Transition = Begun | Prepared | Committed | Aborted | RecoveredFromCrash

record TransactionEvent =
  txid :: u64
  transition :: Transition

datatype hook = WalFlush | CacheInvalidate | Replication | Metrics

record hooks_state = io +
  hook_order :: "(u64 \<times> string) list"

definition hook_log :: "hook \<Rightarrow> TransactionEvent \<Rightarrow> (u64 \<times> string) list" where
  "hook_log n evt = (case n of
     WalFlush \<Rightarrow> if transition evt = Committed then [(txid evt, ''wal:flush'')] else []
   | CacheInvalidate \<Rightarrow>
       (case transition evt of Committed \<Rightarrow> [(txid evt, ''cache:invalidate'')] | Aborted \<Rightarrow> [(txid evt, ''cache:invalidate'')] | _ \<Rightarrow> [])
   | Replication \<Rightarrow> if transition evt = Committed then [(txid evt, ''replication:send'')] else []
   | Metrics \<Rightarrow> [(txid evt, case transition evt of
       Begun \<Rightarrow> ''metrics:tx_begun'' | Prepared \<Rightarrow> ''metrics:tx_prepared'' | Committed \<Rightarrow> ''metrics:tx_committed''
     | Aborted \<Rightarrow> ''metrics:tx_aborted'' | RecoveredFromCrash \<Rightarrow> ''metrics:tx_recovered'')])"

definition hooks_code :: "(hook, TransactionEvent, hooks_state) code" where
  "hooks_code =
     \<lparr>handler_code = (\<lambda>n evt. Change (\<lambda>u. u\<lparr>hook_order := hook_order u @ hook_log n evt\<rparr>) (Done ())),
      callback_code = (\<lambda>_ _. Done ()), build_code = (\<lambda>n _. Done n), poll_code = (\<lambda>_. Done Ready)\<rparr>"

text \<open>\<open>format!("{txid:>3}")\<close> pads to three characters.\<close>

definition pad3 :: "string \<Rightarrow> string" where
  "pad3 s = replicate (3 - length s) CHR '' '' @ s"

definition hook_line :: "u64 \<times> string \<Rightarrow> string" where
  "hook_line e = (case e of (t, tag) \<Rightarrow> ''  txid='' @ pad3 (show_word t) @ '' hook='' @ tag)"

definition hooks_run :: "TransactionEvent list \<Rightarrow> (hook, TransactionEvent, hooks_state, unit) act" where
  "hooks_run events =
     Call (SyncNew 0) (with_registry (\<lambda>bus.
     Call (Register bus 1000 WalFlush) (\<lambda>_.
     Call (Register bus 500 CacheInvalidate) (\<lambda>_.
     Call (Register bus 0 Replication) (\<lambda>_.
     Call (Register bus (- 100) Metrics) (\<lambda>_.
     notify_each bus events (
     Ask (\<lambda>u. println ''hook execution order (priority desc, then registration order):'' (
     println_each (map hook_line (hook_order u)) (Done ()))))))))))"

definition hooks_main :: "(hook, TransactionEvent, hooks_state, unit) act" where
  "hooks_main = hooks_run
     ([\<lparr>txid = 42, transition = t\<rparr>. t \<leftarrow> [Begun, Prepared, Committed]] @
      [\<lparr>txid = 43, transition = Begun\<rparr>, \<lparr>txid = 43, transition = Aborted\<rparr>])"

definition hooks_of :: "TransactionEvent \<Rightarrow> (u64 \<times> string) list" where
  "hooks_of evt = concat (map (\<lambda>n. hook_log n evt) [WalFlush, CacheInvalidate, Replication, Metrics])"

lemma fold_append_log: "fold (\<lambda>ev u. u\<lparr>hook_order := hook_order u @ f ev\<rparr>) evs u = u\<lparr>hook_order := hook_order u @ concat (map f evs)\<rparr>"
  by (induction evs arbitrary: u) simp_all

abbreviation hook_entry :: "nat \<Rightarrow> i32 \<Rightarrow> hook \<Rightarrow> hook entry" where
  "hook_entry i p n \<equiv> \<lparr>entry_id = HandlerId (of_nat i), entry_priority = p, entry_handler = Plain n\<rparr>"

abbreviation hook_list :: "hook entry list" where
  "hook_list \<equiv> [hook_entry 1 1000 WalFlush, hook_entry 2 500 CacheInvalidate, hook_entry 3 0 Replication, hook_entry 4 (- 100) Metrics]"

lemma hooks_deliver: "deliver 2 hooks_code None ev hook_list u = Some (0, u\<lparr>hook_order := hook_order u @ hooks_of ev\<rparr>)"
  by (simp add: hooks_code_def hooks_of_def numeral_2_eq_2)

text \<open>C35: In the transaction-hooks program, for every sequence of events, the hooks of each event run in the order journal flush,
  cache invalidation, replication, metrics, and the events in the order they were sent: a commit is flushed before anything else
  sees it.\<close>

theorem transaction_hooks_run_in_priority_order:
  assumes "length events + length (concat (map hooks_of events)) + 9 \<le> n" "n < 2 ^ 64"
  shows "run_main hooks_code n (hooks_run events) \<lparr>stdout = [], hook_order = []\<rparr> =
    Some (Ret (), \<lparr>stdout = ''hook execution order (priority desc, then registration order):'' #
        map hook_line (concat (map hooks_of events)), hook_order = concat (map hooks_of events)\<rparr>)"
proof -
  let ?log = "concat (map hooks_of events)" and ?u = "\<lparr>stdout = [], hook_order = []\<rparr>"
  obtain m where n: "n = Suc (Suc (Suc (Suc (Suc (length events + Suc (Suc (length ?log + Suc (Suc m))))))))"
    using assms(1) by (auto simp: le_iff_add numeral_eq_Suc)
  have "spec_unit hooks_code n (hooks_run events) (empty_spec ?u) =
      spec_unit hooks_code (length events + Suc (Suc (length ?log + Suc (Suc m)))) (notify_each 0 events (
        Ask (\<lambda>u. println ''hook execution order (priority desc, then registration order):'' (
          println_each (map hook_line (hook_order u)) (Done ()))))) (one_registry hook_list 5 ?u)"
    unfolding n hooks_run_def by (simp add: setup_simps)
  also have "\<dots> = spec_unit hooks_code (Suc (Suc (length ?log + Suc (Suc m)))) (
        Ask (\<lambda>u. println ''hook execution order (priority desc, then registration order):'' (
          println_each (map hook_line (hook_order u)) (Done ())))) (one_registry hook_list 5 (?u\<lparr>hook_order := ?log\<rparr>))"
    by (subst notify_each_calm [OF hooks_deliver]) (simp_all add: fold_append_log)
  also have "\<dots> = spec_unit hooks_code (length (map hook_line ?log) + Suc (Suc m)) (println_each (map hook_line ?log) (Done ()))
     (one_registry hook_list 5 \<lparr>stdout = [''hook execution order (priority desc, then registration order):''], hook_order = ?log\<rparr>)"
    by (simp add: spec_unit_Ask spec_unit_println sp_set_user_def sp_with_client_def)
  finally show ?thesis
    by (simp only: spec_unit_println_each main_refines [OF assms(2)] spec_main_def)
      (simp add: spec_unit_Done sp_set_user_def sp_with_client_def)
qed

theorem transaction_hooks_run_in_priority_order_witness:
  "map_option (hook_order \<circ> snd) (run_main hooks_code 30 hooks_main \<lparr>stdout = [], hook_order = []\<rparr>) =
   Some [(42, ''metrics:tx_begun''), (42, ''metrics:tx_prepared''), (42, ''wal:flush''), (42, ''cache:invalidate''),
     (42, ''replication:send''), (42, ''metrics:tx_committed''), (43, ''metrics:tx_begun''), (43, ''cache:invalidate''),
     (43, ''metrics:tx_aborted'')]"
  unfolding hooks_main_def
  by (subst transaction_hooks_run_in_priority_order) (simp_all add: hooks_of_def hook_log_def)

section \<open>Audit fan-out\<close>

datatype Severity = Info | Warn | Critical

record AuditEvent =
  actor :: string
  action :: string
  resource :: string
  severity :: Severity

datatype sink = StdoutSink | FileSink | CriticalAlertSink

text \<open>The sinks' own state: what \<open>FileSink\<close> has captured and how often \<open>CriticalAlertSink\<close> has triggered. Their guards are
  local variables of \<open>main\<close>.\<close>

record audit_state = io +
  captured :: "string list"
  triggered :: usize

fun severity_debug :: "Severity \<Rightarrow> string" where
  "severity_debug Info = ''Info''"
| "severity_debug Warn = ''Warn''"
| "severity_debug Critical = ''Critical''"

definition file_line :: "AuditEvent \<Rightarrow> string" where
  "file_line evt = actor evt @ '' action='' @ action evt @ '' resource='' @ resource evt @ '' severity='' @ severity_debug (severity evt)"

definition stdout_line :: "AuditEvent \<Rightarrow> string" where
  "stdout_line evt = ''[stdout] '' @ actor evt @ '' '' @ action evt @ '' '' @ resource evt @ '' ('' @ severity_debug (severity evt) @ '')''"

definition audit_code :: "(sink, AuditEvent, audit_state) code" where
  "audit_code =
     \<lparr>handler_code = (\<lambda>n evt. case n of
        StdoutSink \<Rightarrow> println (stdout_line evt) (Done ())
      | FileSink \<Rightarrow> Change (\<lambda>u. u\<lparr>captured := captured u @ [file_line evt]\<rparr>) (Done ())
      | CriticalAlertSink \<Rightarrow>
          if severity evt = Critical then Change (\<lambda>u. u\<lparr>triggered := triggered u + 1\<rparr>) (Done ()) else Done ()),
      callback_code = (\<lambda>_ _. Done ()), build_code = (\<lambda>n _. Done n), poll_code = (\<lambda>_. Done Ready)\<rparr>"

definition attach :: "nat \<Rightarrow> sink \<Rightarrow> (HandlerGuard \<Rightarrow> (sink, AuditEvent, audit_state, unit) act) \<Rightarrow> (sink, AuditEvent, audit_state, unit) act" where
  "attach bus n k = Call (RegisterGuard bus 0 n) (with_guard k)"

definition audit_report ::
  "nat \<Rightarrow> HandlerGuard \<Rightarrow> HandlerGuard \<Rightarrow> HandlerGuard \<Rightarrow> audit_state \<Rightarrow> (sink, AuditEvent, audit_state, unit) act" where
  "audit_report bus stdout_sink file_sink alert_sink u =
     println (CHR 0x0A # ''file sink captured '' @ decimal (length (captured u)) @ '' lines:'') (
     println_each (map (append ''  '') (captured u)) (
     println (''critical alerts triggered: '' @ show_word (triggered u)) (
     Call (GuardDrop file_sink) (\<lambda>_.
     Call (GuardDrop alert_sink) (\<lambda>_.
     Call (GuardDrop stdout_sink) (\<lambda>_.
     Call (IsEmpty bus) (with_bool (\<lambda>b. assert_that b (''all guards dropped '' @ [CHR 0xE2, CHR 0x86, CHR 0x92] @ '' registry empty'') (
     println (CHR 0x0A # ''all sinks detached cleanly; registry is empty'') (Done ()))))))))))"

definition audit_run :: "AuditEvent list \<Rightarrow> (sink, AuditEvent, audit_state, unit) act" where
  "audit_run events =
     Call (SyncNew 0) (with_registry (\<lambda>bus.
     attach bus StdoutSink (\<lambda>stdout_sink.
     attach bus FileSink (\<lambda>file_sink.
     attach bus CriticalAlertSink (\<lambda>alert_sink.
     notify_each bus events (Ask (audit_report bus stdout_sink file_sink alert_sink)))))))"

definition audit_main :: "(sink, AuditEvent, audit_state, unit) act" where
  "audit_main = audit_run
     [\<lparr>actor = ''alice'', action = ''login'', resource = ''session#42'', severity = Info\<rparr>,
      \<lparr>actor = ''bob'', action = ''delete'', resource = ''user#17'', severity = Warn\<rparr>,
      \<lparr>actor = ''system'', action = ''key-rotation-failed'', resource = ''kms#main'', severity = Critical\<rparr>]"

definition after_audit :: "AuditEvent \<Rightarrow> audit_state \<Rightarrow> audit_state" where
  "after_audit evt u = u\<lparr>stdout := stdout u @ [stdout_line evt], captured := captured u @ [file_line evt],
     triggered := triggered u + of_bool (severity evt = Critical)\<rparr>"

lemma fold_after_audit:
  "fold after_audit evs u = u\<lparr>stdout := stdout u @ map stdout_line evs, captured := captured u @ map file_line evs,
     triggered := triggered u + of_nat (length (filter (\<lambda>e. severity e = Critical) evs))\<rparr>"
  by (induction evs arbitrary: u) (simp_all add: after_audit_def)

abbreviation sink_entry :: "nat \<Rightarrow> sink \<Rightarrow> sink entry" where
  "sink_entry i n \<equiv> \<lparr>entry_id = HandlerId (of_nat i), entry_priority = 0, entry_handler = Plain n\<rparr>"

abbreviation sink_list :: "sink entry list" where
  "sink_list \<equiv> [sink_entry 1 StdoutSink, sink_entry 2 FileSink, sink_entry 3 CriticalAlertSink]"

lemma audit_deliver: "deliver 2 audit_code None ev sink_list u = Some (0, after_audit ev u)"
  by (simp add: audit_code_def after_audit_def println_def numeral_2_eq_2)

abbreviation sink_guard :: "nat \<Rightarrow> HandlerGuard" where
  "sink_guard i \<equiv> HandlerGuard_new (HandlerId (of_nat i)) (Some 0)"

lemma audit_report_run:
  "spec_unit audit_code (Suc (length (captured u) + Suc (Suc (Suc (Suc (Suc (Suc (Suc m)))))))) (audit_report 0 (sink_guard 1) (sink_guard 2) (sink_guard 3) u)
     (one_registry sink_list 4 u) =
   Some (Ret (), one_registry [] 4 (u\<lparr>stdout := stdout u @ (CHR 0x0A # ''file sink captured '' @ decimal (length (captured u)) @ '' lines:'') #
     map (append ''  '') (captured u) @ [''critical alerts triggered: '' @ show_word (triggered u),
       CHR 0x0A # ''all sinks detached cleanly; registry is empty'']\<rparr>))"
proof -
  let ?l = "map (append ''  '') (captured u)"
  have "spec_unit audit_code (length ?l + k) (println_each ?l a) s = spec_unit audit_code k a
      (sp_set_user ((user_state (sp_client s))\<lparr>stdout := stdout (user_state (sp_client s)) @ ?l\<rparr>) s)" for k a s
    by (rule spec_unit_println_each)
  then show ?thesis
    by (simp add: audit_report_def spec_unit_println spec_unit_Done setup_simps sp_set_user_def HandlerGuard_new_def spec_drop_registration_def
        spec_upgrade_def spec_unregister_def sp_remove_def remove_entry_def ids_def not_empty_def assert_that_def del: add_Suc_right)
qed

text \<open>C36: In the audit program, for every sequence of events, each sink sees every event in order: one line on standard output, one line in
  the file sink, one alert per critical event. When the sinks are dropped the registry is empty, and the program returns.\<close>

theorem audit_fanout_reaches_every_sink:
  assumes "2 * length events + 13 \<le> n" "n < 2 ^ 64"
  shows "map_option (\<lambda>(out, u). (out, captured u, triggered u, take (length events) (stdout u)))
      (run_main audit_code n (audit_run events) \<lparr>stdout = [], captured = [], triggered = 0\<rparr>) =
    Some (Ret (), map file_line events, of_nat (length (filter (\<lambda>e. severity e = Critical) events)), map stdout_line events)"
proof -
  let ?u = "\<lparr>stdout = [], captured = [], triggered = 0\<rparr>" and ?r = "Ask (audit_report 0 (sink_guard 1) (sink_guard 2) (sink_guard 3))"
  let ?v = "fold after_audit events ?u"
  obtain m where n: "n = Suc (Suc (Suc (Suc (length events + Suc (Suc (length events + Suc (Suc (Suc (Suc (Suc (Suc (Suc m))))))))))))"
    using assms(1) by (auto simp: le_iff_add numeral_eq_Suc)
  have c: "length (captured ?v) = length events" by (simp add: fold_after_audit)
  have "spec_unit audit_code n (audit_run events) (empty_spec ?u) =
      spec_unit audit_code (length events + Suc (Suc (length events + Suc (Suc (Suc (Suc (Suc (Suc (Suc m))))))))) (notify_each 0 events ?r)
        (one_registry sink_list 4 ?u)"
    unfolding n audit_run_def attach_def by (simp add: setup_simps)
  also have "\<dots> = spec_unit audit_code (Suc (length (captured ?v) + Suc (Suc (Suc (Suc (Suc (Suc (Suc m))))))))
      (audit_report 0 (sink_guard 1) (sink_guard 2) (sink_guard 3) ?v) (one_registry sink_list 4 ?v)"
    unfolding c by (subst notify_each_calm [OF audit_deliver]) (simp_all add: spec_unit_Ask)
  finally show ?thesis
    unfolding audit_report_run main_refines [OF assms(2)] spec_main_def by (simp add: fold_after_audit)
qed

theorem audit_fanout_reaches_every_sink_witness:
  "map_option (\<lambda>(out, u). (out, length (captured u), triggered u))
     (run_main audit_code 30 audit_main \<lparr>stdout = [], captured = [], triggered = 0\<rparr>) = Some (Ret (), 3, 1)"
  unfolding audit_main_def
  using audit_fanout_reaches_every_sink [of "[\<lparr>actor = ''alice'', action = ''login'', resource = ''session#42'', severity = Info\<rparr>,
      \<lparr>actor = ''bob'', action = ''delete'', resource = ''user#17'', severity = Warn\<rparr>,
      \<lparr>actor = ''system'', action = ''key-rotation-failed'', resource = ''kms#main'', severity = Critical\<rparr>]" 30]
  by auto

section \<open>Metric collection\<close>

datatype MetricEvent =
    RequestStarted string
  | RequestCompleted string u64
  | MetricError string string

record Counters = io +
  requests_started :: u64
  requests_completed :: u64
  total_latency_us :: u64
  errors :: u64

record metric_state = Counters +
  pending :: "MetricEvent list"  \<comment> \<open>\<open>EventBatch\<close>\<close>

datatype metric_handler = Aggregator | Batching

definition metric_code :: "(metric_handler, MetricEvent, metric_state) code" where
  "metric_code =
     \<lparr>handler_code = (\<lambda>n evt. case n of
        Aggregator \<Rightarrow> (case evt of
          RequestStarted route \<Rightarrow> Change (\<lambda>u. u\<lparr>requests_started := requests_started u + 1\<rparr>) (Done ())
        | RequestCompleted route latency_us \<Rightarrow>
            Change (\<lambda>u. u\<lparr>requests_completed := requests_completed u + 1\<rparr>) (
            Change (\<lambda>u. u\<lparr>total_latency_us := total_latency_us u + latency_us\<rparr>) (Done ()))
        | MetricError route kind \<Rightarrow> Change (\<lambda>u. u\<lparr>errors := errors u + 1\<rparr>) (Done ()))
      | Batching \<Rightarrow> Change (\<lambda>u. u\<lparr>pending := pending u @ [evt]\<rparr>) (Done ())),
      callback_code = (\<lambda>_ _. Done ()), build_code = (\<lambda>n _. Done n), poll_code = (\<lambda>_. Done Ready)\<rparr>"

definition Counters_snapshot :: "'a Counters_scheme \<Rightarrow> u64 \<times> u64 \<times> u64 \<times> u64" where
  "Counters_snapshot u = (requests_started u, requests_completed u, total_latency_us u, errors u)"

definition EventBatch_drain ::
  "(MetricEvent list \<Rightarrow> (metric_handler, MetricEvent, metric_state, unit) act) \<Rightarrow> (metric_handler, MetricEvent, metric_state, unit) act" where
  "EventBatch_drain k = Ask (\<lambda>u. Change (\<lambda>u. u\<lparr>pending := []\<rparr>) (k (pending u)))"

definition metric_round :: "nat \<Rightarrow> MetricEvent list" where
  "metric_round i =
     [RequestStarted ''/api/v1/data''] @
     (if i mod 97 = 0 then [MetricError ''/api/v1/data'' ''timeout''] else []) @
     [RequestCompleted ''/api/v1/data'' (150 + of_nat (i mod 50))]"

definition metric_traffic :: "nat \<Rightarrow> MetricEvent list" where
  "metric_traffic rounds = concat (map metric_round [0..<rounds])"

definition metric_report :: "metric_state \<Rightarrow> (metric_handler, MetricEvent, metric_state, unit) act" where
  "metric_report u =
     (let (started, completed, total_us, errs) = Counters_snapshot u;
          avg_us = (if completed = 0 then 0 else total_us div completed)
      in println_each [''aggregated metrics:'', ''  requests_started   = '' @ show_word started, ''  requests_completed = '' @ show_word completed,
           ''  avg_latency_us     = '' @ show_word avg_us, ''  errors             = '' @ show_word errs] (
         EventBatch_drain (\<lambda>drained.
         println_each [CHR 0x0A # ''batched events pending export: '' @ decimal (length drained),
           ''  (an out-of-band exporter would ship these now)''] (Done ()))))"

definition metric_run :: "nat \<Rightarrow> (metric_handler, MetricEvent, metric_state, unit) act" where
  "metric_run rounds =
     Call (SyncNew 0) (with_registry (\<lambda>bus.
     Call (Register bus 0 Aggregator) (\<lambda>_.
     Call (Register bus 0 Batching) (\<lambda>_.
     notify_each bus (metric_traffic rounds) (Ask metric_report)))))"

definition metric_main :: "(metric_handler, MetricEvent, metric_state, unit) act" where
  "metric_main = metric_run 1000"

fun after_metric :: "MetricEvent \<Rightarrow> metric_state \<Rightarrow> metric_state" where
  "after_metric (RequestStarted r) u = u\<lparr>requests_started := requests_started u + 1, pending := pending u @ [RequestStarted r]\<rparr>"
| "after_metric (RequestCompleted r l) u = u\<lparr>requests_completed := requests_completed u + 1,
     total_latency_us := total_latency_us u + l, pending := pending u @ [RequestCompleted r l]\<rparr>"
| "after_metric (MetricError r k) u = u\<lparr>errors := errors u + 1, pending := pending u @ [MetricError r k]\<rparr>"

abbreviation metric_entry :: "nat \<Rightarrow> metric_handler \<Rightarrow> metric_handler entry" where
  "metric_entry i n \<equiv> \<lparr>entry_id = HandlerId (of_nat i), entry_priority = 0, entry_handler = Plain n\<rparr>"

abbreviation metric_list :: "metric_handler entry list" where
  "metric_list \<equiv> [metric_entry 1 Aggregator, metric_entry 2 Batching]"

lemma metric_deliver: "deliver 3 metric_code None ev metric_list u = Some (0, after_metric ev u)"
  by (cases ev) (simp_all add: metric_code_def numeral_3_eq_3)

abbreviation metric_zero :: metric_state where
  "metric_zero \<equiv> \<lparr>stdout = [], requests_started = 0, requests_completed = 0, total_latency_us = 0, errors = 0, pending = []\<rparr>"

abbreviation metric_totals :: "nat \<Rightarrow> metric_state" where
  "metric_totals rounds \<equiv> \<lparr>stdout = [], requests_started = of_nat rounds, requests_completed = of_nat rounds,
     total_latency_us = of_nat (\<Sum>i\<leftarrow>[0..<rounds]. 150 + i mod 50),
     errors = of_nat (length (filter (\<lambda>i. i mod 97 = 0) [0..<rounds])), pending = metric_traffic rounds\<rparr>"

lemma fold_metric_traffic: "fold after_metric (metric_traffic rounds) metric_zero = metric_totals rounds"
proof (induction rounds)
  case (Suc k)
  have "fold after_metric (metric_traffic (Suc k)) metric_zero = fold after_metric (metric_round k) (metric_totals k)"
    using Suc by (simp add: metric_traffic_def)
  also have "\<dots> = metric_totals (Suc k)" by (simp add: metric_traffic_def) (simp add: metric_round_def)
  finally show ?case .
qed (simp add: metric_traffic_def)

lemma metric_report_run:
  "spec_unit metric_code (Suc (Suc (Suc (Suc (Suc (Suc (Suc (Suc (Suc (Suc m)))))))))) (metric_report u) (one_registry es g u) =
   Some (Ret (), one_registry es g (u\<lparr>stdout := stdout u @ [''aggregated metrics:'', ''  requests_started   = '' @ show_word (requests_started u),
     ''  requests_completed = '' @ show_word (requests_completed u),
     ''  avg_latency_us     = '' @ show_word (if requests_completed u = 0 then 0 else total_latency_us u div requests_completed u),
     ''  errors             = '' @ show_word (errors u), CHR 0x0A # ''batched events pending export: '' @ decimal (length (pending u)),
     ''  (an out-of-band exporter would ship these now)''], pending := []\<rparr>))"
  by (simp add: metric_report_def Counters_snapshot_def EventBatch_drain_def println_each_def spec_unit_println spec_unit_Ask spec_unit_Change
      spec_unit_Done sp_set_user_def sp_with_client_def)



end
