(* ===== verification/HotReload.thy ===== *)
theory HotReload
  imports Patterns
begin

text \<open>
  The hot-reload program \<^verbatim>\<open>src/examples/pattern_hot_reload.rs\<close>: a configuration whose every mutation is published through a registry. The mutations are
  a parameter; whatever they are, the subscribers end up with what the final configuration says. A mutation is a function of the
  snapshot, so it returns.
\<close>

section \<open>The program\<close>

record ConfigSnapshot =
  generation :: u64
  request_timeout_ms :: u32
  feature_flag_search_v2 :: bool

text \<open>\<open>Config\<close>'s snapshot and generation counter, and what the two subscribers share; the registry \<open>on_change\<close> is an argument of the functions.\<close>

record hot_state = io +
  snapshot :: ConfigSnapshot
  generation_counter :: u64
  timeout_observed :: u64
  toggle_count :: usize
  last_v2 :: bool

datatype subscriber = TimeoutSubscriber | ToggleSubscriber

definition hot_code :: "(subscriber, ConfigSnapshot, hot_state) code" where
  "hot_code =
     \<lparr>handler_code = (\<lambda>n snap. case n of
        TimeoutSubscriber \<Rightarrow> Change (\<lambda>u. u\<lparr>timeout_observed := ucast (request_timeout_ms snap)\<rparr>) (Done ())
      | ToggleSubscriber \<Rightarrow>
          Ask (\<lambda>u. let prev = last_v2 u in
          Change (\<lambda>u. u\<lparr>last_v2 := feature_flag_search_v2 snap\<rparr>) (
          if prev \<noteq> feature_flag_search_v2 snap then Change (\<lambda>u. u\<lparr>toggle_count := toggle_count u + 1\<rparr>) (Done ()) else Done ()))),
      callback_code = (\<lambda>_ _. Done ()), build_code = (\<lambda>n _. Done n), poll_code = (\<lambda>_. Done Ready)\<rparr>"

definition Config_new :: "ConfigSnapshot \<Rightarrow> hot_state" where
  "Config_new initial = \<lparr>stdout = [], snapshot = initial, generation_counter = 0, timeout_observed = 0, toggle_count = 0, last_v2 = False\<rparr>"

definition Config_current :: "(ConfigSnapshot \<Rightarrow> (subscriber, ConfigSnapshot, hot_state, unit) act) \<Rightarrow> (subscriber, ConfigSnapshot, hot_state, unit) act" where
  "Config_current k = Ask (\<lambda>u. k (snapshot u))"

definition Config_mutate ::
  "nat \<Rightarrow> (ConfigSnapshot \<Rightarrow> ConfigSnapshot) \<Rightarrow> (subscriber, ConfigSnapshot, hot_state, unit) act \<Rightarrow> (subscriber, ConfigSnapshot, hot_state, unit) act" where
  "Config_mutate on_change f k =
     Ask (\<lambda>u. let nxt = (f (snapshot u))\<lparr>generation := generation_counter u + 1\<rparr> in
     Change (\<lambda>u. u\<lparr>snapshot := nxt, generation_counter := generation_counter u + 1\<rparr>) (
     Call (Notify on_change nxt) (\<lambda>_. k)))"

definition show_bool :: "bool \<Rightarrow> string" where
  "show_bool b = (if b then ''true'' else ''false'')"

definition config_line :: "string \<Rightarrow> ConfigSnapshot \<Rightarrow> string" where
  "config_line label s = label @ ''gen='' @ show_word (generation s) @ '' timeout='' @ show_word (request_timeout_ms s) @
     ''ms search_v2='' @ show_bool (feature_flag_search_v2 s)"

definition hot_run :: "(ConfigSnapshot \<Rightarrow> ConfigSnapshot) list \<Rightarrow> (subscriber, ConfigSnapshot, hot_state, unit) act" where
  "hot_run mutations =
     Call (SyncNew 0) (with_registry (\<lambda>on_change.
     Call (Register on_change 0 TimeoutSubscriber) (\<lambda>_.
     Call (Register on_change 0 ToggleSubscriber) (\<lambda>_.
     Config_current (\<lambda>s. println (config_line ''initial:        '' s) (
     foldr (Config_mutate on_change) mutations (
     Config_current (\<lambda>s. println (config_line ''after mutates:  '' s) (
     Ask (\<lambda>u. println (''timeout subscriber latest:    '' @ show_word (timeout_observed u) @ ''ms'') (
     println (''toggle subscriber transitions: '' @ show_word (toggle_count u)) (
     Done ()))))))))))))"

definition hot_initial :: ConfigSnapshot where
  "hot_initial = \<lparr>generation = 0, request_timeout_ms = 30000, feature_flag_search_v2 = False\<rparr>"

definition hot_mutations :: "(ConfigSnapshot \<Rightarrow> ConfigSnapshot) list" where
  "hot_mutations = [\<lambda>c. c\<lparr>request_timeout_ms := 5000\<rparr>, \<lambda>c. c\<lparr>feature_flag_search_v2 := True\<rparr>,
     \<lambda>c. c\<lparr>feature_flag_search_v2 := False\<rparr>, \<lambda>c. c\<lparr>feature_flag_search_v2 := True\<rparr>]"

definition hot_main :: "(subscriber, ConfigSnapshot, hot_state, unit) act" where
  "hot_main = hot_run hot_mutations"

section \<open>The snapshots that are published\<close>

fun published_snapshots :: "(ConfigSnapshot \<Rightarrow> ConfigSnapshot) list \<Rightarrow> u64 \<Rightarrow> ConfigSnapshot \<Rightarrow> ConfigSnapshot list" where
  "published_snapshots [] g s = []"
| "published_snapshots (f # fs) g s = (let s' = (f s)\<lparr>generation := g + 1\<rparr> in s' # published_snapshots fs (g + 1) s')"

fun flips :: "bool \<Rightarrow> bool list \<Rightarrow> nat" where
  "flips b [] = 0"
| "flips b (c # cs) = of_bool (b \<noteq> c) + flips c cs"

definition after_snap :: "ConfigSnapshot \<Rightarrow> hot_state \<Rightarrow> hot_state" where
  "after_snap s u = u\<lparr>timeout_observed := ucast (request_timeout_ms s), last_v2 := feature_flag_search_v2 s,
     toggle_count := toggle_count u + of_bool (last_v2 u \<noteq> feature_flag_search_v2 s)\<rparr>"

definition after_mutate :: "(ConfigSnapshot \<Rightarrow> ConfigSnapshot) \<Rightarrow> hot_state \<Rightarrow> hot_state" where
  "after_mutate f u = (let s = (f (snapshot u))\<lparr>generation := generation_counter u + 1\<rparr>
     in after_snap s (u\<lparr>snapshot := s, generation_counter := generation_counter u + 1\<rparr>))"

lemma fold_after_mutate:
  assumes "published_snapshots fs (generation_counter u) (snapshot u) = ss"
  shows "fold after_mutate fs u = u\<lparr>snapshot := last (snapshot u # ss), generation_counter := generation_counter u + of_nat (length fs),
    timeout_observed := (if ss = [] then timeout_observed u else ucast (request_timeout_ms (last ss))),
    last_v2 := last (last_v2 u # map feature_flag_search_v2 ss),
    toggle_count := toggle_count u + of_nat (flips (last_v2 u) (map feature_flag_search_v2 ss))\<rparr>"
  using assms
proof (induction fs arbitrary: u ss)
  case (Cons f fs)
  let ?s = "(f (snapshot u))\<lparr>generation := generation_counter u + 1\<rparr>" and ?v = "after_mutate f u"
  obtain ss' where ss: "ss = ?s # ss'" and ss': "published_snapshots fs (generation_counter ?v) (snapshot ?v) = ss'"
    using Cons.prems by (auto simp: Let_def after_mutate_def after_snap_def)
  show ?case using Cons.IH [OF ss'] ss
    by (simp add: after_mutate_def after_snap_def Let_def algebra_simps)
qed simp

abbreviation subscriber_entry :: "nat \<Rightarrow> subscriber \<Rightarrow> subscriber entry" where
  "subscriber_entry i n \<equiv> \<lparr>entry_id = HandlerId (of_nat i), entry_priority = 0, entry_handler = Plain n\<rparr>"

abbreviation subscriber_list :: "subscriber entry list" where
  "subscriber_list \<equiv> [subscriber_entry 1 TimeoutSubscriber, subscriber_entry 2 ToggleSubscriber]"

lemma hot_deliver: "deliver 4 hot_code None s subscriber_list u = Some (0, after_snap s u)"
  by (simp add: hot_code_def after_snap_def eval_nat_numeral Let_def)

lemma hot_mutate_run:
  assumes "4 \<le> m"
  shows "spec_unit hot_code (Suc (Suc (Suc m))) (Config_mutate 0 f a) (one_registry subscriber_list g u) =
    spec_unit hot_code m a (one_registry subscriber_list g (after_mutate f u))"
  using notify_each_calm [OF hot_deliver assms, of "[(f (snapshot u))\<lparr>generation := generation_counter u + 1\<rparr>]" a g
      "u\<lparr>snapshot := (f (snapshot u))\<lparr>generation := generation_counter u + 1\<rparr>, generation_counter := generation_counter u + 1\<rparr>"]
  by (simp add: Config_mutate_def notify_each_def spec_unit_Ask spec_unit_Change Let_def sp_set_user_def sp_with_client_def after_mutate_def)

lemma hot_mutations_run:
  assumes "4 \<le> m"
  shows "spec_unit hot_code (3 * length fs + m) (foldr (Config_mutate 0) fs a) (one_registry subscriber_list g u) =
    spec_unit hot_code m a (one_registry subscriber_list g (fold after_mutate fs u))"
proof (induction fs arbitrary: u)
  case (Cons f fs)
  have e: "3 * length (f # fs) + m = Suc (Suc (Suc (3 * length fs + m)))" by simp
  show ?case unfolding e using hot_mutate_run [of "3 * length fs + m" f] assms Cons by simp
qed simp

section \<open>Subscribers follow the configuration\<close>



end
