(* ===== verification/Await.thy ===== *)
theory Await
  imports Clients
begin

text \<open>
  Awaiting a dispatch: poll it until it is finished, as a runtime does. The locale \<open>waiting_futures\<close> is for handlers whose futures are pending a
  fixed number of times and then do one thing: it gives the whole run of a concurrent dispatch (everyone waits at the same time) and of
  a sequential one (one after the other).
\<close>

section \<open>Awaiting a dispatch\<close>

text \<open>The answer of a poll: the dispatch that is left, if it is not finished.\<close>

fun left_over :: "('n, 'e) answer \<Rightarrow> ('n, 'e) notify_future option" where
  "left_over (APoll NotifyFinished) = None"
| "left_over (APoll f) = Some f"
| "left_over _ = None"

primcorec await :: "('n, 'e) notify_future \<Rightarrow> ('n, 'e, 'u, 'r) act \<Rightarrow> ('n, 'e, 'u, 'r) act" where
  "await f k = Call (AsyncPoll f) (\<lambda>a. if left_over a = None then k else await (the (left_over a)) k)"

definition then_await :: "('n, 'e, 'u, 'r) act \<Rightarrow> ('n, 'e) notify_future \<Rightarrow> ('n, 'e, 'u, 'r) act" where
  "then_await k f = (case f of NotifyFinished \<Rightarrow> k | _ \<Rightarrow> await f k)"

lemma and_then_answer: "and_then (answer_with g r) F = and_then r (\<lambda>x. F (g x))"
  by (simp add: answer_with_def and_then_def split: option.split prod.split outcome.split)

lemma spec_unit_await:
  assumes "future_registry f = Some rid" "rid < length (aregs (sp_client s))"
  shows "spec_unit code (Suc n) (await f k) s = and_then (spec_poll code (spec_exec code n) f s) (\<lambda>f'. spec_unit code n (then_await k f'))"
proof -
  have l: "left_over (APoll f') = (case f' of NotifyFinished \<Rightarrow> None | _ \<Rightarrow> Some f')" for f' :: "('n, 'e) notify_future" by (cases f') auto
  have o: "spec_do_op code (spec_exec code n) (AsyncPoll f) s = answer_with APoll (spec_poll code (spec_exec code n) f s)"
    using assms by (simp add: spec_do_op_def spec_async_op_def sp_on_async_def)
  have k: "(if left_over (APoll f') = None then k else await (the (left_over (APoll f'))) k) = then_await k f'" for f'
    by (simp add: l then_await_def split: notify_future.splits)
  show ?thesis unfolding await.code [of f k] spec_unit_Call o and_then_answer k ..
qed

section \<open>Sorting by rounds\<close>

lemma sort_by_rounds:
  assumes "\<forall>x\<in>set xs. f x < M"
  shows "concat (map (\<lambda>k. filter (\<lambda>x. f x = k) xs) [0..<M]) = sort_key f xs"
proof (rule properties_for_sort_key [symmetric])
  let ?ys = "\<lambda>M. concat (map (\<lambda>k. filter (\<lambda>x. f x = k) xs) [0..<M])"
  have s: "x \<in> set (?ys M) \<Longrightarrow> f x < M" for x M by auto
  have "filter (\<lambda>x. f x < Suc k) l = filter (\<lambda>x. f x < k \<or> f x = k) l" for k l by (rule filter_cong) auto
  moreover have "mset (filter (\<lambda>x. f x < k \<or> f x = k) l) = mset (filter (\<lambda>x. f x < k) l) + mset (filter (\<lambda>x. f x = k) l)" for k l
    by (induction l) auto
  ultimately have "mset (?ys M) = mset (filter (\<lambda>x. f x < M) xs)" for M
    by (induction M) simp_all
  moreover have "filter (\<lambda>x. f x < M) xs = xs" using assms by simp
  ultimately show "mset (?ys M) = mset xs" by metis
  have "filter (\<lambda>x. f c = f x) (?ys M) = (if f c < M then filter (\<lambda>x. f c = f x) xs else [])" for c M
    by (induction M) (auto simp: less_Suc_eq intro!: filter_cong filter_False)
  then show "filter (\<lambda>x. f c = f x) (?ys M) = filter (\<lambda>x. f c = f x) xs" if "c \<in> set (?ys M)" for c using s [OF that] by simp
  have "sorted (map f (filter (\<lambda>x. f x = k) l))" for k l by (induction l) auto
  then show "sorted (map f (?ys M))" by (induction M) (auto simp: sorted_append less_imp_le)
qed

section \<open>Futures that are pending for a while\<close>

locale waiting_futures =
  fixes code :: "('n, 'e, 'u) code" and closure :: "'x \<Rightarrow> 'n" and fut :: "'x \<Rightarrow> nat \<Rightarrow> 'n" and waits :: "'x \<Rightarrow> nat"
    and effect :: "'x \<Rightarrow> 'u \<Rightarrow> 'u" and ev :: 'e
  assumes build: "user_run 3 (build_code code (closure x) ev) u = Some (Ret (fut x (waits x)), u)"
    and wait_more: "user_run 3 (poll_code code (fut x (Suc k))) u = Some (Ret (Pending (fut x k)), u)"
    and ready: "user_run 3 (poll_code code (fut x 0)) u = Some (Ret Ready, effect x u)"
begin

definition slots_at :: "nat \<Rightarrow> 'x list \<Rightarrow> 'n Slot list" where
  "slots_at r xs = map (\<lambda>x. if waits x < r then SlotDone else Running (fut x (waits x - r))) xs"

text \<open>The handlers in the order their futures become ready, those of the same round in list order.\<close>

definition by_waits :: "nat \<Rightarrow> nat \<Rightarrow> 'x list \<Rightarrow> 'x list" where
  "by_waits r M xs = concat (map (\<lambda>k. filter (\<lambda>x. waits x = k) xs) [r..<Suc M])"

lemma poll_round: "user_poll_slots 3 code (slots_at r xs) u = Some (slots_at (Suc r) xs, fold effect (filter (\<lambda>x. waits x = r) xs) u)"
proof (induction xs arbitrary: u)
  case (Cons x xs)
  consider "waits x < r" | "waits x = r" | "r < waits x" by linarith
  then show ?case
  proof cases
    case 3
    then have "waits x - r = Suc (waits x - Suc r)" by simp
    then show ?thesis using Cons 3 by (simp add: slots_at_def wait_more)
  qed (use Cons in \<open>simp_all add: slots_at_def ready\<close>)
qed (simp add: slots_at_def)

lemma finish_round: "user_finish d code holder (zip es (slots_at r xs)) u = Some u"
proof (induction es arbitrary: xs)
  case (Cons e es)
  then show ?case by (cases xs) (auto simp: slots_at_def)
qed simp

lemma running_at: "running_slots (slots_at r xs) = length (filter (\<lambda>x. r \<le> waits x) xs)"
  by (induction xs) (auto simp: slots_at_def running_slots_def)

lemma by_waits_sort: "\<forall>x\<in>set xs. waits x \<le> M \<Longrightarrow> by_waits 0 M xs = sort_key waits xs"
  unfolding by_waits_def by (rule sort_by_rounds) auto

lemma by_waits_Suc: "r \<le> M \<Longrightarrow> by_waits r M xs = filter (\<lambda>x. waits x = r) xs @ by_waits (Suc r) M xs"
  by (simp add: by_waits_def upt_conv_Cons del: upt_Suc)

lemma await_join:
  assumes "r \<le> M" "\<forall>x\<in>set xs. waits x \<le> M" "\<exists>x\<in>set xs. waits x = M" "3 \<le> m"
    and "h < length (sp_handles s)" "sp_handles s ! h" "rid < length (aregs (sp_client s))"
  shows "spec_unit code (Suc (M - r) + m) (await (NotifyJoin rid h es (slots_at r xs) (running_slots (slots_at r xs))) a) s =
    spec_unit code m a ((sp_set_user (fold effect (by_waits r M xs) (user_state (sp_client s))) s)\<lparr>sp_handles := (sp_handles s)[h := False]\<rparr>)"
  using assms(1,5-7)
proof (induction "M - r" arbitrary: r s)
  case 0
  then have r: "r = M" by simp
  have 1: "running_slots (slots_at (Suc r) xs) = 0" using r assms(2) by (auto simp: running_at filter_empty_conv not_le less_Suc_eq_le)
  have 2: "by_waits r M xs = filter (\<lambda>x. waits x = r) xs" using r by (simp add: by_waits_def)
  have p: "spec_poll code (spec_exec code m) (NotifyJoin rid h es (slots_at r xs) (running_slots (slots_at r xs))) s =
    Some (Ret NotifyFinished, (sp_set_user (fold effect (by_waits r M xs) (user_state (sp_client s))) s)\<lparr>sp_handles := (sp_handles s)[h := False]\<rparr>)"
    using spec_poll_join_user [OF poll_round assms(4) refl finish_round 0(3,4)] 1 2 by simp
  have "Suc (M - r) + m = Suc m" using r by simp
  then show ?case using 0(5) p by (simp only: spec_unit_await future_registry.simps) (simp add: and_then_def then_await_def)
next
  case (Suc k)
  let ?u = "fold effect (filter (\<lambda>x. waits x = r) xs) (user_state (sp_client s))"
  let ?f = "NotifyJoin rid h es (slots_at (Suc r) xs) (running_slots (slots_at (Suc r) xs))"
  obtain x where "x \<in> set xs" "Suc r \<le> waits x" using Suc.hyps(2) assms(3) by auto
  then have 1: "running_slots (slots_at (Suc r) xs) \<noteq> 0" by (auto simp: running_at filter_empty_conv)
  have f: "Suc (M - r) + m = Suc (Suc (M - Suc r) + m)" "3 \<le> Suc (M - Suc r) + m" using Suc.hyps(2) assms(4) by auto
  have p: "spec_poll code (spec_exec code (Suc (M - Suc r) + m)) (NotifyJoin rid h es (slots_at r xs) (running_slots (slots_at r xs))) s =
    Some (Ret ?f, sp_set_user ?u s)"
    using spec_poll_join_user [OF poll_round f(2) refl finish_round Suc.prems(2,3)] 1 by simp
  have "spec_unit code (Suc (M - Suc r) + m) (await ?f a) (sp_set_user ?u s) =
    spec_unit code m a ((sp_set_user (fold effect (by_waits (Suc r) M xs) ?u) s)\<lparr>sp_handles := (sp_handles s)[h := False]\<rparr>)"
    using Suc.hyps(1) [of "Suc r" "sp_set_user ?u s"] Suc.hyps(2) Suc.prems by simp
  then show ?case using p Suc.prems(1,4) unfolding f(1)
    by (simp only: spec_unit_await future_registry.simps by_waits_Suc) (simp add: and_then_def then_await_def)
qed

lemma start_all:
  assumes "map entry_handler es = map (AsyncClosure \<circ> closure) xs" "3 \<le> m"
  shows "start_slots code (spec_exec code m) ev es s = Some (Ret (slots_at 0 xs), s)"
  using assms(1)
proof (induction es arbitrary: xs)
  case (Cons e es)
  then obtain x xs' where x: "xs = x # xs'" "entry_handler e = AsyncClosure (closure x)" "map entry_handler es = map (AsyncClosure \<circ> closure) xs'"
    by auto
  have "start_entry code (spec_exec code m) ev e s = Some (Ret (Inr (fut x (waits x))), s)"
    using user_run_spec(2) [OF build [of x] assms(2), where s = s and code = code] x(2)
    by (simp add: start_entry_def start_future_def spec_exec_def catch_unwind_def)
  then show ?case using Cons.IH [OF x(3)] x(1) by (simp add: and_then_def Slot_new_def slots_at_def)
qed (simp add: slots_at_def)

lemma await_notify:
  assumes "map entry_handler es = map (AsyncClosure \<circ> closure) xs" "2 \<le> length xs"
    and "\<forall>x\<in>set xs. waits x \<le> M" "\<exists>x\<in>set xs. waits x = M" "3 \<le> m"
    and "sp_list (a_handlers (sp_areg rid s)) s = es" "rid < length (aregs (sp_client s))"
  shows "spec_unit code (Suc M + m) (await (NotifyStart rid ev) a) s =
    spec_unit code m a ((sp_set_user (fold effect (by_waits 0 M xs) (user_state (sp_client s))) s)\<lparr>sp_handles := sp_handles s @ [False]\<rparr>)"
proof -
  let ?h = "length (sp_handles s)" and ?s = "s\<lparr>sp_handles := sp_handles s @ [True]\<rparr>" and ?R = "spec_exec code (M + m)"
  obtain e1 e2 es' where es: "es = e1 # e2 # es'" using assms(1,2) by (cases es; cases "tl es") auto
  have "start_slots code ?R ev es ?s = Some (Ret (slots_at 0 xs), ?s)" by (rule start_all [OF assms(1)]) (use assms(5) in simp)
  then have "spec_poll code ?R (NotifyStart rid ev) s = spec_poll code ?R (NotifyJoin rid ?h es (slots_at 0 xs) (running_slots (slots_at 0 xs))) ?s"
    using assms(6) es by (simp add: spec_poll_def spec_start_def not_empty_def notify_list_def and_then_def running_slots_def Let_def)
  then have "spec_unit code (Suc M + m) (await (NotifyStart rid ev) a) s =
      spec_unit code (Suc (M - 0) + m) (await (NotifyJoin rid ?h es (slots_at 0 xs) (running_slots (slots_at 0 xs))) a) ?s"
    using assms(7) by (simp add: spec_unit_await)
  also have "\<dots> = spec_unit code m a ((sp_set_user (fold effect (by_waits 0 M xs) (user_state (sp_client s))) s)\<lparr>sp_handles := sp_handles s @ [False]\<rparr>)"
    by (subst await_join) (use assms in \<open>simp_all add: sp_set_user_def sp_with_client_def\<close>)
  finally show ?thesis .
qed

text \<open>Polling one such future inside a sequential dispatch.\<close>

lemma catch_poll:
  assumes "3 \<le> m"
  shows "CatchUnwind_poll code (spec_exec code m) \<lparr>inner = Some (fut x k)\<rparr> s =
    Some (Ret (case k of 0 \<Rightarrow> (Some (Inr ()), \<lparr>inner = None\<rparr>) | Suc k' \<Rightarrow> (None, \<lparr>inner = Some (fut x k')\<rparr>)),
      case k of 0 \<Rightarrow> sp_set_user (effect x (user_state (sp_client s))) s | Suc k' \<Rightarrow> s)"
proof (cases k)
  case 0
  then show ?thesis using user_run_spec(3) [OF ready [of x] assms, where s = s and code = code]
    by (simp add: CatchUnwind_poll_def poll_caught_def spec_exec_def catch_unwind_def and_then_def)
next
  case (Suc k')
  then show ?thesis using user_run_spec(3) [OF wait_more [of x k'] assms, where s = s and code = code]
    by (simp add: CatchUnwind_poll_def poll_caught_def spec_exec_def catch_unwind_def and_then_def)
qed

text \<open>The rest of a sequential dispatch: what is left of the list, then the program after it.\<close>

definition then_rest :: "nat \<Rightarrow> nat \<Rightarrow> nat \<Rightarrow> nat \<Rightarrow> 'n entry list \<Rightarrow> ('n, 'e, 'u, unit) act \<Rightarrow> ('n, 'u, unit) sprog" where
  "then_rest m rid h n es a s = and_then
     (list_scope (spec_drop_handle h) (sequential_from code (spec_exec code n) (spec_async_handle_panic code (spec_exec code n) rid) rid h ev es s))
     (\<lambda>f. spec_unit code m (then_await a f))"

lemma await_at:
  assumes "rid < length (aregs (sp_client s))" "3 \<le> n"
    and "then_rest n rid h n es a (sp_set_user (effect x (user_state (sp_client s))) s) = q"
  shows "spec_unit code (Suc (k + n)) (await (SequentialAt rid h ev e \<lparr>inner = Some (fut x k)\<rparr> es) a) s = q"
proof (induction k)
  case 0
  have "spec_poll code (spec_exec code n) (SequentialAt rid h ev e \<lparr>inner = Some (fut x 0)\<rparr> es) s =
    list_scope (spec_drop_handle h) (sequential_from code (spec_exec code n) (spec_async_handle_panic code (spec_exec code n) rid) rid h ev es
      (sp_set_user (effect x (user_state (sp_client s))) s))"
    using catch_poll [OF assms(2), of x 0 s] by (simp add: spec_poll_def sequential_resume_def and_then_def finish_entry_def)
  then show ?case using assms(1,3) by (simp add: spec_unit_await then_rest_def)
next
  case (Suc k)
  have "3 \<le> Suc (k + n)" using assms(2) by simp
  from catch_poll [OF this, of x "Suc k" s]
  have "spec_poll code (spec_exec code (Suc (k + n))) (SequentialAt rid h ev e \<lparr>inner = Some (fut x (Suc k))\<rparr> es) s =
    Some (Ret (SequentialAt rid h ev e \<lparr>inner = Some (fut x k)\<rparr> es), s)"
    by (simp add: spec_poll_def sequential_resume_def and_then_def list_scope_def)
  then show ?case using Suc assms(1) by (simp add: spec_unit_await and_then_def then_await_def)
qed

lemma sequential_rest:
  assumes "map entry_handler es = map (AsyncClosure \<circ> closure) xs" "3 \<le> m" "3 \<le> n" "h < length (sp_handles s)" "sp_handles s ! h"
    and "rid < length (aregs (sp_client s))"
  shows "then_rest (sum_list (map waits xs) + m) rid h n es a s =
    spec_unit code m a ((sp_set_user (fold effect xs (user_state (sp_client s))) s)\<lparr>sp_handles := (sp_handles s)[h := False]\<rparr>)"
  using assms
proof (induction es arbitrary: xs s n)
  case Nil
  then show ?case by (simp add: then_rest_def list_scope_def spec_drop_handle_def and_then_def then_await_def)
next
  case (Cons e es)
  then obtain x xs' where x: "xs = x # xs'" "entry_handler e = AsyncClosure (closure x)" "map entry_handler es = map (AsyncClosure \<circ> closure) xs'"
    by auto
  let ?u = "effect x (user_state (sp_client s))" and ?N = "sum_list (map waits xs') + m"
  have b: "start_entry code (spec_exec code n) ev e s = Some (Ret (Inr (fut x (waits x))), s)"
    using user_run_spec(2) [OF build [of x] Cons.prems(3), where s = s and code = code] x(2)
    by (simp add: start_entry_def start_future_def spec_exec_def catch_unwind_def)
  have r: "then_rest ?N rid h n' es a (sp_set_user ?u s) =
      spec_unit code m a ((sp_set_user (fold effect xs (user_state (sp_client s))) s)\<lparr>sp_handles := (sp_handles s)[h := False]\<rparr>)" if "3 \<le> n'" for n'
    using Cons.IH [OF x(3) Cons.prems(2) that, of "sp_set_user ?u s"] Cons.prems x(1) by simp
  show ?case
  proof (cases "waits x")
    case 0
    then show ?thesis using r [OF Cons.prems(3)] b catch_poll [OF Cons.prems(3), of x 0 s] x(1)
      by (simp add: then_rest_def and_then_def CatchUnwind_new_def finish_entry_def)
  next
    case (Suc k)
    have N: "sum_list (map waits xs) + m = Suc (k + ?N)" using Suc x(1) by simp
    have "then_rest (Suc (k + ?N)) rid h n (e # es) a s =
        spec_unit code (Suc (k + ?N)) (await (SequentialAt rid h ev e \<lparr>inner = Some (fut x k)\<rparr> es) a) s"
      using b catch_poll [OF Cons.prems(3), of x "Suc k" s] Suc
      by (simp add: then_rest_def and_then_def CatchUnwind_new_def list_scope_def then_await_def)
    also have "\<dots> = spec_unit code m a ((sp_set_user (fold effect xs (user_state (sp_client s))) s)\<lparr>sp_handles := (sp_handles s)[h := False]\<rparr>)"
      by (rule await_at [OF Cons.prems(6) _ r]) (use Cons.prems(2) in simp_all)
    finally show ?thesis unfolding N .
  qed
qed

lemma await_sequential:
  assumes "map entry_handler es = map (AsyncClosure \<circ> closure) xs" "es \<noteq> []" "3 \<le> m"
    and "sp_list (a_handlers (sp_areg rid s)) s = es" "rid < length (aregs (sp_client s))"
  shows "spec_unit code (Suc (sum_list (map waits xs) + m)) (await (SequentialStart rid ev) a) s =
    spec_unit code m a ((sp_set_user (fold effect xs (user_state (sp_client s))) s)\<lparr>sp_handles := sp_handles s @ [False]\<rparr>)"
proof -
  let ?h = "length (sp_handles s)" and ?s = "s\<lparr>sp_handles := sp_handles s @ [True]\<rparr>" and ?N = "sum_list (map waits xs) + m"
  have "spec_unit code (Suc ?N) (await (SequentialStart rid ev) a) s = then_rest ?N rid ?h ?N es a ?s"
    using assms(2,4,5) by (cases es) (simp_all add: spec_unit_await then_rest_def spec_poll_def spec_start_def not_empty_def Let_def)
  also have "\<dots> = spec_unit code m a ((sp_set_user (fold effect xs (user_state (sp_client s))) s)\<lparr>sp_handles := sp_handles s @ [False]\<rparr>)"
    by (subst sequential_rest [OF assms(1,3)]) (use assms in \<open>simp_all add: sp_set_user_def sp_with_client_def\<close>)
  finally show ?thesis .
qed

end

end
