(* ===== verification/AsyncExamples.thy ===== *)
theory AsyncExamples
  imports Await
begin

text \<open>
  The two asynchronous programs \<^verbatim>\<open>async_basic\<close> and \<^verbatim>\<open>async_concurrent_vs_sequential\<close> under \<^verbatim>\<open>src/examples\<close>. The runtime
  is not part of the crate: how often \<open>yield_now\<close> and each \<open>sleep\<close> are pending before they are ready is a parameter, and so are the texts of the measured
  durations.
\<close>

abbreviation async_registry :: "'n entry list \<Rightarrow> u64 \<Rightarrow> bool list \<Rightarrow> 'u \<Rightarrow> ('n, 'u) spec_state" where
  "async_registry es g hs u \<equiv> \<lparr>sp_lists = [es],
     sp_client = \<lparr>regs = [], aregs = [\<lparr>a_handlers = 0, a_id_generator = \<lparr>gen_next = g\<rparr>, a_panic_callback = None, a_reg_alive = True\<rparr>],
       once_slots = [], user_state = u\<rparr>, sp_handles = hs\<rparr>"

lemmas async_setup_simps = spec_unit_Call spec_do_op_def spec_async_op_def sp_on_async_def answer_with_def returning_def and_then_def
  spec_async_new_def empty_spec_def sp_with_client_def spec_async_register_def HandlerIdGenerator_new_def HandlerIdGenerator_next_def
  from_raw_def set_areg_def sp_insert_def sp_set_list_def sp_list_def insert_entry_def

abbreviation closure_entry :: "nat \<Rightarrow> 'n \<Rightarrow> 'n entry" where
  "closure_entry i n \<equiv> \<lparr>entry_id = HandlerId (of_nat i), entry_priority = 0, entry_handler = AsyncClosure n\<rparr>"

section \<open>async_basic\<close>

record async_state = io +
  async_total :: u64

datatype label_closure =
    LabelHandler string
  | LabelFuture string u64 nat  \<comment> \<open>the \<open>async\<close> block: its captures, and how often it will still be pending\<close>

definition async_basic_code :: "nat \<Rightarrow> (label_closure, u64, async_state) code" where
  "async_basic_code yields =
     \<lparr>handler_code = (\<lambda>_ _. unreachable), callback_code = (\<lambda>_ _. Done ()),
      build_code = (\<lambda>n v. case n of LabelHandler label \<Rightarrow> Done (LabelFuture label v yields) | LabelFuture _ _ _ \<Rightarrow> unreachable),
      poll_code = (\<lambda>f. case f of
        LabelFuture label v (Suc k) \<Rightarrow> Done (Pending (LabelFuture label v k))
      | LabelFuture label v 0 \<Rightarrow>
          Change (\<lambda>u. u\<lparr>async_total := async_total u + v\<rparr>) (println (''['' @ label @ ''] saw '' @ show_word v) (Done Ready))
      | LabelHandler _ \<Rightarrow> unreachable)\<rparr>"

definition async_basic_main :: "(label_closure, u64, async_state, unit) act" where
  "async_basic_main =
     Call (AsyncNew 0) (with_registry (\<lambda>registry.
     foldr (\<lambda>label k. Call (AsyncRegister registry 0 (LabelHandler label)) (\<lambda>_. k)) [''alpha'', ''beta'', ''gamma''] (
     await (NotifyStart registry 7) (
     Ask (\<lambda>u. println (''total: '' @ show_word (async_total u)) (Done ()))))))"

definition label_effect :: "u64 \<Rightarrow> string \<Rightarrow> async_state \<Rightarrow> async_state" where
  "label_effect v label u = u\<lparr>async_total := async_total u + v, stdout := stdout u @ [''['' @ label @ ''] saw '' @ show_word v]\<rparr>"

interpretation lf: waiting_futures "async_basic_code yields" LabelHandler "\<lambda>l. LabelFuture l v" "\<lambda>_. yields" "label_effect v" v for yields v
  by unfold_locales (simp_all add: async_basic_code_def label_effect_def println_def numeral_3_eq_3)

abbreviation label_list :: "label_closure entry list" where
  "label_list \<equiv> [closure_entry 1 (LabelHandler ''alpha''), closure_entry 2 (LabelHandler ''beta''), closure_entry 3 (LabelHandler ''gamma'')]"

lemma decimal_small: "decimal 7 = ''7''" "decimal 21 = ''21''" "decimal 0 = ''0''" "decimal 1 = ''1''" "decimal (Suc 0) = ''1''" "decimal 2 = ''2''" "decimal 3 = ''3''"
  by code_simp+

text \<open>C39: The program \<open>async_basic\<close> ends, whatever the number of times a yield is pending: every handler sees the
  event once, in the order of registration, and the total is three times the value.\<close>

theorem async_basic_prints:
  assumes "yields + 8 \<le> n" "n < 2 ^ 64"
  shows "run_main (async_basic_code yields) n async_basic_main \<lparr>stdout = [], async_total = 0\<rparr> =
    Some (Ret (), \<lparr>stdout = [''[alpha] saw 7'', ''[beta] saw 7'', ''[gamma] saw 7'', ''total: 21''], async_total = 21\<rparr>)"
proof -
  let ?c = "async_basic_code yields" and ?u = "\<lparr>stdout = [], async_total = 0\<rparr>" and ?xs = "[''alpha'', ''beta'', ''gamma'']"
  let ?a = "Ask (\<lambda>u. println (''total: '' @ show_word (async_total u)) (Done ()))"
  obtain m where n: "n = Suc (Suc (Suc (Suc (Suc yields + Suc (Suc (Suc m))))))" using assms(1) by (auto simp: le_iff_add numeral_eq_Suc)
  have "spec_unit ?c n async_basic_main (empty_spec ?u) =
      spec_unit ?c (Suc yields + Suc (Suc (Suc m))) (await (NotifyStart 0 7) ?a) (async_registry label_list 4 [] ?u)"
    unfolding n async_basic_main_def by (simp add: async_setup_simps)
  also have "\<dots> = spec_unit ?c (Suc (Suc (Suc m))) ?a (async_registry label_list 4 [False] (fold (label_effect 7) (lf.by_waits yields 0 yields ?xs) ?u))"
    by (subst lf.await_notify [where xs = ?xs and es = label_list and M = yields]) (auto simp: sp_list_def sp_set_user_def sp_with_client_def)
  also have "lf.by_waits yields 0 yields ?xs = ?xs" by (simp add: lf.by_waits_sort)
  finally show ?thesis unfolding main_refines [OF assms(2)] spec_main_def
    by (simp add: spec_unit_Ask spec_unit_println spec_unit_Done label_effect_def show_word_def decimal_small)
qed

theorem async_basic_prints_witness:
  "run_main (async_basic_code 1) 20 async_basic_main \<lparr>stdout = [], async_total = 0\<rparr> =
   Some (Ret (), \<lparr>stdout = [''[alpha] saw 7'', ''[beta] saw 7'', ''[gamma] saw 7'', ''total: 21''], async_total = 21\<rparr>)"
  by (rule async_basic_prints) simp_all

section \<open>async_concurrent_vs_sequential\<close>

datatype sleep_closure =
    SleepHandler nat
  | SleepFuture nat nat

definition sleep_line :: "nat \<Rightarrow> string" where
  "sleep_line i = ''handler '' @ decimal i @ '' done''"

definition sleep_code :: "(nat \<Rightarrow> nat) \<Rightarrow> (sleep_closure, unit, io) code" where
  "sleep_code polls =
     \<lparr>handler_code = (\<lambda>_ _. unreachable), callback_code = (\<lambda>_ _. Done ()),
      build_code = (\<lambda>n _. case n of SleepHandler i \<Rightarrow> Done (SleepFuture i (polls i)) | SleepFuture _ _ \<Rightarrow> unreachable),
      poll_code = (\<lambda>f. case f of
        SleepFuture i (Suc k) \<Rightarrow> Done (Pending (SleepFuture i k))
      | SleepFuture i 0 \<Rightarrow> println (sleep_line i) (Done Ready)
      | SleepHandler _ \<Rightarrow> unreachable)\<rparr>"

definition sleep_main :: "string \<Rightarrow> string \<Rightarrow> (sleep_closure, unit, io, unit) act" where
  "sleep_main elapsed1 elapsed2 =
     Call (AsyncNew 0) (with_registry (\<lambda>registry.
     foldr (\<lambda>i k. Call (AsyncRegister registry 0 (SleepHandler i)) (\<lambda>_. k)) [0..<4] (
     await (NotifyStart registry ()) (
     println (''concurrent notify took '' @ elapsed1 @ [CHR 0x0A]) (
     await (SequentialStart registry ()) (
     println (''sequential notify took '' @ elapsed2) (Done ())))))))"

definition sleep_effect :: "nat \<Rightarrow> io \<Rightarrow> io" where
  "sleep_effect i u = u\<lparr>stdout := stdout u @ [sleep_line i]\<rparr>"

interpretation sf: waiting_futures "sleep_code polls" SleepHandler SleepFuture polls sleep_effect "()" for polls
  by unfold_locales (simp_all add: sleep_code_def sleep_effect_def println_def numeral_3_eq_3)

lemma fold_sleep_effect: "fold sleep_effect is u = u\<lparr>stdout := stdout u @ map sleep_line is\<rparr>"
  by (induction "is" arbitrary: u) (simp_all add: sleep_effect_def)

abbreviation sleep_list :: "sleep_closure entry list" where
  "sleep_list \<equiv> [closure_entry 1 (SleepHandler 0), closure_entry 2 (SleepHandler 1), closure_entry 3 (SleepHandler 2), closure_entry 4 (SleepHandler 3)]"

text \<open>C40: The program \<open>async_concurrent_vs_sequential\<close> ends, however long each sleep is pending: the concurrent
  dispatch finishes the handlers in the order their sleeps end (ties in the order of registration), the sequential one in the order of
  registration.\<close>

theorem concurrent_waits_overlap:
  assumes "\<forall>i<4. polls i \<le> M" "\<exists>i<4. polls i = M" "M + (polls 0 + polls 1 + polls 2 + polls 3) + 12 \<le> n" "n < 2 ^ 64"
  shows "run_main (sleep_code polls) n (sleep_main t1 t2) \<lparr>stdout = []\<rparr> =
    Some (Ret (), \<lparr>stdout = map sleep_line (sort_key polls [0..<4]) @ [''concurrent notify took '' @ t1 @ [CHR 0x0A]] @
      map sleep_line [0..<4] @ [''sequential notify took '' @ t2]\<rparr>)"
proof -
  let ?c = "sleep_code polls" and ?xs = "[0, 1, 2, 3] :: nat list" and ?S = "sum_list (map polls [0, 1, 2, 3])"
  let ?b = "println (''sequential notify took '' @ t2) (Done ())"
  let ?a = "println (''concurrent notify took '' @ t1 @ [CHR 0x0A]) (await (SequentialStart 0 ()) ?b)"
  have xs: "[0..<4] = ?xs" by code_simp
  obtain m where n: "n = Suc (Suc (Suc (Suc (Suc (Suc M + Suc (Suc (?S + Suc (Suc (Suc m)))))))))"
    using assms(3) by (auto simp: le_iff_add numeral_eq_Suc)
  have M: "\<forall>i\<in>set ?xs. polls i \<le> M" "\<exists>i\<in>set ?xs. polls i = M"
    using assms(1,2) by (auto simp: numeral_eq_Suc less_Suc_eq)
  define l where "l = sort_key polls ?xs"
  have l: "sf.by_waits polls 0 M ?xs = l" unfolding l_def by (rule sf.by_waits_sort [OF M(1)])
  let ?l1 = "map sleep_line l"
  have "spec_unit ?c n (sleep_main t1 t2) (empty_spec \<lparr>stdout = []\<rparr>) =
      spec_unit ?c (Suc M + Suc (Suc (?S + Suc (Suc (Suc m))))) (await (NotifyStart 0 ()) ?a) (async_registry sleep_list 5 [] \<lparr>stdout = []\<rparr>)"
    unfolding n sleep_main_def xs by (simp add: async_setup_simps)
  also have "\<dots> = spec_unit ?c (Suc (Suc (?S + Suc (Suc (Suc m))))) ?a (async_registry sleep_list 5 [False] \<lparr>stdout = ?l1\<rparr>)"
    by (subst sf.await_notify [where xs = ?xs and es = sleep_list and M = M], unfold l)
      (use M in \<open>simp_all add: fold_sleep_effect sp_list_def sp_set_user_def sp_with_client_def\<close>)
  also have "\<dots> = spec_unit ?c (Suc (?S + Suc (Suc (Suc m)))) (await (SequentialStart 0 ()) ?b)
      (async_registry sleep_list 5 [False] \<lparr>stdout = ?l1 @ [''concurrent notify took '' @ t1 @ [CHR 0x0A]]\<rparr>)"
    by (simp add: spec_unit_println sp_set_user_def sp_with_client_def)
  also have "\<dots> = spec_unit ?c (Suc (Suc (Suc m))) ?b
      (async_registry sleep_list 5 [False, False] \<lparr>stdout = ?l1 @ [''concurrent notify took '' @ t1 @ [CHR 0x0A]] @ map sleep_line ?xs\<rparr>)"
    by (subst sf.await_sequential [where xs = ?xs and es = sleep_list])
      (simp_all add: sleep_effect_def sp_list_def sp_set_user_def sp_with_client_def)
  finally show ?thesis unfolding main_refines [OF assms(4)] spec_main_def xs l_def [symmetric]
    by (simp add: spec_unit_println spec_unit_Done)
qed

theorem concurrent_waits_overlap_witness:
  "run_main (sleep_code (\<lambda>i. 3 - i)) 30 (sleep_main ''50ms'' ''200ms'') \<lparr>stdout = []\<rparr> =
   Some (Ret (), \<lparr>stdout = [''handler 3 done'', ''handler 2 done'', ''handler 1 done'', ''handler 0 done'', ''concurrent notify took 50ms'' @ [CHR 0x0A],
     ''handler 0 done'', ''handler 1 done'', ''handler 2 done'', ''handler 3 done'', ''sequential notify took 200ms'']\<rparr>)"
proof -
  have "\<exists>i<4. 3 - i = (3 :: nat)" by (intro exI [of _ 0]) simp
  moreover have "[0..<4] = [0, 1, 2, 3 :: nat]" "sort_key (\<lambda>i. 3 - i) [0..<4] = [3, 2, 1, 0 :: nat]" by code_simp+
  ultimately show ?thesis using concurrent_waits_overlap [of "\<lambda>i. 3 - i" 3 30 "''50ms''" "''200ms''"]
    by (simp add: sleep_line_def decimal_small)
qed

end
