(* ===== verification/Spec2Isabelle.thy ===== *)
theory Spec2Isabelle
  imports FuzzChurn FuzzPayload Examples HotReload AsyncExamples
begin

text \<open>
  Verification of the event registry crate \<^verbatim>\<open>registry-io\<close> (\<^verbatim>\<open>src/src\<close>), with its fuzz targets
  (\<^verbatim>\<open>src/fuzz/fuzz_targets\<close>) and example programs (\<^verbatim>\<open>src/examples\<close>).

  \<^bold>\<open>The program.\<close> A registry holds a list of handlers and dispatches events to them.
  \<^item> \<^verbatim>\<open>handler_id.rs\<close>: 64-bit handler ids from an atomic counter.
  \<^item> \<^verbatim>\<open>panic.rs\<close>: what a panic callback is told about a panicking handler.
  \<^item> \<^verbatim>\<open>hazard.rs\<close>: the process-wide hazard-pointer domain; a reader announces the address it is about to use.
  \<^item> \<^verbatim>\<open>snapshot.rs\<close>: \<open>SnapCell\<close>, one current value behind an atomic pointer. Readers announce and validate it and take no lock;
    when no slot is free they use a counted fallback under the writer lock. Writers replace the value under a mutex and retire the old one until no
    announcement names it.
  \<^item> \<^verbatim>\<open>sync/mod.rs\<close>, \<^verbatim>\<open>sync/guard.rs\<close>: \<open>SyncRegistry\<close> over a cell of handler entries sorted by priority; \<open>notify\<close>
    reads the list and calls each handler under \<open>catch_unwind\<close>.
  \<^item> \<^verbatim>\<open>future_ext.rs\<close>, \<^verbatim>\<open>async_registry/\<close>: the asynchronous registry; its two dispatches are futures that own an \<open>Arc\<close> on their list.

  \<^bold>\<open>The definitions.\<close>
  \<^item> \<^verbatim>\<open>Prelude\<close>: machine integers and the operations of the standard library the code uses.
  \<^item> \<^verbatim>\<open>HandlerId\<close>, \<^verbatim>\<open>PanicInfo\<close>, \<^verbatim>\<open>HandlerList\<close>: ids and generator, payloads and \<open>PanicInfo\<close>, and the closures
    that \<open>insert\<close>, \<open>remove_id\<close>, \<open>remove_all\<close> and \<open>contains\<close> pass to the cell.
  \<^item> \<^verbatim>\<open>Hazard\<close>, \<^verbatim>\<open>SnapCell\<close>: every function of \<^verbatim>\<open>hazard.rs\<close> and \<^verbatim>\<open>snapshot.rs\<close> as a function of one thread on an explicit heap
    of counted allocations. \<open>None\<close> is a use of freed memory, or a thread that waits for itself.
  \<^item> \<^verbatim>\<open>SnapMachine\<close>: the same two files for any number of threads, one atomic operation at a time. \<open>internal\<close> and \<open>user\<close> are the
    steps, \<open>reachable\<close> their closure; the component \<open>fault\<close> records a bad access.
  \<^item> \<^verbatim>\<open>Program\<close>, \<^verbatim>\<open>SyncRegistry\<close>, \<^verbatim>\<open>FutureExt\<close>, \<^verbatim>\<open>AsyncRegistry\<close>: every method of the two registries and their guards. User code is a parameter: a \<open>code\<close> gives
    the body of each closure and future as a possibly infinite \<open>act\<close>, which may call any method of any registry, panic, or change its own state. The outcome of a call is \<open>Ret\<close>,
    \<open>Unwind\<close> with a payload, or \<open>Abort\<close>.
  \<^item> \<^verbatim>\<open>Exec\<close>: runs such programs. The fuel counts the nodes along any path of the program, into handlers as well; a run that needs more has
    no result, and the theorems on the fuzz targets and examples state how much is enough. The bound \<open>n < 2 ^ 64\<close> keeps the nesting of reads
    within the \<open>usize\<close> counters.
  \<^item> \<^verbatim>\<open>RegistrySpec\<close>: the specification. Lists are plain values; there is no heap, hazard, lock or count.
  \<^item> \<^verbatim>\<open>Clients\<close>, \<^verbatim>\<open>FuzzChurn\<close>, \<^verbatim>\<open>FuzzPayload\<close>, \<^verbatim>\<open>Examples\<close>, \<^verbatim>\<open>Patterns\<close>, \<^verbatim>\<open>HotReload\<close>, \<^verbatim>\<open>Await\<close>, \<^verbatim>\<open>AsyncExamples\<close>: the two
    fuzz targets and ten of the example programs.

  \<^bold>\<open>The theorems.\<close>
  \<^item> The cell, for all interleavings: \<^verbatim>\<open>SnapViews\<close> gives each thread's part of the state, \<^verbatim>\<open>SnapHaz\<close>, \<^verbatim>\<open>SnapLock\<close>, \<^verbatim>\<open>SnapMem\<close>, \<^verbatim>\<open>SnapSafe\<close>
    and \<^verbatim>\<open>SnapWait\<close> one invariant each, and \<^verbatim>\<open>SnapTheorems\<close> the properties: no use after free, exact reference counts, no leak, exclusive
    writers and records, what a wait waits for and what it misses, no deadlock on the writer locks, and the end of critical sections.
  \<^item> The cell, for one thread: \<^verbatim>\<open>SnapRuns\<close> and \<^verbatim>\<open>SnapSeq\<close> show that the functions of \<^verbatim>\<open>SnapCell\<close> are runs of the machine while the other threads are idle, so its
    invariants carry over; \<^verbatim>\<open>SnapSpec\<close> states the laws of a cell as the locales \<open>value_cells\<close> and \<open>handler_cells\<close> and interprets them on those functions.
  \<^item> The registries: \<^verbatim>\<open>Refine\<close> and \<^verbatim>\<open>RefineAsync\<close> show that every operation, and so every program, behaves as the specification says.
    \<^verbatim>\<open>Behaviour\<close> gives dispatches over handlers that use only their own state a closed form. \<^verbatim>\<open>SyncTheorems\<close>, \<^verbatim>\<open>Guards\<close> and \<^verbatim>\<open>AsyncTheorems\<close>
    hold the properties of the operations; \<^verbatim>\<open>Monotone\<close> those that hold for the rest of every program, by the locale \<open>lasting\<close>.
  \<^item> The programs: what the fuzz targets and examples compute, for every input where they have one. Awaiting is in \<^verbatim>\<open>Await\<close> (locale \<open>waiting_futures\<close>).

  \<^bold>\<open>Bounds.\<close> Ids, counters and priorities are words of their width and wrap. \<open>fallback_readers\<close> of a cell and the counter \<open>running\<close> of a dispatch are
  natural numbers: they are bounded by the number of threads' reads and by the length of a list.

  \<^bold>\<open>Not modelled.\<close>
  \<^item> Weak memory: atomic operations are sequentially consistent, and one atomic operation is one step.
  \<^item> The theorems on registries run one thread while others are idle. The interleaving of several threads is covered at the cell, where all sharing happens.
  \<^item> Destructors of the values captured by closures and futures do not run when an entry or a future is freed; destructors of panic payloads do.
  \<^item> Wakers and contexts: a future may be polled at any time. Dropping a registry is outside the language of programs (\<open>reg_alive\<close> is the weak reference's view of it).
  \<^item> Thread-local storage that is gone: modelled for the hazard record, not for the fallback depth.
  \<^item> The entry types of the two registries are one type with a tag. An index of a registry that does not exist is not upgradable.
  \<^item> \<open>load_arc\<close> and \<open>replace\<close> of \<^verbatim>\<open>snapshot.rs\<close> exist only in tests; the derived \<open>Debug\<close> text of \<open>PanicInfo\<close> needs the text of a \<open>dyn Any\<close>; \<^verbatim>\<open>lib.rs\<close> only
    re-exports; \<^verbatim>\<open>concurrent.rs\<close> measures time on sixteen threads.
\<close>

section \<open>From programs to their specification\<close>

text \<open>C1: Every program gets from the library exactly what the specification says: for any handlers, callbacks and futures, re-entrant calls included, running
  a program on the implementation, with its heap, hazard pointers, locks and counts, ends with the same outcome and the same user state as on plain lists.\<close>

theorem program_refines_specification:
  assumes "n < 2 ^ 64"
  shows "run_main code n main u = spec_main code n main u"
  by (rule main_refines [OF assms])

theorem program_refines_specification_witness:
  "run_main demo_code 20 (Call (SyncNew 4) (\<lambda>_. Call (Register 0 1 13) (\<lambda>_. Call (RegisterOnce 0 5) (\<lambda>_. Call (Register 0 9 2) (\<lambda>_.
     Call (Notify 0 7) (\<lambda>_. Call (Notify 0 7) (\<lambda>_. Done ()))))))) [] = Some (Ret (), [2, 13, 5, 2, 13])"
proof -
  have "spec_main demo_code 20 (Call (SyncNew 4) (\<lambda>_. Call (Register 0 1 13) (\<lambda>_. Call (RegisterOnce 0 5) (\<lambda>_. Call (Register 0 9 2) (\<lambda>_.
     Call (Notify 0 7) (\<lambda>_. Call (Notify 0 7) (\<lambda>_. Done ()))))))) [] = Some (Ret (), [2, 13, 5, 2, 13])" by code_simp
  then show ?thesis by (simp add: program_refines_specification)
qed

section \<open>From functions to atomic steps\<close>

text \<open>C15: Replacing the value of a cell, seen as one function, is a run of atomic steps of the interleaved machine: it returns what the closure returns,
  installs the closure's value or keeps the old one if the closure declines, and ends in a state that matches the machine's.\<close>

theorem update_is_a_machine_run:
  assumes "at_pc s st pl Idle m" "c < length (cells s)"
  shows "\<exists>s' m'. update c f s = Some (map_option snd (f (vals s ! c)), s') \<and> runs (me s) m m' \<and> at_pc s' st pl Idle m' \<and>
    vals s' = (case f (vals s ! c) of None \<Rightarrow> vals s | Some (v, r) \<Rightarrow> (vals s)[c := v])"
  by (rule update_runs [OF assms, of f]) blast

theorem update_is_a_machine_run_witness:
  "\<exists>w w' :: (nat, nat list) world. \<exists>m m' :: nat entry list machine. update 0 remove_all_closure w = Some (Some (), w') \<and> runs (me w) m m' \<and>
     length (vals w ! 0) = 3 \<and> vals w' = [[]]"
proof (rule demo_three)
  fix w :: "(nat, nat list) world"
  assume w: "world_ok [] w" "handler_list 0 w = [demo_entry 2 13, demo_entry 3 2, demo_entry 1 1]" "vals w = [handler_list 0 w]"
  obtain pl m where m: "at_pc w [] pl Idle m" using w(1) by (auto simp: world_ok_def cell_ok_def)
  have c: "0 < length (cells w)" using arg_cong [OF w(3), of length] by simp
  obtain w' m' where "update 0 remove_all_closure w = Some (Some (), w')" "runs (me w) m m'" "vals w' = [[]]"
    using update_is_a_machine_run [OF m c, of remove_all_closure] w(2,3) by (auto simp: remove_all_closure_def)
  then show ?thesis using w(2,3) by (intro exI [of _ w] exI [of _ w'] exI [of _ m] exI [of _ m']) simp
qed

end
